(* ===== verification/Prelude.thy ===== *)
theory Prelude
  imports Main "HOL-Library.Word" "HOL-Library.Monad_Syntax"
begin

text \<open>
  Shared vocabulary of the development: the machine integer types the C sources use
  (\<^verbatim>\<open>libc/include/stdint.h\<close>, \<^verbatim>\<open>libc/include/stddef.h\<close>, in the 64-bit configuration),
  the layout of an integer as a list of bytes, and generic facts on words and options.

  A C function that may fail to return is modelled in the \<^typ>\<open>'a option\<close> monad:
  \<^const>\<open>None\<close> is \<^emph>\<open>the call does not return\<close>.  That is the meaning of an endless loop and also
  of a failed \<^verbatim>\<open>assert\<close>, since \<^verbatim>\<open>abort()\<close> is \<^verbatim>\<open>[[noreturn]]\<close> and ends in \<^verbatim>\<open>for (;;) {}\<close>.
\<close>

unbundle bit_operations_syntax

section \<open>Machine integers\<close>

type_synonym byte = "8 word"
type_synonym u16 = "16 word"
type_synonym u32 = "32 word"
type_synonym u64 = "64 word"

text \<open>\<^verbatim>\<open>uintptr_t\<close>, \<^verbatim>\<open>size_t\<close> and \<^verbatim>\<open>uword_t\<close> are 64 bits wide; so is \<^verbatim>\<open>word_t\<close>, read signed.\<close>

type_synonym addr = "64 word"
type_synonym size_t = "64 word"

abbreviation NULL :: addr where
  "NULL \<equiv> 0"

named_theorems mem_simps \<open>reading memory after writing it\<close>
named_theorems layout_simps \<open>bytes of integers and of encoded structures\<close>

section \<open>Integers as byte lists\<close>

text \<open>Little-endian order: the first byte of the list is the least significant one.\<close>

primrec le_join :: "byte list \<Rightarrow> 'a::len word" where
  "le_join [] = 0"
| "le_join (b # bs) = ucast b OR push_bit 8 (le_join bs)"

primrec le_bytes :: "nat \<Rightarrow> 'a::len word \<Rightarrow> byte list" where
  "le_bytes 0 w = []"
| "le_bytes (Suc n) w = ucast w # le_bytes n (drop_bit 8 w)"

lemma le_bytes_numeral: "le_bytes (numeral k) w = ucast w # le_bytes (pred_numeral k) (drop_bit 8 w)"
  by (simp add: numeral_eq_Suc)

definition be_join :: "byte list \<Rightarrow> 'a::len word" where
  "be_join bs = le_join (rev bs)"

definition be_bytes :: "nat \<Rightarrow> 'a::len word \<Rightarrow> byte list" where
  "be_bytes n w = rev (le_bytes n w)"

lemma length_le_bytes [simp]: "length (le_bytes n w) = n"
  by (induction n arbitrary: w) auto

lemma length_be_bytes [simp]: "length (be_bytes n w) = n"
  by (simp add: be_bytes_def)

lemma le_join_le_bytes: "le_join (le_bytes n w) = take_bit (8 * n) (w :: 'a::len word)"
proof (induction n arbitrary: w)
  case (Suc n)
  show ?case
    unfolding le_bytes.simps le_join.simps Suc
    by (rule bit_word_eqI) (auto simp: bit_simps)
qed simp

text \<open>The bits of a joined word, which give the other direction of the round trip.\<close>

lemma bit_le_join:
  "bit (le_join bs :: 'a::len word) k \<longleftrightarrow>
     k < LENGTH('a) \<and> k div 8 < length bs \<and> bit (bs ! (k div 8)) (k mod 8)"
proof (induction bs arbitrary: k)
  case (Cons b bs)
  show ?case
  proof (cases "k < 8")
    case True
    then show ?thesis by (auto simp: bit_simps)
  next
    case False
    then obtain j where k: "k = 8 + j" using le_Suc_ex [of 8 k] by auto
    have nb: "\<not> bit b (8 + j)" using bit_imp_le_length [of b "8 + j"] by auto
    have d: "(8 + j) div 8 = Suc (j div 8)" by simp
    show ?thesis unfolding k by (auto simp: bit_simps Cons.IH nb d)
  qed
qed simp

lemma nth_le_bytes:
  "i < n \<Longrightarrow> le_bytes n w ! i = ucast (drop_bit (8 * i) (w :: 'a::len word))"
proof (induction n arbitrary: w i)
  case (Suc n)
  then show ?case by (cases i) (auto simp: algebra_simps)
qed simp

lemma le_bytes_le_join:
  assumes "8 * length bs \<le> LENGTH('a::len)"
  shows "le_bytes (length bs) (le_join bs :: 'a word) = bs"
proof (rule nth_equalityI)
  fix i assume "i < length (le_bytes (length bs) (le_join bs :: 'a word))"
  then have i: "i < length bs" by simp
  show "le_bytes (length bs) (le_join bs :: 'a word) ! i = bs ! i"
  proof (rule bit_word_eqI)
    fix k assume k: "k < LENGTH(8)"
    have "(8 * i + k) div 8 = i" "(8 * i + k) mod 8 = k" using k by auto
    moreover have "8 * i + k < LENGTH('a)" using i k assms by auto
    ultimately show "bit (le_bytes (length bs) (le_join bs :: 'a word) ! i) k = bit (bs ! i) k"
      using i k by (auto simp: nth_le_bytes bit_simps bit_le_join)
  qed
qed simp

lemma be_join_be_bytes: "be_join (be_bytes n w) = take_bit (8 * n) (w :: 'a::len word)"
  by (simp add: be_join_def be_bytes_def le_join_le_bytes)

lemma be_bytes_be_join:
  "8 * length bs \<le> LENGTH('a::len) \<Longrightarrow> be_bytes (length bs) (be_join bs :: 'a word) = bs"
  using le_bytes_le_join [where 'a = 'a, of "rev bs"] by (simp add: be_join_def be_bytes_def)

lemma be_join_be_bytes32 [layout_simps]: "be_join (be_bytes 4 w) = (w :: u32)"
  and be_join_be_bytes64 [layout_simps]: "be_join (be_bytes 8 x) = (x :: u64)"
  by (simp_all add: be_join_be_bytes take_bit_word_eq_self)

section \<open>Addresses without wrap-around\<close>

lemma unat_less64 [simp]: "unat (a :: addr) < 2 ^ 64"
  and unat_less32 [simp]: "unat (w :: u32) < 2 ^ 32"
  using unsigned_less [of a, where ?'a = nat] unsigned_less [of w, where ?'a = nat] by simp_all

lemma unat_add_nowrap:
  "unat (a :: addr) + n < 2 ^ 64 \<Longrightarrow> unat (a + of_nat n) = unat a + n"
  by (simp add: unat_word_ariths unat_of_nat)

lemma unat_Suc_less: "i < (n :: addr) \<Longrightarrow> unat (i + 1) = Suc (unat i)"
  using unat_add_nowrap [of i 1] unat_less64 [of n] by (simp add: word_less_nat_alt)

lemma unat_diff_offset: "n < 2 ^ 64 \<Longrightarrow> unat (a + of_nat n - (a :: addr)) = n"
  by (simp add: unat_of_nat)

lemma offset_iff: "n < 2 ^ 64 \<Longrightarrow> x = a + of_nat n \<longleftrightarrow> unat (x - a :: addr) = n"
  using word_unat_eq_iff [of "x - a" "of_nat n"] by (auto simp: unat_of_nat)

lemma unat_diff_Suc: "x \<noteq> a \<Longrightarrow> unat (x - a :: addr) = Suc (unat (x - (a + 1)))"
  using unat_minus_one [of "x - a"] unat_0_iff [of "x - a"]
  by (simp add: diff_diff_eq [symmetric])

lemma of_nat_less_offset:
  assumes "unat (a :: addr) + n < 2 ^ 64" and "m < n"
  shows "a + of_nat m < a + of_nat n"
  using assms by (simp add: word_less_nat_alt unat_add_nowrap)

end
