(* ===== verification/Machine.thy ===== *)
theory Machine
  imports Prelude
begin

text \<open>
  The machine the kernel runs on: a flat, byte-addressed 64-bit physical memory (paging is off:
  \<^verbatim>\<open>entry.S\<close> clears \<^verbatim>\<open>satp\<close>), the byte order of the hardware, and the endianness the kernel was
  configured for (\<^verbatim>\<open>arch/Kconfig\<close>).  Components extend this record with their static variables.
  Loads and stores of 16, 32 and 64 bit integers go through the hardware byte order.
\<close>

datatype endianness = Little | Big

datatype endian_config = CONFIG_LITTLE_ENDIAN | CONFIG_BIG_ENDIAN | CONFIG_VARIABLE_ENDIAN

record machine =
  mem :: "addr \<Rightarrow> byte"
  byte_order :: endianness
  config :: endian_config

text \<open>A little-endian machine with the given memory, for concrete instances.\<close>

abbreviation le_machine :: "(addr \<Rightarrow> byte) \<Rightarrow> machine" where
  "le_machine m \<equiv> \<lparr>mem = m, byte_order = Little, config = CONFIG_VARIABLE_ENDIAN\<rparr>"

section \<open>Bytes\<close>

definition read_bytes :: "'z machine_scheme \<Rightarrow> addr \<Rightarrow> nat \<Rightarrow> byte list" where
  "read_bytes s a n = map (\<lambda>i. mem s (a + of_nat i)) [0..<n]"

definition write_bytes :: "'z machine_scheme \<Rightarrow> addr \<Rightarrow> byte list \<Rightarrow> 'z machine_scheme" where
  "write_bytes s a bs =
     s\<lparr>mem := (\<lambda>x. if unat (x - a) < length bs then bs ! unat (x - a) else mem s x)\<rparr>"

text \<open>\<^term>\<open>holds s a bs\<close>: memory holds the bytes \<^term>\<open>bs\<close> from address \<^term>\<open>a\<close> on.\<close>

definition holds :: "'z machine_scheme \<Rightarrow> addr \<Rightarrow> byte list \<Rightarrow> bool" where
  "holds s a bs \<longleftrightarrow> read_bytes s a (length bs) = bs"

lemma length_read_bytes [simp]: "length (read_bytes s a n) = n"
  by (simp add: read_bytes_def)

lemma nth_read_bytes [simp]: "i < n \<Longrightarrow> read_bytes s a n ! i = mem s (a + of_nat i)"
  by (simp add: read_bytes_def)

lemma read_bytes_0 [simp]: "read_bytes s a 0 = []"
  by (simp add: read_bytes_def)

lemma read_bytes_Suc: "read_bytes s a (Suc n) = mem s a # read_bytes s (a + 1) n"
  by (rule nth_equalityI) (auto simp: nth_Cons add.assoc split: nat.splits)

lemma read_bytes_add:
  "read_bytes s a (m + n) = read_bytes s a m @ read_bytes s (a + of_nat m) n"
  by (rule nth_equalityI) (auto simp: nth_append add.assoc simp flip: of_nat_add)

lemma holds_nth: "holds s a bs \<Longrightarrow> i < length bs \<Longrightarrow> mem s (a + of_nat i) = bs ! i"
  by (metis holds_def nth_read_bytes)

lemma holds_Nil [simp]: "holds s a []"
  by (simp add: holds_def)

lemma holds_Cons [simp]: "holds s a (b # bs) \<longleftrightarrow> mem s a = b \<and> holds s (a + 1) bs"
  by (simp add: holds_def read_bytes_Suc)

lemma holds_append [simp]:
  "holds s a (xs @ ys) \<longleftrightarrow> holds s a xs \<and> holds s (a + of_nat (length xs)) ys"
  by (simp add: holds_def read_bytes_add)

lemma holds_cong: "mem s = mem t \<Longrightarrow> holds s a bs = holds t a bs"
  by (simp add: holds_def read_bytes_def)

section \<open>Integers in memory\<close>

definition host_join :: "'z machine_scheme \<Rightarrow> byte list \<Rightarrow> 'a::len word" where
  "host_join s bs = (case byte_order s of Little \<Rightarrow> le_join bs | Big \<Rightarrow> be_join bs)"

definition host_bytes :: "'z machine_scheme \<Rightarrow> nat \<Rightarrow> 'a::len word \<Rightarrow> byte list" where
  "host_bytes s n w = (case byte_order s of Little \<Rightarrow> le_bytes n w | Big \<Rightarrow> be_bytes n w)"

definition load16 :: "'z machine_scheme \<Rightarrow> addr \<Rightarrow> u16" where
  "load16 s a = host_join s (read_bytes s a 2)"

definition load32 :: "'z machine_scheme \<Rightarrow> addr \<Rightarrow> u32" where
  "load32 s a = host_join s (read_bytes s a 4)"

definition load64 :: "'z machine_scheme \<Rightarrow> addr \<Rightarrow> u64" where
  "load64 s a = host_join s (read_bytes s a 8)"

definition store8 :: "'z machine_scheme \<Rightarrow> addr \<Rightarrow> byte \<Rightarrow> 'z machine_scheme" where
  "store8 s a b = s\<lparr>mem := (mem s)(a := b)\<rparr>"

definition store32 :: "'z machine_scheme \<Rightarrow> addr \<Rightarrow> u32 \<Rightarrow> 'z machine_scheme" where
  "store32 s a w = write_bytes s a (host_bytes s 4 w)"

definition store64 :: "'z machine_scheme \<Rightarrow> addr \<Rightarrow> u64 \<Rightarrow> 'z machine_scheme" where
  "store64 s a w = write_bytes s a (host_bytes s 8 w)"

lemma length_host_bytes [simp]: "length (host_bytes s n w) = n"
  by (simp add: host_bytes_def split: endianness.splits)

lemma host_join_host_bytes: "host_join s (host_bytes s n w) = take_bit (8 * n) (w :: 'a::len word)"
  by (simp add: host_join_def host_bytes_def le_join_le_bytes be_join_be_bytes split: endianness.splits)

section \<open>Reading after writing\<close>

text \<open>Two ranges of addresses that share no byte, neither wrapping around.\<close>

definition disjoint :: "addr \<Rightarrow> nat \<Rightarrow> addr \<Rightarrow> nat \<Rightarrow> bool" where
  "disjoint a m b n \<longleftrightarrow>
     unat a + m \<le> 2 ^ 64 \<and> unat b + n \<le> 2 ^ 64 \<and> (unat a + m \<le> unat b \<or> unat b + n \<le> unat a)"

lemma disjoint_sym: "disjoint a m b n \<longleftrightarrow> disjoint b n a m"
  by (auto simp: disjoint_def)

lemma mem_write_bytes:
  "mem (write_bytes s a bs) x =
     (if unat (x - a) < length bs then bs ! unat (x - a) else mem s x)"
  by (simp add: write_bytes_def)

lemma read_write_same [mem_simps]:
  "length bs = n \<Longrightarrow> n \<le> 2 ^ 64 \<Longrightarrow> read_bytes (write_bytes s a bs) a n = bs"
  by (rule nth_equalityI) (auto simp: mem_write_bytes unat_of_nat)

lemma unat_sub_ge:
  assumes "disjoint a m b n" and "i < n"
  shows "\<not> unat (b + of_nat i - a) < m"
proof -
  have b: "unat (b + of_nat i) = unat b + i"
    using assms by (intro unat_add_nowrap) (auto simp: disjoint_def)
  show ?thesis
  proof (cases "unat a + m \<le> unat b")
    case True
    then have "a \<le> b + of_nat i" using b by (simp add: word_le_nat_alt)
    then have "unat (b + of_nat i - a) = unat b + i - unat a" using b by (simp add: unat_sub)
    then show ?thesis using True by simp
  next
    case False
    then have le: "unat b + n \<le> unat a" using assms by (auto simp: disjoint_def)
    then have lt: "b + of_nat i < a" using b assms by (simp add: word_less_nat_alt)
    have "unat (b + of_nat i - a) = unat (b + of_nat i) + 2 ^ 64 - unat a"
      using lt by (simp add: unat_sub_if' word_less_nat_alt)
    then show ?thesis using b assms le unat_less64 [of a] by (auto simp: disjoint_def)
  qed
qed

lemma read_write_disjoint [mem_simps]:
  "disjoint a (length bs) b n \<Longrightarrow> read_bytes (write_bytes s a bs) b n = read_bytes s b n"
  by (rule nth_equalityI) (auto simp: mem_write_bytes unat_sub_ge)

lemma holds_write_disjoint [mem_simps]:
  "disjoint a (length bs) b (length cs) \<Longrightarrow> holds (write_bytes s a bs) b cs = holds s b cs"
  by (simp add: holds_def read_write_disjoint)

lemma write_bytes_frame [simp]:
  "byte_order (write_bytes s a bs) = byte_order s"
  "config (write_bytes s a bs) = config s"
  "machine.more (write_bytes s a bs) = machine.more s"
  by (simp_all add: write_bytes_def)

lemma host_write_bytes [simp]:
  "host_join (write_bytes s a bs) = host_join s" "host_bytes (write_bytes s a bs) = host_bytes s"
  by (simp_all add: host_join_def host_bytes_def fun_eq_iff)

lemma load64_store64_same [mem_simps]: "load64 (store64 s a w) a = w"
  by (simp add: load64_def store64_def read_write_same host_join_host_bytes take_bit_word_eq_self)

lemma load32_store32_same [mem_simps]: "load32 (store32 s a w) a = w"
  by (simp add: load32_def store32_def read_write_same host_join_host_bytes take_bit_word_eq_self)

lemma load64_store64_other [mem_simps]: "disjoint a 8 b 8 \<Longrightarrow> load64 (store64 s a w) b = load64 s b"
  by (simp add: load64_def store64_def read_write_disjoint)

lemma read_store64_other [mem_simps]:
  "disjoint a 8 b n \<Longrightarrow> read_bytes (store64 s a w) b n = read_bytes s b n"
  by (simp add: store64_def read_write_disjoint)

lemma holds_store64_other [mem_simps]:
  "disjoint a 8 b (length cs) \<Longrightarrow> holds (store64 s a w) b cs = holds s b cs"
  by (simp add: holds_def read_store64_other)

lemma store64_frame [simp]:
  "byte_order (store64 s a w) = byte_order s"
  "config (store64 s a w) = config s"
  "machine.more (store64 s a w) = machine.more s"
  by (simp_all add: store64_def)

end
