(* ===== verification/Libc_String.thy ===== *)
theory Libc_String
  imports Machine
begin

text \<open>
  \<^verbatim>\<open>libc/src/string\<close>: \<^verbatim>\<open>strlen\<close>, \<^verbatim>\<open>strcmp\<close>, \<^verbatim>\<open>memcmp\<close>, \<^verbatim>\<open>memcpy\<close>, \<^verbatim>\<open>memmove\<close>, \<^verbatim>\<open>memset\<close> and
  \<^verbatim>\<open>memset_explicit\<close>.  Every function first asserts that its pointers are not null; a failed assertion
  calls \<^verbatim>\<open>abort\<close>, which does not return (\<^const>\<open>None\<close>).  The loops of \<^verbatim>\<open>strlen\<close> and \<^verbatim>\<open>strcmp\<close> run until
  a terminator is found, so they are partial functions; the counted loops are total.

  A \<^verbatim>\<open>const char*\<close> argument is either an address or a string literal of the program.  Indexing a literal
  past its terminator is undefined in C; no function here does it (each stops at the terminator).
\<close>

section \<open>Definitions\<close>

datatype cptr = Mem addr | Lit "byte list"

fun char_at :: "'z machine_scheme \<Rightarrow> cptr \<Rightarrow> size_t \<Rightarrow> byte" where
  "char_at s (Mem a) i = mem s (a + i)"
| "char_at s (Lit bs) i = (if unat i < length bs then bs ! unat i else 0)"

partial_function (option) strlen_loop ::
  "'z machine_scheme \<Rightarrow> cptr \<Rightarrow> size_t \<Rightarrow> size_t option" where
  "strlen_loop s str len =
     (if char_at s str len \<noteq> 0 then strlen_loop s str (len + 1) else Some len)"

definition strlen :: "'z machine_scheme \<Rightarrow> cptr \<Rightarrow> size_t option" where
  "strlen s str = (if str = Mem NULL then None else strlen_loop s str 0)"

text \<open>The two pointers of \<^verbatim>\<open>strcmp\<close> advance together: \<^term>\<open>i\<close> is how far.\<close>

partial_function (option) strcmp_loop ::
  "'z machine_scheme \<Rightarrow> cptr \<Rightarrow> cptr \<Rightarrow> size_t \<Rightarrow> int option" where
  "strcmp_loop s lhs rhs i =
     (if char_at s lhs i = char_at s rhs i \<and> char_at s lhs i \<noteq> 0
      then strcmp_loop s lhs rhs (i + 1)
      else Some (uint (char_at s lhs i) - uint (char_at s rhs i)))"

definition strcmp :: "'z machine_scheme \<Rightarrow> cptr \<Rightarrow> cptr \<Rightarrow> int option" where
  "strcmp s lhs rhs =
     (if lhs = Mem NULL \<or> rhs = Mem NULL then None else strcmp_loop s lhs rhs 0)"

lemma less_count_step: "i < (count :: size_t) \<Longrightarrow> unat count - unat (i + 1) < unat count - unat i"
  by (simp add: unat_Suc_less word_less_nat_alt diff_less_mono2)

function memcmp_loop :: "'z machine_scheme \<Rightarrow> cptr \<Rightarrow> cptr \<Rightarrow> size_t \<Rightarrow> size_t \<Rightarrow> int" where
  "memcmp_loop s lhs rhs count i =
     (if i < count then
        if char_at s lhs i < char_at s rhs i then -1
        else if char_at s rhs i < char_at s lhs i then 1
        else memcmp_loop s lhs rhs count (i + 1)
      else 0)"
  by pat_completeness auto
termination
  by (relation "measure (\<lambda>(s, l, r, count, i). unat count - unat i)") (auto simp: less_count_step)

definition memcmp :: "'z machine_scheme \<Rightarrow> cptr \<Rightarrow> cptr \<Rightarrow> size_t \<Rightarrow> int option" where
  "memcmp s lhs rhs count =
     (if lhs = Mem NULL \<or> rhs = Mem NULL then None else Some (memcmp_loop s lhs rhs count 0))"

function copy_up :: "'z machine_scheme \<Rightarrow> addr \<Rightarrow> addr \<Rightarrow> size_t \<Rightarrow> size_t \<Rightarrow> 'z machine_scheme" where
  "copy_up s dest src count i =
     (if i < count
      then copy_up (store8 s (dest + i) (mem s (src + i))) dest src count (i + 1)
      else s)"
  by pat_completeness auto
termination
  by (relation "measure (\<lambda>(s, d, r, count, i). unat count - unat i)") (auto simp: less_count_step)

function copy_down :: "'z machine_scheme \<Rightarrow> addr \<Rightarrow> addr \<Rightarrow> size_t \<Rightarrow> 'z machine_scheme" where
  "copy_down s dest src i =
     (if i > 0
      then copy_down (store8 s (dest + (i - 1)) (mem s (src + (i - 1)))) dest src (i - 1)
      else s)"
  by pat_completeness auto
termination
  by (relation "measure (\<lambda>(s, d, r, i). unat i)")
    (auto simp: unat_minus_one word_gt_0 unat_gt_0)

definition memcpy :: "'z machine_scheme \<Rightarrow> addr \<Rightarrow> addr \<Rightarrow> size_t \<Rightarrow> ('z machine_scheme \<times> addr) option" where
  "memcpy s dest src count =
     (if dest = NULL \<or> src = NULL then None else Some (copy_up s dest src count 0, dest))"

definition memmove :: "'z machine_scheme \<Rightarrow> addr \<Rightarrow> addr \<Rightarrow> size_t \<Rightarrow> ('z machine_scheme \<times> addr) option" where
  "memmove s dest src count =
     (if dest = NULL \<or> src = NULL then None
      else if dest < src then Some (copy_up s dest src count 0, dest)
      else Some (copy_down s dest src count, dest))"

function memset_loop :: "'z machine_scheme \<Rightarrow> addr \<Rightarrow> byte \<Rightarrow> size_t \<Rightarrow> size_t \<Rightarrow> 'z machine_scheme" where
  "memset_loop s dest v count i =
     (if i < count then memset_loop (store8 s (dest + i) v) dest v count (i + 1) else s)"
  by pat_completeness auto
termination
  by (relation "measure (\<lambda>(s, d, v, count, i). unat count - unat i)") (auto simp: less_count_step)

definition memset :: "'z machine_scheme \<Rightarrow> addr \<Rightarrow> u32 \<Rightarrow> size_t \<Rightarrow> ('z machine_scheme \<times> addr) option" where
  "memset s dest ch count =
     (if dest = NULL then None else Some (memset_loop s dest (ucast ch) count 0, dest))"

definition memset_explicit :: "'z machine_scheme \<Rightarrow> addr \<Rightarrow> u32 \<Rightarrow> size_t \<Rightarrow> ('z machine_scheme \<times> addr) option" where
  "memset_explicit s dest ch count = (if dest = NULL then None else memset s dest ch count)"

declare memcmp_loop.simps [simp del] copy_up.simps [simp del] copy_down.simps [simp del]
  memset_loop.simps [simp del]

section \<open>Terminated strings\<close>

text \<open>\<^term>\<open>cstr s p cs\<close>: \<^term>\<open>p\<close> points to the characters \<^term>\<open>cs\<close> followed by a terminator.\<close>

definition cstr :: "'z machine_scheme \<Rightarrow> cptr \<Rightarrow> byte list \<Rightarrow> bool" where
  "cstr s p cs \<longleftrightarrow> 0 \<notin> set cs \<and> length cs < 2 ^ 64 \<and>
     (case p of Mem a \<Rightarrow> a \<noteq> NULL \<and> holds s a (cs @ [0]) | Lit bs \<Rightarrow> bs = cs)"

lemma cstr_not_null: "cstr s p cs \<Longrightarrow> p \<noteq> Mem NULL"
  by (auto simp: cstr_def)

lemma char_at_cstr:
  assumes "cstr s p cs" and "i \<le> length cs"
  shows "char_at s p (of_nat i) = (cs @ [0]) ! i"
proof (cases p)
  case (Mem a)
  then have "holds s a (cs @ [0])" using assms by (simp add: cstr_def)
  from holds_nth [OF this, of i] show ?thesis using assms Mem by simp
next
  case (Lit bs)
  then show ?thesis using assms by (auto simp: cstr_def nth_append unat_of_nat)
qed

lemma strlen_loop_eq:
  assumes "cstr s p cs" and "i \<le> length cs"
  shows "strlen_loop s p (of_nat i) = Some (of_nat (length cs))"
  using assms(2)
proof (induction rule: inc_induct)
  case base
  show ?case using char_at_cstr [OF assms(1)] by (subst strlen_loop.simps) simp
next
  case (step n)
  then have "char_at s p (of_nat n) \<noteq> 0"
    using char_at_cstr [OF assms(1), of n] assms(1) by (auto simp: nth_append cstr_def dest: nth_mem)
  with step show ?case by (subst strlen_loop.simps) (simp add: add.commute)
qed

lemma strlen_cstr: "cstr s p cs \<Longrightarrow> strlen s p = Some (of_nat (length cs))"
  using strlen_loop_eq [of s p cs 0] by (simp add: strlen_def cstr_not_null)

section \<open>Comparison\<close>

text \<open>The difference at the first place two strings part, the end of a string counting as 0.\<close>

fun str_diff :: "byte list \<Rightarrow> byte list \<Rightarrow> int" where
  "str_diff [] [] = 0"
| "str_diff [] (b # bs) = - uint b"
| "str_diff (a # as) [] = uint a"
| "str_diff (a # as) (b # bs) = (if a = b then str_diff as bs else uint a - uint b)"

lemma str_diff_eq_0: "0 \<notin> set as \<Longrightarrow> 0 \<notin> set bs \<Longrightarrow> str_diff as bs = 0 \<longleftrightarrow> as = bs"
  by (induction as bs rule: str_diff.induct) (auto simp: uint_0_iff simp flip: word_uint_eq_iff)

lemma str_diff_less: "0 \<notin> set as \<Longrightarrow> 0 \<notin> set bs \<Longrightarrow> str_diff as bs < 0 \<longleftrightarrow> ord_class.lexordp as bs"
proof (induction as bs rule: str_diff.induct)
  case (2 b bs)
  then have "0 < uint b" using uint_0_iff [of b] uint_ge_0 [of b] by (auto simp: le_less)
  then show ?case by simp
qed (auto simp: word_less_def uint_ge_0 not_less le_less simp flip: word_uint_eq_iff)

lemma strcmp_loop_eq:
  assumes "cstr s p cs" and "cstr s q ds" and "i \<le> length cs" and "i \<le> length ds"
    and "take i cs = take i ds"
  shows "strcmp_loop s p q (of_nat i) = Some (str_diff (drop i cs) (drop i ds))"
  using assms(3-5)
proof (induction "length cs - i" arbitrary: i rule: less_induct)
  case less
  have p: "char_at s p (of_nat i) = (cs @ [0]) ! i" and q: "char_at s q (of_nat i) = (ds @ [0]) ! i"
    using assms less.prems by (simp_all add: char_at_cstr)
  have nz: "x \<noteq> 0" if "x \<in> set cs \<union> set ds" for x using assms that by (auto simp: cstr_def)
  consider (both) "i < length cs" "i < length ds" | (left) "i < length cs" "i = length ds"
    | (right) "i = length cs" "i < length ds" | (none) "i = length cs" "i = length ds"
    using less.prems by linarith
  then show ?case
  proof cases
    case both
    then have d: "drop i cs = cs ! i # drop (Suc i) cs" "drop i ds = ds ! i # drop (Suc i) ds"
      by (simp_all add: Cons_nth_drop_Suc)
    show ?thesis
    proof (cases "cs ! i = ds ! i")
      case True
      then have "strcmp_loop s p q (of_nat (Suc i)) = Some (str_diff (drop (Suc i) cs) (drop (Suc i) ds))"
        using both less by (intro less.hyps) (auto simp: take_Suc_conv_app_nth)
      then show ?thesis using both True nz p q d
        by (subst strcmp_loop.simps) (simp add: nth_append add.commute)
    next
      case False
      then show ?thesis using both p q d by (subst strcmp_loop.simps) (simp add: nth_append)
    qed
  next
    case left
    then show ?thesis using p q nz Cons_nth_drop_Suc [of i cs]
      by (subst strcmp_loop.simps) (auto simp: nth_append simp flip: Cons_nth_drop_Suc)
  next
    case right
    then show ?thesis using p q nz
      by (subst strcmp_loop.simps) (auto simp: nth_append simp flip: Cons_nth_drop_Suc)
  next
    case none
    then show ?thesis using p q by (subst strcmp_loop.simps) (simp add: nth_append)
  qed
qed

lemma strcmp_cstr: "cstr s p cs \<Longrightarrow> cstr s q ds \<Longrightarrow> strcmp s p q = Some (str_diff cs ds)"
  using strcmp_loop_eq [of s p cs q ds 0] by (simp add: strcmp_def cstr_not_null)

text \<open>The first \<^term>\<open>n\<close> bytes behind a pointer.\<close>

definition chars :: "'z machine_scheme \<Rightarrow> cptr \<Rightarrow> nat \<Rightarrow> byte list" where
  "chars s p n = map (\<lambda>i. char_at s p (of_nat i)) [0..<n]"

lemma chars_Mem [simp]: "chars s (Mem a) n = read_bytes s a n"
  by (simp add: chars_def read_bytes_def)

lemma memcmp_loop_eq:
  assumes "n < 2 ^ 64" and "i \<le> n"
  shows "memcmp_loop s p q (of_nat n) (of_nat i) =
    sgn (str_diff (drop i (chars s p n)) (drop i (chars s q n)))"
  using assms(2)
proof (induction rule: inc_induct)
  case base
  show ?case by (subst memcmp_loop.simps) (simp add: chars_def)
next
  case (step i)
  have lt: "(of_nat i :: size_t) < of_nat n" using step.hyps assms(1) by (simp add: word_less_nat_alt unat_of_nat)
  have d: "drop i (chars s r n) = char_at s r (of_nat i) # drop (Suc i) (chars s r n)" for r
    using step.hyps by (simp add: chars_def drop_map upt_conv_Cons [of i])
  show ?case using lt step.IH
    by (subst memcmp_loop.simps) (auto simp: d word_less_def add.commute simp flip: word_uint_eq_iff)
qed

lemma memcmp_eq:
  "n < 2 ^ 64 \<Longrightarrow> p \<noteq> Mem NULL \<Longrightarrow> q \<noteq> Mem NULL \<Longrightarrow>
     memcmp s p q (of_nat n) = Some (sgn (str_diff (chars s p n) (chars s q n)))"
  using memcmp_loop_eq [of n 0] by (simp add: memcmp_def)

lemma str_diff_same_length: "length as = length bs \<Longrightarrow> str_diff as bs = 0 \<longleftrightarrow> as = bs"
  by (induction as bs rule: str_diff.induct) (auto simp: uint_0_iff simp flip: word_uint_eq_iff)

section \<open>Copying and filling\<close>

lemma store8_write_bytes:
  assumes "length bs < 2 ^ 64"
  shows "store8 (write_bytes s a bs) (a + of_nat (length bs)) b = write_bytes s a (bs @ [b])"
proof -
  have "(mem (write_bytes s a bs))(a + of_nat (length bs) := b) = mem (write_bytes s a (bs @ [b]))"
  proof
    fix x
    have "x = a + of_nat (length bs) \<longleftrightarrow> unat (x - a) = length bs"
      using assms by (rule offset_iff)
    then show "((mem (write_bytes s a bs))(a + of_nat (length bs) := b)) x = mem (write_bytes s a (bs @ [b])) x"
      by (auto simp: mem_write_bytes nth_append)
  qed
  then show ?thesis by (simp add: store8_def write_bytes_def)
qed

lemma memset_loop_eq:
  assumes "n < 2 ^ 64" and "i \<le> n"
  shows "memset_loop (write_bytes s d (replicate i v)) d v (of_nat n) (of_nat i) =
    write_bytes s d (replicate n v)"
  using assms(2)
proof (induction rule: inc_induct)
  case base
  show ?case by (subst memset_loop.simps) simp
next
  case (step i)
  have "(of_nat i :: size_t) < of_nat n" using step.hyps assms(1) by (simp add: word_less_nat_alt unat_of_nat)
  moreover have "store8 (write_bytes s d (replicate i v)) (d + of_nat i) v = write_bytes s d (replicate (Suc i) v)"
    using store8_write_bytes [of "replicate i v" s d v] step.hyps assms(1)
    by (simp add: replicate_append_same)
  ultimately show ?case using step.IH by (subst memset_loop.simps) (simp add: add.commute)
qed

lemma write_bytes_Nil [simp]: "write_bytes s a [] = s"
  by (simp add: write_bytes_def)

lemma memset_eq:
  "n < 2 ^ 64 \<Longrightarrow> d \<noteq> NULL \<Longrightarrow>
     memset s d ch (of_nat n) = Some (write_bytes s d (replicate n (ucast ch)), d)"
  using memset_loop_eq [of n 0] by (simp add: memset_def)

text \<open>
  Copying upwards is correct as long as no byte is read after it was overwritten.
\<close>

lemma copy_up_eq:
  assumes "n < 2 ^ 64" and "i \<le> n"
    and safe: "\<And>i. i < n \<Longrightarrow> \<not> unat (src + of_nat i - dest) < i"
  shows "copy_up (write_bytes s dest (read_bytes s src i)) dest src (of_nat n) (of_nat i) =
    write_bytes s dest (read_bytes s src n)"
  using assms(2)
proof (induction rule: inc_induct)
  case base
  show ?case by (subst copy_up.simps) simp
next
  case (step i)
  let ?t = "write_bytes s dest (read_bytes s src i)"
  have lt: "(of_nat i :: size_t) < of_nat n" using step.hyps assms(1) by (simp add: word_less_nat_alt unat_of_nat)
  have "mem ?t (src + of_nat i) = mem s (src + of_nat i)"
    using safe [of i] step.hyps by (simp add: mem_write_bytes)
  then have "store8 ?t (dest + of_nat i) (mem ?t (src + of_nat i)) =
      write_bytes s dest (read_bytes s src (Suc i))"
    using store8_write_bytes [of "read_bytes s src i" s dest] step.hyps assms(1)
      read_bytes_add [of s src i 1] by (simp add: read_bytes_Suc)
  then show ?case using lt step.IH by (subst copy_up.simps) (simp add: add.commute)
qed

lemma store8_write_bytes_front:
  assumes "length bs < 2 ^ 64"
  shows "store8 (write_bytes s (a + 1) bs) a b = write_bytes s a (b # bs)"
proof -
  have "(mem (write_bytes s (a + 1) bs))(a := b) = mem (write_bytes s a (b # bs))"
  proof
    fix x
    show "((mem (write_bytes s (a + 1) bs))(a := b)) x = mem (write_bytes s a (b # bs)) x"
    proof (cases "x = a")
      case False
      then have "unat (x - a) = Suc (unat (x - (a + 1)))"
        by (rule unat_diff_Suc)
      then show ?thesis using False by (simp add: mem_write_bytes)
    qed (simp add: mem_write_bytes)
  qed
  then show ?thesis by (simp add: store8_def write_bytes_def)
qed

lemma copy_down_eq:
  assumes "n < 2 ^ 64" and "i \<le> n"
    and safe: "\<And>i. i < n \<Longrightarrow> \<not> unat (src + of_nat i - (dest + of_nat (Suc i))) < n - Suc i"
  shows "copy_down (write_bytes s (dest + of_nat i) (drop i (read_bytes s src n))) dest src (of_nat i) =
    write_bytes s dest (read_bytes s src n)"
  using assms(2)
proof (induction i)
  case 0
  show ?case by (subst copy_down.simps) simp
next
  case (Suc i)
  let ?b = "read_bytes s src n"
  let ?t = "write_bytes s (dest + of_nat (Suc i)) (drop (Suc i) ?b)"
  have nz: "(of_nat (Suc i) :: size_t) > 0" using Suc.prems assms(1)
    by (simp add: word_less_nat_alt unat_of_nat del: of_nat_Suc)
  have "mem ?t (src + of_nat i) = mem s (src + of_nat i)"
    using safe [of i] Suc.prems by (simp add: mem_write_bytes)
  then have "store8 ?t (dest + of_nat i) (mem ?t (src + of_nat i)) =
      write_bytes s (dest + of_nat i) (drop i ?b)"
    using store8_write_bytes_front [of "drop (Suc i) ?b" s "dest + of_nat i" "?b ! i"] Suc.prems assms(1)
    by (simp add: Cons_nth_drop_Suc [symmetric] add.commute add.left_commute)
  then show ?case using nz Suc by (subst copy_down.simps) simp
qed

lemma memmove_safe_up:
  fixes dest src :: addr
  assumes "unat dest + n \<le> 2 ^ 64" and "unat src + n \<le> 2 ^ 64" and "dest < src" and "i < n"
  shows "\<not> unat (src + of_nat i - dest) < i"
proof -
  have "unat (src + of_nat i) = unat src + i" using assms by (intro unat_add_nowrap) simp
  moreover from this have "unat (src + of_nat i - dest) = unat src + i - unat dest"
    using assms by (simp add: unat_sub word_le_nat_alt word_less_nat_alt)
  ultimately show ?thesis using assms by (simp add: word_less_nat_alt)
qed

lemma memmove_safe_down:
  fixes dest src :: addr
  assumes "unat dest + n \<le> 2 ^ 64" and "unat src + n \<le> 2 ^ 64" and "\<not> dest < src" and "i < n"
  shows "\<not> unat (src + of_nat i - (dest + of_nat (Suc i))) < n - Suc i"
proof (cases "Suc i = n")
  case False
  have s: "unat (src + of_nat i) = unat src + i" using assms by (intro unat_add_nowrap) simp
  have d: "unat (dest + of_nat (Suc i)) = unat dest + Suc i"
    using assms False by (intro unat_add_nowrap) simp
  have "src + of_nat i < dest + of_nat (Suc i)"
    using s d assms by (simp add: word_less_nat_alt del: of_nat_Suc)
  then have "unat (src + of_nat i - (dest + of_nat (Suc i))) = unat src + i + 2 ^ 64 - (unat dest + Suc i)"
    using s d by (simp add: unat_sub_if' word_less_nat_alt del: of_nat_Suc)
  then show ?thesis using assms(1) by linarith
qed simp

section \<open>Properties\<close>

text \<open>\<^verbatim>\<open>strlen\<close> of a terminated string returns the number of characters before the terminator.\<close>

theorem strlen_correct:
  "cstr s p cs \<Longrightarrow> strlen s p = Some (of_nat (length cs)) \<and> unat (the (strlen s p)) = length cs"
  by (auto simp: strlen_cstr cstr_def unat_of_nat)

theorem strlen_correct_witness:
  "strlen (le_machine ((\<lambda>_. 0)(8 := 0x6F, 9 := 0x6B))) (Mem 8) = Some 2"
  using strlen_correct [of "le_machine ((\<lambda>_. 0)(8 := 0x6F, 9 := 0x6B))"
      "Mem 8" "[0x6F, 0x6B]"]
  by (simp add: cstr_def)

text \<open>\<^verbatim>\<open>strcmp\<close> of two terminated strings returns, and the sign of its result is their order by unsigned
  characters: zero exactly for equal strings, negative exactly when the first comes before the second.\<close>

theorem strcmp_correct:
  assumes "cstr s p cs" and "cstr s q ds"
  shows "\<exists>d. strcmp s p q = Some d \<and> (d = 0 \<longleftrightarrow> cs = ds) \<and> (d < 0 \<longleftrightarrow> ord_class.lexordp cs ds)"
  using assms strcmp_cstr [OF assms] by (auto simp: cstr_def str_diff_eq_0 str_diff_less)

theorem strcmp_correct_witness:
  "\<exists>d. strcmp (le_machine ((\<lambda>_. 0))) (Lit [0x61]) (Lit [0x61, 0x62]) = Some d \<and> d < 0"
  using strcmp_correct [of "(le_machine ((\<lambda>_. 0)))"
      "Lit [0x61]" "[0x61]" "Lit [0x61, 0x62]" "[0x61, 0x62]"]
  by (auto simp: cstr_def)

text \<open>C33. \<^verbatim>\<open>memmove\<close> copies the \<^term>\<open>n\<close> bytes the source held before the call to the destination, changes
  no other byte and returns the destination, however the two ranges overlap (neither wrapping around the
  end of the address space).\<close>

theorem memmove_correct:
  assumes "unat dest + n \<le> 2 ^ 64" and "unat src + n \<le> 2 ^ 64" and "n < 2 ^ 64"
    and "dest \<noteq> NULL" and "src \<noteq> NULL"
  shows "memmove s dest src (of_nat n) = Some (write_bytes s dest (read_bytes s src n), dest)"
  using copy_up_eq [of n 0 src dest s, OF assms(3) _ memmove_safe_up [OF assms(1,2)]]
    copy_down_eq [of n n src dest s, OF assms(3) _ memmove_safe_down [OF assms(1,2)]]
  by (simp add: memmove_def assms(4,5))

theorem memmove_correct_witness:
  "\<exists>t. memmove (le_machine ((\<lambda>_. 0)(8 := 1, 9 := 2))) 9 8 2 = Some (t, 9)
     \<and> mem t 9 = 1 \<and> mem t 10 = 2"
  using memmove_correct [of 9 2 8 "(le_machine ((\<lambda>_. 0)(8 := 1, 9 := 2)))"]
  by (simp add: mem_write_bytes read_bytes_def upt_rec)

text \<open>\<^verbatim>\<open>memcmp\<close> compares the first \<^term>\<open>n\<close> bytes of two objects: 0 exactly when they are equal, and
  otherwise $-1$ or $1$.\<close>

theorem memcmp_correct:
  assumes "n < 2 ^ 64" and "p \<noteq> Mem NULL" and "q \<noteq> Mem NULL"
  shows "\<exists>r \<in> {-1, 0, 1}. memcmp s p q (of_nat n) = Some r \<and> (r = 0 \<longleftrightarrow> chars s p n = chars s q n)"
  using memcmp_eq [OF assms, of s] str_diff_same_length [of "chars s p n" "chars s q n"]
  by (auto simp: chars_def sgn_if)

theorem memcmp_correct_witness:
  "memcmp (le_machine ((\<lambda>_. 0)(8 := 1))) (Mem 8) (Lit [1]) 2 = Some 0"
  using memcmp_correct [of 2 "Mem 8" "Lit [1]" "(le_machine ((\<lambda>_. 0)(8 := 1)))"]
  by (auto simp: chars_def read_bytes_def upt_rec)

text \<open>\<^verbatim>\<open>memset\<close> and \<^verbatim>\<open>memset_explicit\<close> fill exactly the \<^term>\<open>n\<close> bytes at the destination with the low
  byte of their argument.\<close>

theorem memset_correct:
  assumes "n < 2 ^ 64" and "dest \<noteq> NULL"
  shows "memset s dest ch (of_nat n) = Some (write_bytes s dest (replicate n (ucast ch)), dest)
    \<and> memset_explicit s dest ch (of_nat n) = memset s dest ch (of_nat n)"
  using assms by (simp add: memset_eq memset_explicit_def)

theorem memset_correct_witness:
  "\<exists>t. memset (le_machine ((\<lambda>_. 0))) 16 0x1FF 2 = Some (t, 16)
     \<and> mem t 17 = 0xFF \<and> mem t 18 = 0"
  using memset_correct [of 2 16 "(le_machine ((\<lambda>_. 0)))" "0x1FF"]
  by (simp add: mem_write_bytes)

end
