(* ===== verification/Endian.thy ===== *)
theory Endian
  imports Machine
begin

text \<open>
  \<^verbatim>\<open>include/kernel/endian.h\<close>: byte swapping and conversion between big- or little-endian and
  host order.  The kernel is built with GCC, so \<^verbatim>\<open>bswapN\<close> is \<^verbatim>\<open>__builtin_bswapN\<close>, which reverses
  the bytes of its argument; the portable branch of the header is modelled beside it and proved
  equal.
\<close>

section \<open>Definitions\<close>

definition sys_little_endian :: "'z machine_scheme \<Rightarrow> bool" where
  "sys_little_endian s =
     (case config s of
        CONFIG_LITTLE_ENDIAN \<Rightarrow> True
      | CONFIG_BIG_ENDIAN \<Rightarrow> False
      | CONFIG_VARIABLE_ENDIAN \<Rightarrow> hd (host_bytes s 2 (1 :: u16)) \<noteq> 0)"

definition sys_big_endian :: "'z machine_scheme \<Rightarrow> bool" where
  "sys_big_endian s = (\<not> sys_little_endian s)"

text \<open>The compiler's built-in: reverse the order of the bytes.\<close>

definition bswap16 :: "u16 \<Rightarrow> u16" where
  "bswap16 x = le_join (rev (le_bytes 2 x))"

definition bswap32 :: "u32 \<Rightarrow> u32" where
  "bswap32 x = le_join (rev (le_bytes 4 x))"

definition bswap64 :: "u64 \<Rightarrow> u64" where
  "bswap64 x = le_join (rev (le_bytes 8 x))"

text \<open>The header's portable branch, for compilers other than GCC.\<close>

definition bswap16_portable :: "u16 \<Rightarrow> u16" where
  "bswap16_portable x = push_bit 8 (x AND 0xFF) OR (drop_bit 8 x AND 0xFF)"

definition bswap32_portable :: "u32 \<Rightarrow> u32" where
  "bswap32_portable x =
     push_bit 16 (ucast (bswap16_portable (ucast (x AND 0xFFFF)))) OR
     (ucast (bswap16_portable (ucast (drop_bit 16 x))) AND 0xFFFF)"

definition bswap64_portable :: "u64 \<Rightarrow> u64" where
  "bswap64_portable x =
     push_bit 32 (ucast (bswap32_portable (ucast (x AND 0xFFFFFFFF)))) OR
     (ucast (bswap32_portable (ucast (drop_bit 32 x))) AND 0xFFFFFFFF)"

definition be16toh :: "'z machine_scheme \<Rightarrow> u16 \<Rightarrow> u16" where
  "be16toh s x = (if sys_little_endian s then bswap16 x else x)"

definition be32toh :: "'z machine_scheme \<Rightarrow> u32 \<Rightarrow> u32" where
  "be32toh s x = (if sys_little_endian s then bswap32 x else x)"

definition be64toh :: "'z machine_scheme \<Rightarrow> u64 \<Rightarrow> u64" where
  "be64toh s x = (if sys_little_endian s then bswap64 x else x)"

definition le16toh :: "'z machine_scheme \<Rightarrow> u16 \<Rightarrow> u16" where
  "le16toh s x = (if sys_big_endian s then bswap16 x else x)"

definition le32toh :: "'z machine_scheme \<Rightarrow> u32 \<Rightarrow> u32" where
  "le32toh s x = (if sys_big_endian s then bswap32 x else x)"

definition le64toh :: "'z machine_scheme \<Rightarrow> u64 \<Rightarrow> u64" where
  "le64toh s x = (if sys_big_endian s then bswap64 x else x)"

text \<open>The names that C++ code overloads by the width of the argument: a value of one of the three unsigned types, and one equation
  for each overload.\<close>

datatype cpp_uint = U16 u16 | U32 u32 | U64 u64

fun bswap :: "cpp_uint \<Rightarrow> cpp_uint" where
  "bswap (U16 x) = U16 (bswap16 x)"
| "bswap (U32 x) = U32 (bswap32 x)"
| "bswap (U64 x) = U64 (bswap64 x)"

fun betoh :: "'z machine_scheme \<Rightarrow> cpp_uint \<Rightarrow> cpp_uint" where
  "betoh s (U16 x) = U16 (be16toh s x)"
| "betoh s (U32 x) = U32 (be32toh s x)"
| "betoh s (U64 x) = U64 (be64toh s x)"

fun letoh :: "'z machine_scheme \<Rightarrow> cpp_uint \<Rightarrow> cpp_uint" where
  "letoh s (U16 x) = U16 (le16toh s x)"
| "letoh s (U32 x) = U32 (le32toh s x)"
| "letoh s (U64 x) = U64 (le64toh s x)"

text \<open>The kernel configuration agrees with the hardware it runs on.\<close>

definition config_ok :: "'z machine_scheme \<Rightarrow> bool" where
  "config_ok s \<longleftrightarrow>
     (config s = CONFIG_LITTLE_ENDIAN \<longrightarrow> byte_order s = Little) \<and>
     (config s = CONFIG_BIG_ENDIAN \<longrightarrow> byte_order s = Big)"

section \<open>Lemmas\<close>

lemma sys_little_endian_eq: "config_ok s \<Longrightarrow> sys_little_endian s \<longleftrightarrow> byte_order s = Little"
  by (cases "byte_order s")
    (auto simp: config_ok_def sys_little_endian_def host_bytes_def be_bytes_def eval_nat_numeral
      split: endian_config.splits)

lemma config_ok_frame [simp]:
  "config_ok (write_bytes s a bs) = config_ok s" "config_ok (store64 s a w) = config_ok s"
  by (simp_all add: config_ok_def)

lemma and_byte_mask: "x AND 0xFF = take_bit 8 (x :: 'a::len word)"
  and and_half_mask: "x AND 0xFFFF = take_bit 16 (x :: 'a::len word)"
  and and_word_mask: "x AND 0xFFFFFFFF = take_bit 32 (x :: 'a::len word)"
  by (simp_all add: take_bit_eq_mask mask_eq_exp_minus_1)

lemmas and_masks = and_byte_mask and_half_mask and_word_mask

lemma bswap_le_join:
  "length bs = 2 \<Longrightarrow> bswap16 (le_join bs) = be_join bs"
  "length cs = 4 \<Longrightarrow> bswap32 (le_join cs) = be_join cs"
  "length ds = 8 \<Longrightarrow> bswap64 (le_join ds) = be_join ds"
  using le_bytes_le_join [where 'a = 16, of bs] le_bytes_le_join [where 'a = 32, of cs]
    le_bytes_le_join [where 'a = 64, of ds]
  by (simp_all add: bswap16_def bswap32_def bswap64_def be_join_def)

lemma be_load:
  assumes "config_ok s"
  shows "be16toh s (load16 s a) = be_join (read_bytes s a 2)"
    and "be32toh s (load32 s a) = be_join (read_bytes s a 4)"
    and "be64toh s (load64 s a) = be_join (read_bytes s a 8)"
  using assms
  by (auto simp: be16toh_def be32toh_def be64toh_def load16_def load32_def load64_def
      sys_little_endian_eq host_join_def bswap_le_join split: endianness.splits)

lemma bswap_be_join:
  "length bs = 2 \<Longrightarrow> bswap16 (be_join bs) = le_join bs"
  "length cs = 4 \<Longrightarrow> bswap32 (be_join cs) = le_join cs"
  "length ds = 8 \<Longrightarrow> bswap64 (be_join ds) = le_join ds"
  using bswap_le_join(1) [of "rev bs"] bswap_le_join(2) [of "rev cs"] bswap_le_join(3) [of "rev ds"]
  by (simp_all add: be_join_def)

lemma le_load:
  assumes "config_ok s"
  shows "le16toh s (load16 s a) = le_join (read_bytes s a 2)"
    and "le32toh s (load32 s a) = le_join (read_bytes s a 4)"
    and "le64toh s (load64 s a) = le_join (read_bytes s a 8)"
  using assms
  by (auto simp: le16toh_def le32toh_def le64toh_def load16_def load32_def load64_def sys_big_endian_def
      sys_little_endian_eq host_join_def bswap_be_join split: endianness.splits)

text \<open>A big-endian integer written out in memory reads back as itself.\<close>

lemma be32_holds: "config_ok s \<Longrightarrow> holds s a (be_bytes 4 w) \<Longrightarrow> be32toh s (load32 s a) = w"
  by (simp add: be_load holds_def layout_simps)

lemma be64_holds: "config_ok s \<Longrightarrow> holds s a (be_bytes 8 w) \<Longrightarrow> be64toh s (load64 s a) = w"
  by (simp add: be_load holds_def layout_simps)

lemma bit_bswap16: "bit (bswap16 x) k \<longleftrightarrow> k < 16 \<and> bit x (8 * (1 - k div 8) + k mod 8)"
  by (auto simp: bswap16_def bit_le_join rev_nth nth_le_bytes bit_simps)

lemma bit_bswap32: "bit (bswap32 x) k \<longleftrightarrow> k < 32 \<and> bit x (8 * (3 - k div 8) + k mod 8)"
  by (auto simp: bswap32_def bit_le_join rev_nth nth_le_bytes bit_simps)

lemma bit_bswap64: "bit (bswap64 x) k \<longleftrightarrow> k < 64 \<and> bit x (8 * (7 - k div 8) + k mod 8)"
  by (auto simp: bswap64_def bit_le_join rev_nth nth_le_bytes bit_simps)

lemma bswap16_portable_eq: "bswap16_portable x = bswap16 x"
proof (rule bit_word_eqI)
  fix k assume k: "k < LENGTH(16)"
  show "bit (bswap16_portable x) k = bit (bswap16 x) k"
  proof (cases "k < 8")
    case True
    then show ?thesis
      by (auto simp: bswap16_portable_def bit_bswap16 bit_simps and_masks add.commute)
  next
    case False
    then have "k div 8 = 1" "k mod 8 = k - 8" using k by (auto simp: mod_if)
    with False k show ?thesis
      by (auto simp: bswap16_portable_def bit_bswap16 bit_simps and_masks)
  qed
qed

text \<open>The wider swaps combine two swaps of half the width, crosswise.\<close>

lemma swap_index_low:
  fixes k n :: nat
  assumes "k < 8 * n"
  shows "bit x (8 * n + (8 * (n - 1 - k div 8) + k mod 8)) = bit x (8 * (2 * n - 1 - k div 8) + k mod 8)"
    and "8 * (n - 1 - k div 8) + k mod 8 < 8 * n"
proof -
  have "k div 8 < n" using assms by auto
  then show "bit x (8 * n + (8 * (n - 1 - k div 8) + k mod 8)) = bit x (8 * (2 * n - 1 - k div 8) + k mod 8)"
    and "8 * (n - 1 - k div 8) + k mod 8 < 8 * n"
    by (auto intro!: arg_cong [where f = "bit x"])
qed

lemma swap_index_high:
  fixes k n :: nat
  assumes "\<not> k < 8 * n" and "k < 16 * n"
  shows "8 * (n - 1 - (k - 8 * n) div 8) + (k - 8 * n) mod 8 = 8 * (2 * n - 1 - k div 8) + k mod 8"
    and "8 * (2 * n - 1 - k div 8) + k mod 8 < 8 * n"
proof -
  obtain j where k: "k = 8 * n + j" using assms(1) le_Suc_ex [of "8 * n" k] by auto
  then have "j < 8 * n" using assms(2) by simp
  then have "j div 8 < n" by auto
  then show "8 * (n - 1 - (k - 8 * n) div 8) + (k - 8 * n) mod 8 = 8 * (2 * n - 1 - k div 8) + k mod 8"
    and "8 * (2 * n - 1 - k div 8) + k mod 8 < 8 * n"
    by (auto simp: k)
qed

lemma bswap32_portable_eq: "bswap32_portable x = bswap32 x"
proof (rule bit_word_eqI)
  fix k assume k: "k < LENGTH(32)"
  show "bit (bswap32_portable x) k = bit (bswap32 x) k"
  proof (cases "k < 16")
    case True
    then show ?thesis using swap_index_low(1) [of k 2 x] swap_index_low(2) [of k 2]
      by (simp add: bswap32_portable_def bswap16_portable_eq bit_bswap32 bit_bswap16 bit_simps and_masks)
  next
    case False
    with k have "k - 16 < 16" by auto
    then show ?thesis using False k swap_index_high [of k 2]
      by (simp add: bswap32_portable_def bswap16_portable_eq bit_bswap32 bit_bswap16 bit_simps and_masks)
  qed
qed

lemma bswap64_portable_eq: "bswap64_portable x = bswap64 x"
proof (rule bit_word_eqI)
  fix k assume k: "k < LENGTH(64)"
  show "bit (bswap64_portable x) k = bit (bswap64 x) k"
  proof (cases "k < 32")
    case True
    then show ?thesis using swap_index_low(1) [of k 4 x] swap_index_low(2) [of k 4]
      by (simp add: bswap64_portable_def bswap32_portable_eq bit_bswap64 bit_bswap32 bit_simps and_masks)
  next
    case False
    with k have "k - 32 < 32" by auto
    then show ?thesis using False k swap_index_high [of k 4]
      by (simp add: bswap64_portable_def bswap32_portable_eq bit_bswap64 bit_bswap32 bit_simps and_masks)
  qed
qed

section \<open>Properties\<close>

text \<open>C32. Whatever the byte order of the hardware, as long as the configured endianness agrees with it, \<^verbatim>\<open>beNtoh\<close> of
  an integer loaded from memory is the big-endian reading of its bytes, and \<^verbatim>\<open>leNtoh\<close> the little-endian one.\<close>

theorem endian_load_correct:
  assumes "config_ok s"
  shows "be16toh s (load16 s a) = be_join (read_bytes s a 2) \<and> le16toh s (load16 s a) = le_join (read_bytes s a 2) \<and>
    be32toh s (load32 s a) = be_join (read_bytes s a 4) \<and> le32toh s (load32 s a) = le_join (read_bytes s a 4) \<and>
    be64toh s (load64 s a) = be_join (read_bytes s a 8) \<and> le64toh s (load64 s a) = le_join (read_bytes s a 8)"
  using be_load [OF assms] le_load [OF assms] by simp

theorem endian_load_correct_witness:
  "config_ok (le_machine (\<lambda>a. if a = 1 then 7 else 0)) \<and>
   be16toh (le_machine (\<lambda>a. if a = 1 then 7 else 0)) (load16 (le_machine (\<lambda>a. if a = 1 then 7 else 0)) 0) = 7"
  using endian_load_correct [of "le_machine (\<lambda>a. if a = 1 then 7 else 0)" 0]
  by (simp add: config_ok_def read_bytes_def be_join_def upt_rec)

text \<open>The portable byte swaps of the header compute the same as the compiler's built-ins, at every width, and
  swapping twice gives back the argument, for each of the overloads C++ code sees; of the two conversions from big and from
  little endian one swaps and the other does nothing.\<close>

theorem bswap_correct:
  "bswap16_portable x = bswap16 x \<and> bswap32_portable y = bswap32 y \<and> bswap64_portable z = bswap64 z \<and>
   bswap (bswap v) = v \<and> {betoh s v, letoh s v} = {v, bswap v}"
proof -
  have "bswap16 (bswap16 x) = x" "bswap32 (bswap32 y) = y" "bswap64 (bswap64 z) = z" for x y z
    using bswap_be_join(1) [of "le_bytes 2 x"] bswap_be_join(2) [of "le_bytes 4 y"] bswap_be_join(3) [of "le_bytes 8 z"]
    by (simp_all add: be_join_def le_join_le_bytes take_bit_word_eq_self flip: bswap16_def bswap32_def bswap64_def)
  moreover have "{betoh s v, letoh s v} = {v, bswap v}"
    by (cases v; cases "sys_little_endian s")
      (auto simp: be16toh_def be32toh_def be64toh_def le16toh_def le32toh_def le64toh_def sys_big_endian_def)
  ultimately show ?thesis by (cases v) (simp_all add: bswap16_portable_eq bswap32_portable_eq bswap64_portable_eq)
qed

end
