(* ===== verification/Fdt.thy ===== *)
theory Fdt
  imports Endian Libc_String
begin

text \<open>
  \<^verbatim>\<open>kernel/of/fdt.c\<close> and \<^verbatim>\<open>include/kernel/of/fdt.h\<close>: the reader of the flattened device tree (FDT),
  function by function.  The blob lies in memory at the address \<^verbatim>\<open>fdt\<close>; all its integers are big-endian.
  Pointers to nodes, properties and tokens are addresses, and a null pointer is the address 0, as in the C
  code.  A function that walks the structure block calls \<^verbatim>\<open>strlen\<close> on node names, so it may not return:
  its result is an \<^typ>\<open>'a option\<close>, and \<^const>\<open>None\<close> stands for a call with no defined result (an endless
  loop, a failed assertion, or an access outside an array).

  The counters of type \<^verbatim>\<open>word_t\<close> (a signed 64-bit word) are \<^typ>\<open>int\<close>: they change by one per token of at
  least four bytes, so they cannot leave the range of the word.
\<close>

section \<open>Data\<close>

definition FDT_COMPAT_VERSION :: u32 where "FDT_COMPAT_VERSION = 17"
definition FDT_HEADER_MAGIC :: u32 where "FDT_HEADER_MAGIC = 0xd00dfeed"
definition FDT_BEGIN_NODE :: u32 where "FDT_BEGIN_NODE = 0x1"
definition FDT_END_NODE :: u32 where "FDT_END_NODE = 0x2"
definition FDT_PROP :: u32 where "FDT_PROP = 0x3"
definition FDT_NOP :: u32 where "FDT_NOP = 0x4"
definition FDT_END :: u32 where "FDT_END = 0x9"

lemma tags_distinct:
  "distinct [FDT_BEGIN_NODE, FDT_END_NODE, FDT_PROP, FDT_NOP, FDT_END]"
  "distinct [FDT_END, FDT_NOP, FDT_PROP, FDT_END_NODE, FDT_BEGIN_NODE]"
  by (simp_all add: FDT_BEGIN_NODE_def FDT_END_NODE_def FDT_PROP_def FDT_NOP_def FDT_END_def)

lemmas tag_neqs [simp] = tags_distinct [simplified]

record fdt_header =
  magic :: u32
  totalsize :: u32
  off_dt_struct :: u32
  off_dt_strings :: u32
  off_mem_rsvmap :: u32
  version :: u32
  last_comp_version :: u32
  boot_cpuid_phys :: u32
  size_dt_strings :: u32
  size_dt_struct :: u32

text \<open>Reading \<^verbatim>\<open>struct fdt\<close>, a packed struct of ten 32-bit words.\<close>

definition fdt_at :: "'z machine_scheme \<Rightarrow> addr \<Rightarrow> fdt_header" where
  "fdt_at s p =
     \<lparr>magic = load32 s p, totalsize = load32 s (p + 4), off_dt_struct = load32 s (p + 8),
      off_dt_strings = load32 s (p + 12), off_mem_rsvmap = load32 s (p + 16),
      version = load32 s (p + 20), last_comp_version = load32 s (p + 24),
      boot_cpuid_phys = load32 s (p + 28), size_dt_strings = load32 s (p + 32),
      size_dt_struct = load32 s (p + 36)\<rparr>"

record fdt_prop_header =
  prop_token :: u32
  prop_len :: u32
  prop_name_offset :: u32

definition fdt_prop_at :: "'z machine_scheme \<Rightarrow> addr \<Rightarrow> fdt_prop_header" where
  "fdt_prop_at s p =
     \<lparr>prop_token = load32 s p, prop_len = load32 s (p + 4), prop_name_offset = load32 s (p + 8)\<rparr>"

record fdt_reserve_entry =
  entry_address :: u64
  entry_size :: u64

definition fdt_reserve_entry_at :: "'z machine_scheme \<Rightarrow> addr \<Rightarrow> fdt_reserve_entry" where
  "fdt_reserve_entry_at s p = \<lparr>entry_address = load64 s p, entry_size = load64 s (p + 8)\<rparr>"

datatype fdt_error = FDT_VALID | FDT_BAD_MAGIC | FDT_INCOMPATIBLE

section \<open>Tokens\<close>

definition fdt_struct_ptr_invalid :: "'z machine_scheme \<Rightarrow> addr \<Rightarrow> addr \<Rightarrow> bool" where
  "fdt_struct_ptr_invalid s fdt ptr =
     (let start = fdt + ucast (be32toh s (off_dt_struct (fdt_at s fdt)));
          stop = start + ucast (be32toh s (size_dt_struct (fdt_at s fdt)))
      in ptr < start \<or> stop \<le> ptr)"

definition fdt_memrsv_ptr_invalid :: "'z machine_scheme \<Rightarrow> addr \<Rightarrow> addr \<Rightarrow> bool" where
  "fdt_memrsv_ptr_invalid s fdt ptr =
     (let start = fdt + ucast (be32toh s (off_mem_rsvmap (fdt_at s fdt)));
          stop = fdt + ucast (be32toh s (off_dt_struct (fdt_at s fdt)))
      in ptr < start \<or> stop \<le> ptr)"

definition fdt_token_begin :: "'z machine_scheme \<Rightarrow> addr \<Rightarrow> addr" where
  "fdt_token_begin s fdt = fdt + ucast (be32toh s (off_dt_struct (fdt_at s fdt)))"

definition fdt_prop_val_len :: "'z machine_scheme \<Rightarrow> addr \<Rightarrow> size_t" where
  "fdt_prop_val_len s prop = ucast (be32toh s (prop_len (fdt_prop_at s prop)))"

definition fdt_prop_val :: "addr \<Rightarrow> addr" where
  "fdt_prop_val prop = prop + 12"

definition fdt_prop_name_offset :: "'z machine_scheme \<Rightarrow> addr \<Rightarrow> size_t" where
  "fdt_prop_name_offset s prop = ucast (be32toh s (prop_name_offset (fdt_prop_at s prop)))"

text \<open>The number of 4-byte cells that \<^term>\<open>str_len\<close> bytes take, rounded up.\<close>

definition cell_len :: "size_t \<Rightarrow> size_t" where
  "cell_len str_len = drop_bit 2 str_len + of_bool (str_len AND 3 \<noteq> 0)"

definition fdt_next_token :: "'z machine_scheme \<Rightarrow> addr \<Rightarrow> addr \<Rightarrow> addr option" where
  "fdt_next_token s fdt token =
     (let val = be32toh s (load32 s token) in
      do {
        token' \<leftarrow>
          (if val = FDT_NOP \<or> val = FDT_END_NODE then Some (token + 4)
           else if val = FDT_BEGIN_NODE then
             do { len \<leftarrow> strlen s (Mem (token + 4)); Some (token + 4 + 4 * cell_len (len + 1)) }
           else if val = FDT_PROP then
             Some (token + 4 + 4 * (2 + cell_len (fdt_prop_val_len s token)))
           else Some NULL);
        Some (if fdt_struct_ptr_invalid s fdt token' then NULL else token')
      })"

partial_function (option) after_node_loop ::
  "'z machine_scheme \<Rightarrow> addr \<Rightarrow> addr \<Rightarrow> int \<Rightarrow> addr option" where
  "after_node_loop s fdt token_ptr depth =
     (let token = be32toh s (load32 s token_ptr);
          depth' = (if token = FDT_BEGIN_NODE then depth + 1
                    else if token = FDT_END_NODE then depth - 1 else depth)
      in do {
        token_ptr' \<leftarrow> fdt_next_token s fdt token_ptr;
        (if token_ptr' = NULL then Some NULL
         else if depth' > 0 then after_node_loop s fdt token_ptr' depth'
         else Some token_ptr')
      })"

definition fdt_next_token_after_node :: "'z machine_scheme \<Rightarrow> addr \<Rightarrow> addr \<Rightarrow> addr option" where
  "fdt_next_token_after_node s fdt node =
     (if node = NULL then Some NULL else after_node_loop s fdt node 0)"

definition fdt_verify :: "'z machine_scheme \<Rightarrow> addr \<Rightarrow> fdt_error" where
  "fdt_verify s fdt =
     (if be32toh s (magic (fdt_at s fdt)) \<noteq> FDT_HEADER_MAGIC then FDT_BAD_MAGIC
      else if be32toh s (last_comp_version (fdt_at s fdt)) > FDT_COMPAT_VERSION then FDT_INCOMPATIBLE
      else FDT_VALID)"

definition fdt_size :: "'z machine_scheme \<Rightarrow> addr \<Rightarrow> size_t" where
  "fdt_size s fdt = ucast (be32toh s (totalsize (fdt_at s fdt)))"

section \<open>Nodes\<close>

partial_function (option) node_begin_loop :: "'z machine_scheme \<Rightarrow> addr \<Rightarrow> addr \<Rightarrow> addr option" where
  "node_begin_loop s fdt token_ptr =
     (if token_ptr = NULL then Some NULL
      else if be32toh s (load32 s token_ptr) = FDT_BEGIN_NODE then Some token_ptr
      else do { token_ptr' \<leftarrow> fdt_next_token s fdt token_ptr; node_begin_loop s fdt token_ptr' })"

definition fdt_node_begin :: "'z machine_scheme \<Rightarrow> addr \<Rightarrow> addr option" where
  "fdt_node_begin s fdt = node_begin_loop s fdt (fdt_token_begin s fdt)"

text \<open>
  The third argument of \<^verbatim>\<open>fdt_next_node\<close> points to a depth to update, or is null (\<^const>\<open>None\<close>); the updated
  depth is returned beside the node.
\<close>

partial_function (option) next_node_loop ::
  "'z machine_scheme \<Rightarrow> addr \<Rightarrow> addr \<Rightarrow> int \<Rightarrow> int option \<Rightarrow> (addr \<times> int option) option" where
  "next_node_loop s fdt token_ptr depth_increase depth =
     (if token_ptr = NULL then Some (NULL, depth)
      else
        let token = be32toh s (load32 s token_ptr);
            depth_increase' = (if token = FDT_END_NODE then depth_increase - 1 else depth_increase)
        in if token = FDT_BEGIN_NODE then Some (token_ptr, map_option (\<lambda>d. d + depth_increase') depth)
           else do {
             token_ptr' \<leftarrow> fdt_next_token s fdt token_ptr;
             next_node_loop s fdt token_ptr' depth_increase' depth
           })"

definition fdt_next_node ::
  "'z machine_scheme \<Rightarrow> addr \<Rightarrow> addr \<Rightarrow> int option \<Rightarrow> (addr \<times> int option) option" where
  "fdt_next_node s fdt node depth =
     do { token_ptr \<leftarrow> fdt_next_token s fdt node; next_node_loop s fdt token_ptr 1 depth }"

partial_function (option) max_depth_loop ::
  "'z machine_scheme \<Rightarrow> addr \<Rightarrow> addr \<Rightarrow> int \<Rightarrow> int \<Rightarrow> int option" where
  "max_depth_loop s fdt node depth max_depth =
     (if node = NULL then Some max_depth
      else do {
        (node', depth') \<leftarrow> fdt_next_node s fdt node (Some depth);
        max_depth_loop s fdt node' (the depth') (if depth > max_depth then depth else max_depth)
      })"

definition fdt_max_depth :: "'z machine_scheme \<Rightarrow> addr \<Rightarrow> int option" where
  "fdt_max_depth s fdt = do { node \<leftarrow> fdt_node_begin s fdt; max_depth_loop s fdt node 0 0 }"

text \<open>The loops of \<^verbatim>\<open>fdt_node_prop_begin\<close> and \<^verbatim>\<open>fdt_node_next_prop\<close> are the same text; so are those of
  \<^verbatim>\<open>fdt_node_subnode_begin\<close> and \<^verbatim>\<open>fdt_node_next_subnode\<close>.\<close>

partial_function (option) prop_loop :: "'z machine_scheme \<Rightarrow> addr \<Rightarrow> addr \<Rightarrow> addr option" where
  "prop_loop s fdt token_ptr =
     (if token_ptr = NULL then Some NULL
      else
        let token = be32toh s (load32 s token_ptr)
        in if token = FDT_PROP then Some token_ptr
           else if token = FDT_NOP then
             do { token_ptr' \<leftarrow> fdt_next_token s fdt token_ptr; prop_loop s fdt token_ptr' }
           else Some NULL)"

definition fdt_node_prop_begin :: "'z machine_scheme \<Rightarrow> addr \<Rightarrow> addr \<Rightarrow> addr option" where
  "fdt_node_prop_begin s fdt node =
     do { token_ptr \<leftarrow> fdt_next_token s fdt node; prop_loop s fdt token_ptr }"

definition fdt_node_next_prop :: "'z machine_scheme \<Rightarrow> addr \<Rightarrow> addr \<Rightarrow> addr option" where
  "fdt_node_next_prop s fdt prop =
     do { token_ptr \<leftarrow> fdt_next_token s fdt prop; prop_loop s fdt token_ptr }"

partial_function (option) subnode_loop :: "'z machine_scheme \<Rightarrow> addr \<Rightarrow> addr \<Rightarrow> addr option" where
  "subnode_loop s fdt token_ptr =
     (if token_ptr = NULL then Some NULL
      else
        let token = be32toh s (load32 s token_ptr)
        in if token = FDT_BEGIN_NODE then Some token_ptr
           else if token = FDT_NOP \<or> token = FDT_PROP then
             do { token_ptr' \<leftarrow> fdt_next_token s fdt token_ptr; subnode_loop s fdt token_ptr' }
           else Some NULL)"

definition fdt_node_subnode_begin :: "'z machine_scheme \<Rightarrow> addr \<Rightarrow> addr \<Rightarrow> addr option" where
  "fdt_node_subnode_begin s fdt node =
     do { token_ptr \<leftarrow> fdt_next_token s fdt node; subnode_loop s fdt token_ptr }"

definition fdt_node_next_subnode :: "'z machine_scheme \<Rightarrow> addr \<Rightarrow> addr \<Rightarrow> addr option" where
  "fdt_node_next_subnode s fdt subnode =
     do { token_ptr \<leftarrow> fdt_next_token_after_node s fdt subnode; subnode_loop s fdt token_ptr }"

section \<open>The memory reservation block\<close>

definition fdt_reserve_entry_begin :: "'z machine_scheme \<Rightarrow> addr \<Rightarrow> addr" where
  "fdt_reserve_entry_begin s fdt =
     (let entry = fdt + ucast (be32toh s (off_mem_rsvmap (fdt_at s fdt)))
      in if entry_address (fdt_reserve_entry_at s entry) = 0 \<and> entry_size (fdt_reserve_entry_at s entry) = 0
         then NULL else entry)"

definition fdt_next_reserve_entry :: "'z machine_scheme \<Rightarrow> addr \<Rightarrow> addr \<Rightarrow> addr" where
  "fdt_next_reserve_entry s fdt entry =
     (let entry' = entry + 16; final_byte_of_entry = entry' + 15
      in if fdt_memrsv_ptr_invalid s fdt final_byte_of_entry then NULL
         else if entry_address (fdt_reserve_entry_at s entry') = 0 \<and> entry_size (fdt_reserve_entry_at s entry') = 0
         then NULL else entry')"

definition fdt_reserve_entry_address :: "'z machine_scheme \<Rightarrow> addr \<Rightarrow> addr" where
  "fdt_reserve_entry_address s entry = be64toh s (entry_address (fdt_reserve_entry_at s entry))"

definition fdt_reserve_entry_size :: "'z machine_scheme \<Rightarrow> addr \<Rightarrow> size_t" where
  "fdt_reserve_entry_size s entry = be64toh s (entry_size (fdt_reserve_entry_at s entry))"

section \<open>Ancestors\<close>

text \<open>
  \<^verbatim>\<open>curr_branch\<close> is an uninitialised local array of \<^verbatim>\<open>max_depth + 1\<close> pointers: a partial map from its indices.
  The loop ends with the depth and the array, or, as \<^term>\<open>Inl\<close>, with the index of a store outside the array, from where on
  nothing is defined.  Nor is reading an element outside the array or not yet written.
\<close>

partial_function (option) parents_loop ::
  "'z machine_scheme \<Rightarrow> addr \<Rightarrow> addr \<Rightarrow> int \<Rightarrow> addr \<Rightarrow> int \<Rightarrow> (int \<rightharpoonup> addr) \<Rightarrow>
    (int + int \<times> (int \<rightharpoonup> addr)) option" where
  "parents_loop s fdt node max_depth cur depth curr_branch =
     (if cur = NULL then Some (Inr (depth, curr_branch))
      else if cur = node then Some (Inr (depth, curr_branch))
      else if depth < 0 \<or> max_depth < depth then Some (Inl depth)
      else do {
        (cur', depth') \<leftarrow> fdt_next_node s fdt cur (Some depth);
        parents_loop s fdt node max_depth cur' (the depth') (curr_branch(depth \<mapsto> cur))
      })"

text \<open>The copy loop: \<^verbatim>\<open>parents[i] = curr_branch[depth - (int)(i + 1)]\<close> for \<^term>\<open>i\<close> below \<^term>\<open>n\<close>.\<close>

fun copy_parents :: "(int \<rightharpoonup> addr) \<Rightarrow> int \<Rightarrow> nat \<Rightarrow> addr list option" where
  "copy_parents curr_branch depth 0 = Some []"
| "copy_parents curr_branch depth (Suc n) =
     do {
       parents \<leftarrow> copy_parents curr_branch depth n;
       p \<leftarrow> curr_branch (depth - int (n + 1));
       Some (parents @ [p])
     }"

text \<open>The result is the number of ancestors copied, and the contents of \<^verbatim>\<open>parents[0..]\<close> that were written.\<close>

definition fdt_node_get_parents ::
  "'z machine_scheme \<Rightarrow> addr \<Rightarrow> addr \<Rightarrow> size_t \<Rightarrow> (size_t \<times> addr list) option" where
  "fdt_node_get_parents s fdt node parents_len =
     do {
       max_depth \<leftarrow> fdt_max_depth s fdt;
       (if max_depth < 0 then Some (0, [])
        else do {
          cur \<leftarrow> fdt_node_begin s fdt;
          r \<leftarrow> parents_loop s fdt node max_depth cur 0 Map.empty;
          (case r of
             Inl _ \<Rightarrow> None
           | Inr (depth, curr_branch) \<Rightarrow>
               let num_to_return = (if parents_len < word_of_int depth then parents_len else word_of_int depth)
               in do {
                 parents \<leftarrow> copy_parents curr_branch depth (unat num_to_return);
                 Some (num_to_return, parents)
               })
        })
     }"

section \<open>Names and properties\<close>

definition fdt_string_from_offset :: "'z machine_scheme \<Rightarrow> addr \<Rightarrow> size_t \<Rightarrow> addr" where
  "fdt_string_from_offset s fdt offset =
     (let strings_start = fdt + ucast (be32toh s (off_dt_strings (fdt_at s fdt)));
          strings_end = strings_start + ucast (be32toh s (size_dt_strings (fdt_at s fdt)));
          str = strings_start + offset
      in if str < strings_start \<or> strings_end \<le> str then NULL else str)"

text \<open>\<^verbatim>\<open>FDT_DEBUG_DEBUG_NAMELESS_NODES\<close> is defined: a nameless node answers to a debug name.\<close>

definition bytes_of :: "string \<Rightarrow> byte list" where
  "bytes_of cs = map (\<lambda>c. of_char c) cs"

definition fdt_node_name :: "'z machine_scheme \<Rightarrow> addr \<Rightarrow> cptr" where
  "fdt_node_name s node =
     (if mem s (node + 4) \<noteq> 0 then Mem (node + 4) else Lit (bytes_of ''{DEBUG: Nameless Node}''))"

definition fdt_prop_name :: "'z machine_scheme \<Rightarrow> addr \<Rightarrow> addr \<Rightarrow> addr" where
  "fdt_prop_name s fdt prop = fdt_string_from_offset s fdt (fdt_prop_name_offset s prop)"

partial_function (option) prop_by_name_loop ::
  "'z machine_scheme \<Rightarrow> addr \<Rightarrow> cptr \<Rightarrow> addr \<Rightarrow> addr option" where
  "prop_by_name_loop s fdt name prop =
     (if prop = NULL then Some NULL
      else do {
        found \<leftarrow> (if fdt_prop_name s fdt prop = NULL then Some False
                  else do { d \<leftarrow> strcmp s name (Mem (fdt_prop_name s fdt prop)); Some (d = 0) });
        (if found then Some prop
         else do { prop' \<leftarrow> fdt_node_next_prop s fdt prop; prop_by_name_loop s fdt name prop' })
      })"

definition fdt_get_prop_by_name ::
  "'z machine_scheme \<Rightarrow> addr \<Rightarrow> addr \<Rightarrow> addr \<Rightarrow> cptr \<Rightarrow> addr option" where
  "fdt_get_prop_by_name s fdt node start name =
     do {
       prop \<leftarrow> (if start \<noteq> NULL then fdt_node_next_prop s fdt start else fdt_node_prop_begin s fdt node);
       prop_by_name_loop s fdt name prop
     }"

definition fdt_prop_num_cells :: "'z machine_scheme \<Rightarrow> addr \<Rightarrow> size_t" where
  "fdt_prop_num_cells s prop = fdt_prop_val_len s prop div 4"

definition fdt_prop_get_cell :: "'z machine_scheme \<Rightarrow> addr \<Rightarrow> size_t \<Rightarrow> u32" where
  "fdt_prop_get_cell s prop index =
     (if index \<ge> fdt_prop_num_cells s prop then 0
      else be32toh s (load32 s (fdt_prop_val prop + 4 * index)))"

section \<open>Searching the tree\<close>

partial_function (option) compatible_loop ::
  "'z machine_scheme \<Rightarrow> cptr \<Rightarrow> size_t \<Rightarrow> addr \<Rightarrow> bool option" where
  "compatible_loop s compat' strings_len strings =
     (if strings_len > 0 then
        do {
          len \<leftarrow> strlen s (Mem strings);
          d \<leftarrow> strcmp s (Mem strings) compat';
          (if d = 0 then Some True
           else compatible_loop s compat' (strings_len - (len + 1)) (strings + (len + 1)))
        }
      else Some False)"

definition fdt_node_is_compatible :: "'z machine_scheme \<Rightarrow> addr \<Rightarrow> addr \<Rightarrow> cptr \<Rightarrow> bool option" where
  "fdt_node_is_compatible s fdt node compat' =
     do {
       prop \<leftarrow> fdt_get_prop_by_name s fdt node NULL (Lit (bytes_of ''compatible''));
       (if prop = NULL then Some False
        else compatible_loop s compat' (fdt_prop_val_len s prop) (fdt_prop_val prop))
     }"

text \<open>Where the search functions start: after the node \<^term>\<open>start\<close>, or at the first node.\<close>

definition search_start :: "'z machine_scheme \<Rightarrow> addr \<Rightarrow> addr \<Rightarrow> addr option" where
  "search_start s fdt start =
     (if start \<noteq> NULL then map_option fst (fdt_next_node s fdt start None) else fdt_node_begin s fdt)"

partial_function (option) find_compatible_loop ::
  "'z machine_scheme \<Rightarrow> addr \<Rightarrow> cptr \<Rightarrow> addr \<Rightarrow> addr option" where
  "find_compatible_loop s fdt compat' node =
     (if node = NULL then Some NULL
      else do {
        found \<leftarrow> fdt_node_is_compatible s fdt node compat';
        (if found then Some node
         else do { (node', _) \<leftarrow> fdt_next_node s fdt node None; find_compatible_loop s fdt compat' node' })
      })"

definition fdt_find_compatible_node :: "'z machine_scheme \<Rightarrow> addr \<Rightarrow> addr \<Rightarrow> cptr \<Rightarrow> addr option" where
  "fdt_find_compatible_node s fdt start compat' =
     do { node \<leftarrow> search_start s fdt start; find_compatible_loop s fdt compat' node }"

partial_function (option) find_device_type_loop ::
  "'z machine_scheme \<Rightarrow> addr \<Rightarrow> cptr \<Rightarrow> size_t \<Rightarrow> addr \<Rightarrow> addr option" where
  "find_device_type_loop s fdt type len node =
     (if node = NULL then Some NULL
      else do {
        prop \<leftarrow> fdt_get_prop_by_name s fdt node NULL (Lit (bytes_of ''device_type''));
        found \<leftarrow> (if prop \<noteq> NULL \<and>
                     (fdt_prop_val_len s prop = len + 1 \<or> fdt_prop_val_len s prop = len)
                  then do { d \<leftarrow> memcmp s type (Mem (fdt_prop_val prop)) (fdt_prop_val_len s prop); Some (d = 0) }
                  else Some False);
        (if found then Some node
         else do { (node', _) \<leftarrow> fdt_next_node s fdt node None; find_device_type_loop s fdt type len node' })
      })"

definition fdt_find_node_by_device_type :: "'z machine_scheme \<Rightarrow> addr \<Rightarrow> addr \<Rightarrow> cptr \<Rightarrow> addr option" where
  "fdt_find_node_by_device_type s fdt start type =
     do {
       node \<leftarrow> search_start s fdt start;
       len \<leftarrow> strlen s type;
       find_device_type_loop s fdt type len node
     }"

partial_function (option) find_unit_name_loop ::
  "'z machine_scheme \<Rightarrow> addr \<Rightarrow> cptr \<Rightarrow> addr \<Rightarrow> addr option" where
  "find_unit_name_loop s fdt name node =
     (if node = NULL then Some NULL
      else do {
        d \<leftarrow> strcmp s name (fdt_node_name s node);
        (if d = 0 then Some node
         else do { (node', _) \<leftarrow> fdt_next_node s fdt node None; find_unit_name_loop s fdt name node' })
      })"

definition fdt_find_node_by_unit_name :: "'z machine_scheme \<Rightarrow> addr \<Rightarrow> addr \<Rightarrow> cptr \<Rightarrow> addr option" where
  "fdt_find_node_by_unit_name s fdt start name =
     do { node \<leftarrow> search_start s fdt start; find_unit_name_loop s fdt name node }"

text \<open>The \<^verbatim>\<open>continue\<close> of this loop goes round again with the same node.\<close>

partial_function (option) find_phandle_loop ::
  "'z machine_scheme \<Rightarrow> addr \<Rightarrow> u32 \<Rightarrow> addr \<Rightarrow> addr option" where
  "find_phandle_loop s fdt phandle node =
     (if node = NULL then Some NULL
      else do {
        phandle_prop \<leftarrow> fdt_get_prop_by_name s fdt node NULL (Lit (bytes_of ''phandle''));
        (if phandle_prop \<noteq> NULL \<and> fdt_prop_num_cells s phandle_prop \<noteq> 1
         then find_phandle_loop s fdt phandle node
         else if phandle_prop \<noteq> NULL \<and> fdt_prop_get_cell s phandle_prop 0 = phandle then Some node
         else do { (node', _) \<leftarrow> fdt_next_node s fdt node None; find_phandle_loop s fdt phandle node' })
      })"

definition fdt_find_node_by_phandle :: "'z machine_scheme \<Rightarrow> addr \<Rightarrow> addr \<Rightarrow> u32 \<Rightarrow> addr option" where
  "fdt_find_node_by_phandle s fdt start phandle =
     do { node \<leftarrow> search_start s fdt start; find_phandle_loop s fdt phandle node }"

section \<open>Inherited properties and register blocks\<close>

fun inherited_loop :: "'z machine_scheme \<Rightarrow> addr \<Rightarrow> cptr \<Rightarrow> addr list \<Rightarrow> addr option" where
  "inherited_loop s fdt prop_name [] = Some NULL"
| "inherited_loop s fdt prop_name (p # parents) =
     do {
       prop \<leftarrow> fdt_get_prop_by_name s fdt p NULL prop_name;
       (if prop \<noteq> NULL then Some prop else inherited_loop s fdt prop_name parents)
     }"

text \<open>In a tree of depth 0 the array \<^verbatim>\<open>parents\<close> has length 0, which C leaves undefined; the model has an empty list, which is
  what compilers make of it.\<close>

definition fdt_node_get_inherited_prop :: "'z machine_scheme \<Rightarrow> addr \<Rightarrow> addr \<Rightarrow> cptr \<Rightarrow> addr option" where
  "fdt_node_get_inherited_prop s fdt node prop_name =
     do {
       prop \<leftarrow> fdt_get_prop_by_name s fdt node NULL prop_name;
       (if prop \<noteq> NULL then Some prop
        else do {
          max_depth \<leftarrow> fdt_max_depth s fdt;
          (if max_depth < 0 then Some NULL
           else do {
             (num_parents, parents) \<leftarrow> fdt_node_get_parents s fdt node (word_of_int max_depth);
             inherited_loop s fdt prop_name parents
           })
        })
     }"

definition fdt_node_get_address_cells :: "'z machine_scheme \<Rightarrow> addr \<Rightarrow> addr \<Rightarrow> u32 option" where
  "fdt_node_get_address_cells s fdt node =
     do {
       prop \<leftarrow> fdt_node_get_inherited_prop s fdt node (Lit (bytes_of ''#address-cells''));
       Some (if prop = NULL then 2
             else if fdt_prop_num_cells s prop = 0 then 0
             else fdt_prop_get_cell s prop 0)
     }"

definition fdt_node_get_size_cells :: "'z machine_scheme \<Rightarrow> addr \<Rightarrow> addr \<Rightarrow> u32 option" where
  "fdt_node_get_size_cells s fdt node =
     do {
       prop \<leftarrow> fdt_node_get_inherited_prop s fdt node (Lit (bytes_of ''#size-cells''));
       Some (if prop = NULL then 1
             else if fdt_prop_num_cells s prop = 0 then 0
             else fdt_prop_get_cell s prop 0)
     }"

definition fdt_node_num_register_blocks :: "'z machine_scheme \<Rightarrow> addr \<Rightarrow> addr \<Rightarrow> size_t option" where
  "fdt_node_num_register_blocks s fdt node =
     do {
       reg \<leftarrow> fdt_get_prop_by_name s fdt node NULL (Lit (bytes_of ''reg''));
       (if reg = NULL then Some 0
        else do {
          address_cells \<leftarrow> fdt_node_get_address_cells s fdt node;
          size_cells \<leftarrow> fdt_node_get_size_cells s fdt node;
          let reg_block_cells = address_cells + size_cells;
          Some (if reg_block_cells = 0 then 0 else fdt_prop_num_cells s reg div ucast reg_block_cells)
        })
     }"

text \<open>One or two big-endian cells read as a 64-bit number; no other count is accepted.\<close>

definition read_cells :: "'z machine_scheme \<Rightarrow> u32 \<Rightarrow> addr \<Rightarrow> u64 option" where
  "read_cells s n ptr =
     (if n = 1 then Some (ucast (be32toh s (load32 s ptr)))
      else if n = 2 then Some (be64toh s (load64 s ptr))
      else None)"

text \<open>The result is the pair stored through \<^verbatim>\<open>address\<close> and \<^verbatim>\<open>size\<close>; \<^verbatim>\<open>err_exit\<close> stores two zeros.\<close>

definition fdt_node_get_register_block ::
  "'z machine_scheme \<Rightarrow> addr \<Rightarrow> addr \<Rightarrow> size_t \<Rightarrow> (addr \<times> size_t) option" where
  "fdt_node_get_register_block s fdt node index =
     do {
       reg \<leftarrow> fdt_get_prop_by_name s fdt node NULL (Lit (bytes_of ''reg''));
       (if reg = NULL then Some (NULL, 0)
        else do {
          address_cells \<leftarrow> fdt_node_get_address_cells s fdt node;
          size_cells \<leftarrow> fdt_node_get_size_cells s fdt node;
          let reg_block_cells = address_cells + size_cells;
          let raw_reg = fdt_prop_val reg;
          let raw_reg_len = fdt_prop_val_len s reg;
          let min_size_for_index = index * ucast reg_block_cells * 4;
          (if raw_reg_len < min_size_for_index then Some (NULL, 0)
           else
             let address_ptr = raw_reg + index * ucast reg_block_cells;
                 size_ptr = address_ptr + ucast address_cells * 4
             in case (read_cells s address_cells address_ptr, read_cells s size_cells size_ptr) of
                  (Some a, Some n) \<Rightarrow> Some (a, n)
                | _ \<Rightarrow> Some (NULL, 0))
        })
     }"

end
