(* ===== verification/Fdt_Stream.thy ===== *)
theory Fdt_Stream
  imports Fdt "HOL-Library.Sublist"
begin

text \<open>
  The structure block as a list of tokens: the encoding of a token list as bytes (version 17 of the format,
  as \<^verbatim>\<open>include/kernel/of/fdt.h\<close> describes it), what it means for memory to hold a blob whose structure block
  is a given token list, and the first layer of the refinement: on such memory \<^const>\<open>fdt_next_token\<close> moves a
  cursor from each token to the next.  The remaining functions are then functions on token lists.
\<close>

section \<open>Tokens and their encoding\<close>

datatype token = BeginNode "byte list" | EndNode | Prop u32 "byte list" | Nop | End

fun tag :: "token \<Rightarrow> u32" where
  "tag (BeginNode nm) = FDT_BEGIN_NODE"
| "tag EndNode = FDT_END_NODE"
| "tag (Prop off v) = FDT_PROP"
| "tag Nop = FDT_NOP"
| "tag End = FDT_END"

text \<open>Zero bytes up to the next multiple of four.\<close>

definition pad :: "nat \<Rightarrow> byte list" where
  "pad n = replicate (4 * ((n + 3) div 4) - n) 0"

fun tok_body :: "token \<Rightarrow> byte list" where
  "tok_body (BeginNode nm) = nm @ [0] @ pad (length nm + 1)"
| "tok_body (Prop off v) = be_bytes 4 (of_nat (length v) :: u32) @ be_bytes 4 off @ v @ pad (length v)"
| "tok_body t = []"

definition tok_bytes :: "token \<Rightarrow> byte list" where
  "tok_bytes t = be_bytes 4 (tag t) @ tok_body t"

definition toks_bytes :: "token list \<Rightarrow> byte list" where
  "toks_bytes ts = concat (map tok_bytes ts)"

fun wf_token :: "token \<Rightarrow> bool" where
  "wf_token (BeginNode nm) = (0 \<notin> set nm)"
| "wf_token (Prop off v) = (length v < 2 ^ 32)"
| "wf_token t = True"

lemma toks_bytes_simps [simp]:
  "toks_bytes [] = []"
  "toks_bytes (t # ts) = tok_bytes t @ toks_bytes ts"
  "toks_bytes (ts @ us) = toks_bytes ts @ toks_bytes us"
  by (simp_all add: toks_bytes_def)

lemma tok_bytes_not_Nil [simp]: "tok_bytes t \<noteq> []"
  by (metis append_is_Nil_conv length_be_bytes list.size(3) tok_bytes_def zero_neq_numeral)

lemma toks_bytes_eq_Nil [simp]: "toks_bytes ts = [] \<longleftrightarrow> ts = []"
  by (cases ts) auto

lemma length_pad: "n + length (pad n) = 4 * ((n + 3) div 4)"
  by (simp add: pad_def)

lemma length_tok_bytes:
  "length (tok_bytes (BeginNode nm)) = 4 + 4 * ((length nm + 4) div 4)"
  "length (tok_bytes (Prop off v)) = 12 + 4 * ((length v + 3) div 4)"
  "length (tok_bytes EndNode) = 4" "length (tok_bytes Nop) = 4" "length (tok_bytes End) = 4"
  using length_pad [of "length nm + 1"] length_pad [of "length v"]
  by (simp_all add: tok_bytes_def)

section \<open>Blobs in memory\<close>

definition fdt_struct :: "'z machine_scheme \<Rightarrow> addr \<Rightarrow> token list \<Rightarrow> bool" where
  "fdt_struct s fdt ts \<longleftrightarrow>
     config_ok s \<and> list_all wf_token ts \<and>
     holds s (fdt_token_begin s fdt) (toks_bytes ts) \<and>
     length (toks_bytes ts) < 2 ^ 32 \<and>
     be32toh s (size_dt_struct (fdt_at s fdt)) = of_nat (length (toks_bytes ts)) \<and>
     fdt_token_begin s fdt \<noteq> NULL \<and>
     unat (fdt_token_begin s fdt) + length (toks_bytes ts) < 2 ^ 64"

text \<open>The address of the token a suffix of the list starts with; the null pointer past the end.\<close>

definition tok_ptr :: "'z machine_scheme \<Rightarrow> addr \<Rightarrow> token list \<Rightarrow> token list \<Rightarrow> addr" where
  "tok_ptr s fdt ts us =
     (if us = [] then NULL
      else fdt_token_begin s fdt + of_nat (length (toks_bytes ts) - length (toks_bytes us)))"

lemma ucast_of_nat32: "n < 2 ^ 32 \<Longrightarrow> ucast (of_nat n :: u32) = (of_nat n :: u64)"
  by (simp add: unsigned_of_nat take_bit_nat_eq_self)

lemma cell_len_of_nat:
  assumes "n < 2 ^ 63"
  shows "4 * cell_len (of_nat n) = of_nat (4 * ((n + 3) div 4))"
proof -
  have m: "(of_nat n :: size_t) AND 3 = of_nat (n mod 4)"
    using take_bit_eq_mask [of 2 "of_nat n :: size_t"] assms
    by (simp add: mask_eq_exp_minus_1 take_bit_eq_mod word_unat_eq_iff unat_mod_distrib unat_of_nat)
  have d: "drop_bit 2 (of_nat n :: size_t) = of_nat (n div 4)"
    using assms by (simp add: drop_bit_eq_div word_unat_eq_iff unat_div_distrib unat_of_nat)
  have "(of_nat (n mod 4) :: size_t) = 0 \<longleftrightarrow> n mod 4 = 0"
    using word_unat_eq_iff [of "of_nat (n mod 4) :: size_t" 0] by (simp add: unat_of_nat)
  then have "cell_len (of_nat n) = of_nat (n div 4 + of_bool (n mod 4 \<noteq> 0))"
    unfolding cell_len_def m d by simp
  also have "n div 4 + of_bool (n mod 4 \<noteq> 0) = (n + 3) div 4" by auto arith+
  finally show ?thesis by simp
qed

lemma tok_ptr_suffix:
  "ts = pre @ t # us \<Longrightarrow> tok_ptr s fdt ts (t # us) = fdt_token_begin s fdt + of_nat (length (toks_bytes pre))"
  by (simp add: tok_ptr_def)

lemma tok_ptr_Nil [simp]: "tok_ptr s fdt ts [] = NULL"
  by (simp add: tok_ptr_def)

lemma fdt_structD:
  assumes "fdt_struct s fdt (pre @ t # us)"
  shows "config_ok s" "wf_token t"
    "holds s (fdt_token_begin s fdt + of_nat (length (toks_bytes pre))) (tok_bytes t)"
    "length (tok_bytes t) < 2 ^ 32"
  using assms by (auto simp: fdt_struct_def)

lemma offset_not_null:
  assumes "a \<noteq> NULL" and "unat a + n < 2 ^ 64"
  shows "a + of_nat n \<noteq> NULL"
  using unat_add_nowrap [OF assms(2)] assms(1) unat_0_iff [of a] unat_0_iff [of "a + of_nat n"] by simp

lemma tok_ptr_not_null:
  assumes "fdt_struct s fdt ts" and "suffix us ts" and "us \<noteq> []"
  shows "tok_ptr s fdt ts us \<noteq> NULL"
  using assms offset_not_null [of "fdt_token_begin s fdt" "length (toks_bytes ts) - length (toks_bytes us)"]
  by (auto simp: fdt_struct_def tok_ptr_def suffix_def)

lemma peek_token:
  assumes "fdt_struct s fdt ts" and "suffix (t # us) ts"
  shows "be32toh s (load32 s (tok_ptr s fdt ts (t # us))) = tag t"
proof -
  obtain pre where ts: "ts = pre @ t # us" using assms(2) by (auto simp: suffix_def)
  show ?thesis using fdt_structD [OF assms(1) [unfolded ts]]
    unfolding tok_ptr_suffix [OF ts] by (auto simp: tok_bytes_def intro: be32_holds)
qed

text \<open>The arithmetic of \<^const>\<open>fdt_next_token\<close>: from a token to the byte after its encoding.\<close>

lemma token_step:
  assumes "config_ok s" and "holds s p (tok_bytes t)" and "wf_token t" and "length (tok_bytes t) < 2 ^ 32"
    and "p \<noteq> NULL" and "unat p + length (tok_bytes t) < 2 ^ 64"
  shows "fdt_next_token s fdt p =
    (if t = End then Some NULL
     else let q = p + of_nat (length (tok_bytes t))
          in Some (if fdt_struct_ptr_invalid s fdt q then NULL else q))"
proof -
  have tag: "be32toh s (load32 s p) = tag t"
    using assms(1,2) by (auto simp: tok_bytes_def intro: be32_holds)
  show ?thesis
  proof (cases t)
    case (BeginNode nm)
    have len: "length nm + 1 < 2 ^ 63" using assms(4) BeginNode by (simp add: length_tok_bytes)
    have "p + of_nat 4 \<noteq> NULL" using assms BeginNode by (intro offset_not_null) (auto simp: length_tok_bytes)
    then have "cstr s (Mem (p + 4)) nm"
      using assms BeginNode len by (simp add: cstr_def tok_bytes_def)
    from strlen_cstr [OF this] have "strlen s (Mem (p + 4)) = Some (of_nat (length nm))" .
    then show ?thesis
      using tag BeginNode cell_len_of_nat [OF len]
      by (simp add: fdt_next_token_def length_tok_bytes Let_def algebra_simps)
  next
    case (Prop off v)
    have "be32toh s (load32 s (p + 4)) = of_nat (length v)"
      using assms(1,2) Prop by (auto simp: tok_bytes_def intro: be32_holds)
    then have "fdt_prop_val_len s p = of_nat (length v)"
      using assms(3) Prop by (simp add: fdt_prop_val_len_def fdt_prop_at_def ucast_of_nat32)
    then show ?thesis
      using tag Prop assms(3) cell_len_of_nat [of "length v"]
      by (simp add: fdt_next_token_def length_tok_bytes Let_def algebra_simps)
  qed (use tag in \<open>simp_all add: fdt_next_token_def length_tok_bytes Let_def\<close>)
qed

text \<open>One call of \<^const>\<open>fdt_next_token\<close> moves the cursor by one token.\<close>

lemma next_token:
  assumes "fdt_struct s fdt ts" and "suffix (t # us) ts"
  shows "fdt_next_token s fdt (tok_ptr s fdt ts (t # us)) =
    Some (if t = End then NULL else tok_ptr s fdt ts us)"
proof -
  obtain pre where ts: "ts = pre @ t # us" using assms(2) by (auto simp: suffix_def)
  let ?b = "fdt_token_begin s fdt" and ?n = "length (toks_bytes pre)" and ?m = "length (tok_bytes t)"
  have nowrap: "unat ?b + length (toks_bytes ts) < 2 ^ 64" using assms(1) by (simp add: fdt_struct_def)
  have p: "unat (?b + of_nat ?n) = unat ?b + ?n" using nowrap by (intro unat_add_nowrap) (simp add: ts)
  have pn: "?b + of_nat ?n \<noteq> NULL"
    using assms tok_ptr_not_null [of s fdt ts "t # us"] tok_ptr_suffix [OF ts, of s fdt] by simp
  have q: "?b + of_nat ?n + of_nat ?m = ?b + of_nat (?n + ?m)" by simp
  have uq: "unat (?b + of_nat (?n + ?m)) = unat ?b + (?n + ?m)"
    using nowrap by (intro unat_add_nowrap) (simp add: ts)
  have stop: "unat (?b + ucast (be32toh s (size_dt_struct (fdt_at s fdt)))) = unat ?b + length (toks_bytes ts)"
    using assms(1) unat_add_nowrap [OF nowrap] by (simp add: fdt_struct_def ucast_of_nat32)
  have "fdt_struct_ptr_invalid s fdt (?b + of_nat (?n + ?m)) \<longleftrightarrow> us = []"
    using uq stop
    by (auto simp: fdt_struct_ptr_invalid_def Let_def word_less_nat_alt word_le_nat_alt ts neq_Nil_conv
        simp flip: fdt_token_begin_def)
  moreover have "unat (?b + of_nat ?n) + ?m < 2 ^ 64" unfolding p using nowrap by (simp add: ts)
  ultimately show ?thesis
    unfolding tok_ptr_suffix [OF ts]
    using token_step [of s "?b + of_nat ?n" t fdt] fdt_structD [OF assms(1) [unfolded ts]] pn
    by (auto simp: Let_def q ts tok_ptr_def simp del: of_nat_add)
qed

section \<open>The cursor interface\<close>

text \<open>
  What the walking functions rely on: a cursor shows the tag of the token it is at, and moves to the next one.
\<close>

locale token_cursor =
  fixes peek :: "'c \<Rightarrow> addr \<Rightarrow> u32"
    and advance :: "'c \<Rightarrow> addr \<Rightarrow> addr option"
    and cursor :: "'c \<Rightarrow> token list \<Rightarrow> addr"
    and valid :: "'c \<Rightarrow> token list \<Rightarrow> bool"
  assumes cursor_Nil: "cursor c [] = NULL"
    and cursor_not_null: "valid c (t # us) \<Longrightarrow> cursor c (t # us) \<noteq> NULL"
    and peek_cursor: "valid c (t # us) \<Longrightarrow> peek c (cursor c (t # us)) = tag t"
    and advance_cursor:
      "valid c (t # us) \<Longrightarrow> advance c (cursor c (t # us)) = Some (if t = End then NULL else cursor c us)"
    and valid_tl: "valid c (t # us) \<Longrightarrow> valid c us"

text \<open>
  Three loops of the source have the same shape: look at the tag, and either stop there, give up, or go on.
  Each is described by its classification of tags.
\<close>

datatype scan_action = Hit | Stop | Skip

fun scan :: "(u32 \<Rightarrow> scan_action) \<Rightarrow> token list \<Rightarrow> token list" where
  "scan f [] = []"
| "scan f (t # us) =
     (case f (tag t) of Hit \<Rightarrow> t # us | Stop \<Rightarrow> [] | Skip \<Rightarrow> if t = End then [] else scan f us)"

locale token_scan = token_cursor +
  fixes classify :: "u32 \<Rightarrow> scan_action"
    and loop :: "'a \<Rightarrow> addr \<Rightarrow> addr option"
  assumes loop_unfold: "loop c p =
    (if p = NULL then Some NULL
     else case classify (peek c p) of
            Hit \<Rightarrow> Some p
          | Stop \<Rightarrow> Some NULL
          | Skip \<Rightarrow> do { q \<leftarrow> advance c p; loop c q })"
begin

lemma loop_null [simp]: "loop c NULL = Some NULL"
  by (subst loop_unfold) simp

lemma loop_cursor: "valid c us \<Longrightarrow> loop c (cursor c us) = Some (cursor c (scan classify us))"
proof (induction us)
  case Nil
  then show ?case by (simp add: cursor_Nil)
next
  case (Cons t us)
  then show ?case using valid_tl [OF Cons.prems]
    by (subst loop_unfold)
      (auto simp: cursor_not_null peek_cursor advance_cursor cursor_Nil split: scan_action.splits)
qed

end

lemma suffix_scan: "suffix (scan f us) us"
  by (induction us) (auto simp: suffix_ConsI split: scan_action.splits)

lemma scan_hit: "scan f us = t # vs \<Longrightarrow> f (tag t) = Hit"
  by (induction us) (auto split: scan_action.splits if_splits)

text \<open>The structure block of a blob provides such a cursor.\<close>

type_synonym 'z stream = "'z machine_scheme \<times> addr \<times> token list"

fun stream_peek :: "'z stream \<Rightarrow> addr \<Rightarrow> u32" where
  "stream_peek (s, fdt, ts) p = be32toh s (load32 s p)"

fun stream_advance :: "'z stream \<Rightarrow> addr \<Rightarrow> addr option" where
  "stream_advance (s, fdt, ts) p = fdt_next_token s fdt p"

fun stream_cursor :: "'z stream \<Rightarrow> token list \<Rightarrow> addr" where
  "stream_cursor (s, fdt, ts) us = tok_ptr s fdt ts us"

fun stream_valid :: "'z stream \<Rightarrow> token list \<Rightarrow> bool" where
  "stream_valid (s, fdt, ts) us \<longleftrightarrow> fdt_struct s fdt ts \<and> suffix us ts"

lemma stream_cursor_laws:
  "token_cursor stream_peek stream_advance stream_cursor stream_valid"
  by (unfold_locales; clarsimp simp: tok_ptr_not_null peek_token next_token)
    (auto dest: suffix_ConsD)

interpretation stream: token_cursor stream_peek stream_advance stream_cursor stream_valid
  by (rule stream_cursor_laws)

definition node_begin_class :: "u32 \<Rightarrow> scan_action" where
  "node_begin_class k = (if k = FDT_BEGIN_NODE then Hit else Skip)"

definition prop_class :: "u32 \<Rightarrow> scan_action" where
  "prop_class k = (if k = FDT_PROP then Hit else if k = FDT_NOP then Skip else Stop)"

definition subnode_class :: "u32 \<Rightarrow> scan_action" where
  "subnode_class k =
     (if k = FDT_BEGIN_NODE then Hit else if k = FDT_NOP \<or> k = FDT_PROP then Skip else Stop)"

interpretation node_begin_scan: token_scan stream_peek stream_advance stream_cursor stream_valid
    node_begin_class "\<lambda>(s, fdt, ts). node_begin_loop s fdt"
  by unfold_locales
    (clarsimp simp: node_begin_class_def node_begin_loop.simps split: prod.splits)

interpretation prop_scan: token_scan stream_peek stream_advance stream_cursor stream_valid
    prop_class "\<lambda>(s, fdt, ts). prop_loop s fdt"
  by unfold_locales (clarsimp simp: prop_class_def prop_loop.simps Let_def split: prod.splits)

interpretation subnode_scan: token_scan stream_peek stream_advance stream_cursor stream_valid
    subnode_class "\<lambda>(s, fdt, ts). subnode_loop s fdt"
  by unfold_locales (clarsimp simp: subnode_class_def subnode_loop.simps Let_def split: prod.splits)

end
