(* ===== verification/Fdt_Blob.thy ===== *)
theory Fdt_Blob
  imports Fdt_Stream
begin

text \<open>
  Complete blobs: header, memory reservation block, structure block and strings block laid out one after the
  other, and the proof that a machine whose memory holds such a blob satisfies the assumptions of the reader's
  theorems.  A small device tree in the shape of QEMU's \<^verbatim>\<open>virt\<close> machine is the concrete instance used below.
\<close>

section \<open>The strings and reservation blocks\<close>

definition strings_begin :: "'z machine_scheme \<Rightarrow> addr \<Rightarrow> addr" where
  "strings_begin s fdt = fdt + ucast (be32toh s (off_dt_strings (fdt_at s fdt)))"

definition fdt_strings :: "'z machine_scheme \<Rightarrow> addr \<Rightarrow> byte list \<Rightarrow> bool" where
  "fdt_strings s fdt strs \<longleftrightarrow>
     holds s (strings_begin s fdt) strs \<and> strs \<noteq> [] \<and> last strs = 0 \<and> length strs < 2 ^ 32 \<and>
     be32toh s (size_dt_strings (fdt_at s fdt)) = of_nat (length strs) \<and>
     strings_begin s fdt \<noteq> NULL \<and> unat (strings_begin s fdt) + length strs < 2 ^ 64"

definition rsv_bytes :: "(u64 \<times> u64) list \<Rightarrow> byte list" where
  "rsv_bytes es = concat (map (\<lambda>(a, n). be_bytes 8 a @ be_bytes 8 n) es)"

definition rsv_begin :: "'z machine_scheme \<Rightarrow> addr \<Rightarrow> addr" where
  "rsv_begin s fdt = fdt + ucast (be32toh s (off_mem_rsvmap (fdt_at s fdt)))"

text \<open>The list ends with an entry of two zeros, and lies before the structure block.\<close>

definition fdt_reserved :: "'z machine_scheme \<Rightarrow> addr \<Rightarrow> (u64 \<times> u64) list \<Rightarrow> bool" where
  "fdt_reserved s fdt es \<longleftrightarrow>
     config_ok s \<and> (0, 0) \<notin> set es \<and> holds s (rsv_begin s fdt) (rsv_bytes (es @ [(0, 0)])) \<and>
     rsv_begin s fdt \<noteq> NULL \<and>
     unat (rsv_begin s fdt) + 16 * (length es + 1) \<le> unat (fdt_token_begin s fdt)"

section \<open>Building a blob\<close>

definition header_bytes :: "nat \<Rightarrow> nat \<Rightarrow> nat \<Rightarrow> byte list" where
  "header_bytes rsv struct strs =
     concat (map (be_bytes 4)
       [FDT_HEADER_MAGIC, of_nat (40 + rsv + struct + strs), of_nat (40 + rsv), of_nat (40 + rsv + struct), 40,
        17, 16, 0, of_nat strs, of_nat struct :: u32])"

definition fdt_bytes :: "(u64 \<times> u64) list \<Rightarrow> token list \<Rightarrow> byte list \<Rightarrow> byte list" where
  "fdt_bytes es ts strs =
     header_bytes (length (rsv_bytes (es @ [(0, 0)]))) (length (toks_bytes ts)) (length strs) @
     rsv_bytes (es @ [(0, 0)]) @ toks_bytes ts @ strs"

definition blob_machine :: "addr \<Rightarrow> byte list \<Rightarrow> machine" where
  "blob_machine base bs = write_bytes (le_machine (\<lambda>_. 0)) base bs"

lemma holds_blob_machine: "length bs \<le> 2 ^ 64 \<Longrightarrow> holds (blob_machine base bs) base bs"
  by (simp add: blob_machine_def holds_def read_write_same)

lemma config_ok_blob_machine: "config_ok (blob_machine base bs)"
  by (simp add: blob_machine_def config_ok_def)

lemma length_header_bytes [simp]: "length (header_bytes r t n) = 40"
  by (simp add: header_bytes_def)

lemma length_rsv_bytes [simp]: "length (rsv_bytes es) = 16 * length es"
  by (induction es) (auto simp: rsv_bytes_def)

lemma header_fields:
  assumes "config_ok s" and "holds s base (header_bytes r t n)"
  shows "be32toh s (magic (fdt_at s base)) = FDT_HEADER_MAGIC"
    "be32toh s (totalsize (fdt_at s base)) = of_nat (40 + r + t + n)"
    "be32toh s (off_dt_struct (fdt_at s base)) = of_nat (40 + r)"
    "be32toh s (off_dt_strings (fdt_at s base)) = of_nat (40 + r + t)"
    "be32toh s (off_mem_rsvmap (fdt_at s base)) = 40"
    "be32toh s (last_comp_version (fdt_at s base)) = 16"
    "be32toh s (size_dt_strings (fdt_at s base)) = of_nat n"
    "be32toh s (size_dt_struct (fdt_at s base)) = of_nat t"
  using assms unfolding header_bytes_def fdt_at_def
  by (simp_all add: be32_holds add.commute [of base] del: of_nat_add of_nat_Suc)

text \<open>The conditions on the parts of a blob under which it can be laid out at \<^term>\<open>base\<close>.\<close>

definition wf_blob :: "addr \<Rightarrow> (u64 \<times> u64) list \<Rightarrow> token list \<Rightarrow> byte list \<Rightarrow> bool" where
  "wf_blob base es ts strs \<longleftrightarrow>
     base \<noteq> NULL \<and> (0, 0) \<notin> set es \<and> list_all wf_token ts \<and> strs \<noteq> [] \<and> last strs = 0 \<and>
     length (fdt_bytes es ts strs) < 2 ^ 32 \<and> unat base + length (fdt_bytes es ts strs) < 2 ^ 64"

text \<open>Memory holds such a blob at \<^term>\<open>base\<close>, and the configured byte order is that of the machine.\<close>

definition has_blob :: "'z machine_scheme \<Rightarrow> addr \<Rightarrow> (u64 \<times> u64) list \<Rightarrow> token list \<Rightarrow> byte list \<Rightarrow> bool" where
  "has_blob s base es ts strs \<longleftrightarrow> wf_blob base es ts strs \<and> config_ok s \<and> holds s base (fdt_bytes es ts strs)"

lemma has_blob_frame:
  assumes "has_blob s base es ts strs" and "byte_order t = byte_order s" and "config t = config s"
    and "\<And>x. unat base \<le> unat x \<Longrightarrow> unat x < unat base + length (fdt_bytes es ts strs) \<Longrightarrow> mem t x = mem s x"
  shows "has_blob t base es ts strs"
proof -
  have "read_bytes t base (length (fdt_bytes es ts strs)) = read_bytes s base (length (fdt_bytes es ts strs))"
    using assms(1,4) unat_add_nowrap [of base] by (intro nth_equalityI) (auto simp: has_blob_def wf_blob_def)
  then show ?thesis using assms(1-3) by (simp add: has_blob_def holds_def config_ok_def)
qed

lemma blob_ok:
  assumes "has_blob s base es ts strs"
  shows "fdt_verify s base = FDT_VALID" and "fdt_struct s base ts" and "fdt_strings s base strs"
    and "fdt_reserved s base es" and "unat (fdt_size s base) = length (fdt_bytes es ts strs)"
    and "fdt_token_begin s base = base + of_nat (40 + length (rsv_bytes (es @ [(0, 0)])))"
proof -
  let ?r = "length (rsv_bytes (es @ [(0, 0)]))" and ?t = "length (toks_bytes ts)" and ?n = "length strs"
  have wf: "wf_blob base es ts strs" and cfg: "config_ok s" and "holds s base (fdt_bytes es ts strs)"
    using assms by (simp_all add: has_blob_def)
  have total: "40 + ?r + ?t + ?n < 2 ^ 32" "unat base + (40 + ?r + ?t + ?n) < 2 ^ 64" "base \<noteq> NULL"
    using wf by (simp_all add: wf_blob_def fdt_bytes_def)
  from \<open>holds s base (fdt_bytes es ts strs)\<close> have h: "holds s base (header_bytes ?r ?t ?n)"
    and hr: "holds s (base + of_nat 40) (rsv_bytes (es @ [(0, 0)]))"
    and ht: "holds s (base + of_nat (40 + ?r)) (toks_bytes ts)"
    and hs: "holds s (base + of_nat (40 + ?r + ?t)) strs"
    by (simp_all add: fdt_bytes_def add.assoc)
  note f = header_fields [OF cfg h]
  show tb: "fdt_token_begin s base = base + of_nat (40 + ?r)"
    using total by (simp_all add: fdt_token_begin_def f ucast_of_nat32 del: of_nat_add length_rsv_bytes)
  have sb: "strings_begin s base = base + of_nat (40 + ?r + ?t)"
    and rb: "rsv_begin s base = base + of_nat 40"
    using total by (simp_all add: strings_begin_def rsv_begin_def f ucast_of_nat32
        del: of_nat_add length_rsv_bytes)
  have u: "k \<le> 40 + ?r + ?t + ?n \<Longrightarrow> unat (base + of_nat k) = unat base + k \<and> base + of_nat k \<noteq> NULL" for k
    using total(2,3) unat_add_nowrap [of base k] offset_not_null [of base k] by simp
  show "fdt_verify s base = FDT_VALID"
    by (simp add: fdt_verify_def f FDT_COMPAT_VERSION_def)
  show "fdt_struct s base ts"
    using wf cfg ht u [of "40 + ?r"] total
    by (simp add: fdt_struct_def wf_blob_def tb f del: of_nat_add length_rsv_bytes)
  show "fdt_strings s base strs"
    using wf hs u [of "40 + ?r + ?t"] total
    by (simp add: fdt_strings_def wf_blob_def sb f del: of_nat_add length_rsv_bytes)
  show "fdt_reserved s base es"
    using wf cfg hr u [of 40] u [of "40 + ?r"]
    by (simp add: fdt_reserved_def wf_blob_def rb tb del: of_nat_add)
  have "fdt_size s base = of_nat (40 + ?r + ?t + ?n)"
    using total(1) by (simp only: fdt_size_def f(2) ucast_of_nat32)
  then show "unat (fdt_size s base) = length (fdt_bytes es ts strs)"
    using total(1) by (simp add: unat_of_nat fdt_bytes_def del: of_nat_add)
qed

lemma has_blob_tok_ptr:
  assumes "has_blob s base es ts strs" and "has_blob t base es ts strs"
  shows "tok_ptr t base = tok_ptr s base" and "fdt_size t base = fdt_size s base"
proof -
  have "fdt_token_begin t base = fdt_token_begin s base" using blob_ok(6) [OF assms(1)] blob_ok(6) [OF assms(2)] by simp
  then show "tok_ptr t base = tok_ptr s base" by (simp add: fun_eq_iff tok_ptr_def)
  show "fdt_size t base = fdt_size s base"
    using blob_ok(5) [OF assms(1)] blob_ok(5) [OF assms(2)] by (simp add: word_unat_eq_iff)
qed

lemma has_blob_machine:
  assumes "wf_blob base es ts strs"
  shows "has_blob (blob_machine base (fdt_bytes es ts strs)) base es ts strs"
  using assms holds_blob_machine [of "fdt_bytes es ts strs" base]
  by (simp add: has_blob_def wf_blob_def config_ok_blob_machine)

lemmas blob_machine_ok = blob_ok [OF has_blob_machine]

section \<open>A concrete device tree\<close>

definition cstring :: "string \<Rightarrow> byte list" where
  "cstring cs = bytes_of cs @ [0]"

definition cells :: "u32 list \<Rightarrow> byte list" where
  "cells ws = concat (map (be_bytes 4) ws)"

text \<open>The names of the strings block; each property refers to its name by the offset in the comment.\<close>

definition virt_strings :: "byte list" where
  "virt_strings = concat (map cstring
     [''compatible'' \<comment> \<open>0\<close>, ''#address-cells'' \<comment> \<open>11\<close>, ''#size-cells'' \<comment> \<open>26\<close>, ''device_type'' \<comment> \<open>38\<close>,
      ''reg'' \<comment> \<open>50\<close>, ''phandle'' \<comment> \<open>54\<close>, ''regmap'' \<comment> \<open>62\<close>, ''offset'' \<comment> \<open>69\<close>, ''value'' \<comment> \<open>76\<close>])"

definition virt_test :: "token list" where
  "virt_test =
     [BeginNode (bytes_of ''test@100000''),
        Prop 54 (cells [4]),
        Prop 50 (cells [0, 0x100000, 0, 0x1000]),
        Prop 0 (cstring ''sifive_test1'' @ cstring ''sifive_test0'' @ cstring ''syscon''),
      EndNode]"

definition virt_poweroff :: "token list" where
  "virt_poweroff =
     [BeginNode (bytes_of ''poweroff''),
        Prop 76 (cells [0x5555]), Prop 69 (cells [0]), Prop 62 (cells [4]),
        Prop 0 (cstring ''syscon-poweroff''),
      EndNode]"

definition virt_memory :: "token list" where
  "virt_memory =
     [BeginNode (bytes_of ''memory@80000000''),
        Prop 38 (cstring ''memory''), Prop 50 (cells [0, 0x80000000, 0, 0x8000000]),
      EndNode]"

definition virt_tokens :: "token list" where
  "virt_tokens =
     [BeginNode [], Prop 11 (cells [2]), Prop 26 (cells [2]), Prop 0 (cstring ''riscv-virtio'')] @
     virt_poweroff @ virt_memory @
     [BeginNode (bytes_of ''soc''), Nop] @ virt_test @ [EndNode, EndNode, End]"

definition virt_base :: addr where
  "virt_base = 0x87e00000"

definition virt_reserved :: "(u64 \<times> u64) list" where
  "virt_reserved = [(0x80000000, 0x80000)]"

definition virt :: machine where
  "virt = blob_machine virt_base (fdt_bytes virt_reserved virt_tokens virt_strings)"

lemma length_cells [simp]: "length (cells ws) = 4 * length ws"
  by (induction ws) (auto simp: cells_def)

lemma length_cstring [simp]: "length (cstring cs) = length cs + 1" "length (bytes_of cs) = length cs"
  by (simp_all add: cstring_def bytes_of_def)

lemmas virt_defs = virt_tokens_def virt_poweroff_def virt_memory_def virt_test_def

lemma virt_tokens_wf: "list_all wf_token virt_tokens"
  by (simp add: virt_defs bytes_of_def)

lemma virt_length: "length (fdt_bytes virt_reserved virt_tokens virt_strings) < 1024"
  by (simp add: fdt_bytes_def virt_defs virt_reserved_def virt_strings_def length_tok_bytes)

lemma virt_wf: "wf_blob virt_base virt_reserved virt_tokens virt_strings"
  using virt_length
  by (simp add: wf_blob_def virt_tokens_wf virt_base_def virt_reserved_def)
    (simp add: virt_strings_def cstring_def)

lemmas virt_ok = blob_machine_ok [OF virt_wf, folded virt_def]

section \<open>Properties\<close>

text \<open>On a blob whose structure block is the token list \<^term>\<open>ts\<close>, \<^verbatim>\<open>fdt_next_token\<close> at the address of any
  token reads its tag and returns the address of the next token; it returns the null pointer at the end token
  and at the end of the block.\<close>

theorem fdt_next_token_correct:
  assumes "fdt_struct s fdt ts" and "suffix (t # us) ts"
  shows "be32toh s (load32 s (tok_ptr s fdt ts (t # us))) = tag t \<and>
    fdt_next_token s fdt (tok_ptr s fdt ts (t # us)) = Some (if t = End then NULL else tok_ptr s fdt ts us)"
  using peek_token [OF assms] next_token [OF assms] by simp

theorem fdt_next_token_correct_witness:
  "fdt_next_token virt virt_base (tok_ptr virt virt_base virt_tokens virt_tokens) =
    Some (tok_ptr virt virt_base virt_tokens (tl virt_tokens))"
  using fdt_next_token_correct [OF virt_ok(2), of "hd virt_tokens" "tl virt_tokens"]
  by (simp add: virt_tokens_def)

text \<open>\<^verbatim>\<open>fdt_verify\<close> accepts exactly the blobs whose first word, read big-endian whatever the byte order of the
  machine, is the magic number and whose last compatible version is at most 17; it reports a wrong magic number
  before an incompatible version.\<close>

theorem fdt_verify_correct:
  assumes "config_ok s"
  shows "fdt_verify s fdt =
    (if be_join (read_bytes s fdt 4) \<noteq> (0xd00dfeed :: u32) then FDT_BAD_MAGIC
     else if be_join (read_bytes s (fdt + 24) 4) > (17 :: u32) then FDT_INCOMPATIBLE
     else FDT_VALID)"
  using assms by (simp add: fdt_verify_def fdt_at_def be_load FDT_HEADER_MAGIC_def FDT_COMPAT_VERSION_def)

theorem fdt_verify_correct_witness:
  "config_ok (le_machine (\<lambda>_. 0)) \<and> fdt_verify (le_machine (\<lambda>_. 0)) 8 = FDT_BAD_MAGIC"
  using fdt_verify_correct [of "le_machine (\<lambda>_. 0)" 8]
  by (simp add: config_ok_def read_bytes_def be_join_def upt_rec)

text \<open>C11. Round trip: on a machine of either byte order, memory that holds a blob built from reservations, tokens and
  strings passes verification, reports its own size, and presents exactly these reservations, tokens and strings to
  the reader.\<close>

theorem fdt_blob_roundtrip:
  assumes "wf_blob base es ts strs" and "config_ok s" and "holds s base (fdt_bytes es ts strs)"
  shows "fdt_verify s base = FDT_VALID \<and> unat (fdt_size s base) = length (fdt_bytes es ts strs) \<and>
    fdt_reserved s base es \<and> fdt_struct s base ts \<and> fdt_strings s base strs"
  using blob_ok [of s base es ts strs] assms by (simp add: has_blob_def)

theorem fdt_blob_roundtrip_witness:
  "wf_blob virt_base virt_reserved virt_tokens virt_strings \<and> fdt_verify virt virt_base = FDT_VALID \<and>
    fdt_struct virt virt_base virt_tokens"
  using fdt_blob_roundtrip [OF virt_wf, of virt] has_blob_machine [OF virt_wf] virt_wf
  by (simp add: virt_def has_blob_def)

end
