(* ===== verification/Fdt_Nodes.thy ===== *)
theory Fdt_Nodes
  imports Fdt_Blob
begin

text \<open>
  Iterating over the nodes of a device tree.  On a structure block given as a token list, the nodes are the
  suffixes that start with a begin-node token, each with its depth; \<^const>\<open>fdt_node_begin\<close> and
  \<^const>\<open>fdt_next_node\<close> visit exactly this list, in order, and \<^const>\<open>fdt_max_depth\<close> is its greatest depth.
  The search functions are linear searches of it: an interface shared by the four loops, proved once.
\<close>

section \<open>The nodes of a token list\<close>

fun node_list :: "int \<Rightarrow> token list \<Rightarrow> (token list \<times> int) list" where
  "node_list d [] = []"
| "node_list d (BeginNode nm # us) = (BeginNode nm # us, d) # node_list (d + 1) us"
| "node_list d (EndNode # us) = node_list (d - 1) us"
| "node_list d (End # us) = []"
| "node_list d (t # us) = node_list d us"

lemma node_list_Cons:
  assumes "node_list d us = (vs, e) # ns"
  shows "suffix vs us" and "\<exists>nm ws. vs = BeginNode nm # ws \<and> ns = node_list (e + 1) ws"
  using assms by (induction d us rule: node_list.induct) (auto intro: suffix_ConsI)

lemma node_list_suffix: "(vs, e) \<in> set (node_list d us) \<Longrightarrow> suffix vs us"
  by (induction d us rule: node_list.induct) (auto intro: suffix_ConsI)

lemma node_list_BeginNode: "(vs, e) \<in> set (node_list d us) \<Longrightarrow> \<exists>nm ws. vs = BeginNode nm # ws"
  by (induction d us rule: node_list.induct) auto

lemma node_list_shift: "node_list (d + k) us = map (\<lambda>(vs, e). (vs, e + k)) (node_list d us)"
proof (induction d us rule: node_list.induct)
  case (2 d nm us)
  then show ?case by (simp add: add.commute add.left_commute)
next
  case (3 d us)
  then show ?case by (simp add: algebra_simps)
qed simp_all

text \<open>What \<^const>\<open>fdt_next_node\<close> returns when the nodes still to come are \<^term>\<open>ns\<close>, with depths relative to the
  current node: the first of them, and the depth moved by that much.\<close>

definition next_result ::
  "'z machine_scheme \<Rightarrow> addr \<Rightarrow> token list \<Rightarrow> int option \<Rightarrow> (token list \<times> int) list \<Rightarrow> addr \<times> int option" where
  "next_result s fdt ts depth ns =
     (case ns of
        [] \<Rightarrow> (NULL, depth)
      | (us, e) # _ \<Rightarrow> (tok_ptr s fdt ts us, map_option (\<lambda>d. d + e) depth))"

lemma next_node_loop_eq:
  assumes "fdt_struct s fdt ts" and "suffix us ts"
  shows "next_node_loop s fdt (tok_ptr s fdt ts us) inc depth =
    Some (next_result s fdt ts depth (node_list inc us))"
  using assms(2)
proof (induction us arbitrary: inc)
  case Nil
  then show ?case by (simp add: next_node_loop.simps next_result_def)
next
  case (Cons t us)
  have "suffix us ts" using Cons.prems by (rule suffix_ConsD)
  note IH = Cons.IH [OF this]
  have nn: "tok_ptr s fdt ts (t # us) \<noteq> NULL" using assms(1) Cons.prems by (simp add: tok_ptr_not_null)
  have null: "next_node_loop s fdt NULL inc depth = Some (NULL, depth)" for inc
    by (simp add: next_node_loop.simps)
  show ?case
    using nn peek_token [OF assms(1) Cons.prems] next_token [OF assms(1) Cons.prems]
    by (subst next_node_loop.simps, cases t) (simp_all add: IH null next_result_def)
qed

lemma fdt_next_node_eq:
  assumes "fdt_struct s fdt ts" and "suffix (BeginNode nm # us) ts"
  shows "fdt_next_node s fdt (tok_ptr s fdt ts (BeginNode nm # us)) depth =
    Some (next_result s fdt ts depth (node_list 1 us))"
  using next_token [OF assms] next_node_loop_eq [OF assms(1) suffix_ConsD [OF assms(2)]]
  by (simp add: fdt_next_node_def)

lemma tok_ptr_begin: "us \<noteq> [] \<Longrightarrow> tok_ptr s fdt us us = fdt_token_begin s fdt"
  by (simp add: tok_ptr_def)

text \<open>The first node.\<close>

definition first_ptr :: "'z machine_scheme \<Rightarrow> addr \<Rightarrow> token list \<Rightarrow> (token list \<times> int) list \<Rightarrow> addr" where
  "first_ptr s fdt ts ns = (case ns of [] \<Rightarrow> NULL | (us, e) # _ \<Rightarrow> tok_ptr s fdt ts us)"

lemma scan_node_begin: "scan node_begin_class us = (case node_list d us of [] \<Rightarrow> [] | (vs, e) # _ \<Rightarrow> vs)"
  by (induction d us rule: node_list.induct) (auto simp: node_begin_class_def)

lemma fdt_node_begin_eq:
  assumes "fdt_struct s fdt ts" and "ts \<noteq> []"
  shows "fdt_node_begin s fdt = Some (first_ptr s fdt ts (node_list d ts))"
  using node_begin_scan.loop_cursor [of "(s, fdt, ts)" ts] assms
  by (simp add: fdt_node_begin_def tok_ptr_begin scan_node_begin [of _ d] first_ptr_def split: list.splits prod.splits)

section \<open>Depth\<close>

text \<open>A step from the first node of a list of nodes with their depths to the next.\<close>

lemma next_node_depth:
  assumes "fdt_struct s fdt ts" and "suffix us ts" and "node_list d us = (vs, e) # ns"
  obtains nm ws where "vs = BeginNode nm # ws" "ns = node_list (e + 1) ws" "suffix (BeginNode nm # ws) ts"
    "tok_ptr s fdt ts vs \<noteq> NULL"
    "fdt_next_node s fdt (tok_ptr s fdt ts vs) (Some e) =
      Some (first_ptr s fdt ts ns, Some (case ns of [] \<Rightarrow> e | (_, f) # _ \<Rightarrow> f))"
proof -
  from node_list_Cons [OF assms(3)] obtain nm ws
    where vs: "vs = BeginNode nm # ws" "ns = node_list (e + 1) ws" "suffix vs us" by auto
  then have sfx: "suffix (BeginNode nm # ws) ts" using assms(2) suffix_order.trans by blast
  have ns: "ns = map (\<lambda>(vs, f). (vs, f + e)) (node_list 1 ws)"
    using node_list_shift [of 1 e ws] by (simp add: vs(2) add.commute)
  have "fdt_next_node s fdt (tok_ptr s fdt ts vs) (Some e) =
      Some (first_ptr s fdt ts ns, Some (case ns of [] \<Rightarrow> e | (_, f) # _ \<Rightarrow> f))"
    using fdt_next_node_eq [OF assms(1) sfx]
    by (simp add: vs(1) next_result_def first_ptr_def ns add.commute split: list.splits prod.splits)
  then show ?thesis using that vs sfx tok_ptr_not_null [OF assms(1) sfx] by simp
qed

lemma max_depth_loop_eq:
  assumes "fdt_struct s fdt ts" and "suffix us ts" and "node_list d us = ns"
  shows "max_depth_loop s fdt (first_ptr s fdt ts ns) (case ns of [] \<Rightarrow> d' | (_, e) # _ \<Rightarrow> e) m =
    Some (fold (\<lambda>(_, e) m. max e m) ns m)"
  using assms(2,3)
proof (induction ns arbitrary: d us d' m)
  case Nil
  then show ?case by (simp add: max_depth_loop.simps first_ptr_def)
next
  case (Cons n ns)
  obtain vs e where n: "n = (vs, e)" by force
  from next_node_depth [OF assms(1) Cons.prems(1) Cons.prems(2) [unfolded n]] obtain nm ws
    where vs: "vs = BeginNode nm # ws" "ns = node_list (e + 1) ws" "suffix (BeginNode nm # ws) ts"
      "tok_ptr s fdt ts vs \<noteq> NULL"
      "fdt_next_node s fdt (tok_ptr s fdt ts vs) (Some e) =
        Some (first_ptr s fdt ts ns, Some (case ns of [] \<Rightarrow> e | (_, f) # _ \<Rightarrow> f))" .
  have "max_depth_loop s fdt (tok_ptr s fdt ts vs) e m =
      max_depth_loop s fdt (first_ptr s fdt ts ns) (case ns of [] \<Rightarrow> e | (_, f) # _ \<Rightarrow> f) (max e m)"
    using vs(4,5) by (subst max_depth_loop.simps) (simp add: max_def)
  then show ?case
    using Cons.IH [OF suffix_ConsD [OF vs(3)], of "e + 1" e] vs(2) by (simp add: n first_ptr_def)
qed

lemma fold_max_eq: "fold (\<lambda>(_, e) m. max e m) ns m = Max (insert m (snd ` set ns))"
  for m :: "'a::linorder"
proof (induction ns arbitrary: m)
  case (Cons n ns)
  then show ?case by (cases n, cases "ns = []") (auto simp: max.assoc max.commute max.left_commute)
qed simp

text \<open>A well-formed structure block starts with its root node, at depth 0.\<close>

definition rooted :: "token list \<Rightarrow> bool" where
  "rooted ts \<longleftrightarrow> (\<exists>us ns. node_list 0 ts = (us, 0) # ns)"

lemma fdt_max_depth_eq:
  assumes "fdt_struct s fdt ts" and "rooted ts"
  shows "fdt_max_depth s fdt = Some (Max (snd ` set (node_list 0 ts)))"
proof -
  obtain us ns where ns: "node_list 0 ts = (us, 0) # ns" using assms(2) by (auto simp: rooted_def)
  then have "ts \<noteq> []" by auto
  with ns show ?thesis
    using max_depth_loop_eq [OF assms(1) suffix_order.refl ns, of 0 0] fdt_node_begin_eq [OF assms(1), of 0]
    by (simp add: fdt_max_depth_def fold_max_eq)
qed

section \<open>Searching\<close>

text \<open>A chain of pointers, each obtained from the one before; and a search through them.\<close>

fun hd_ptr :: "addr list \<Rightarrow> addr" where
  "hd_ptr [] = NULL"
| "hd_ptr (p # ps) = p"

fun chain :: "(addr \<Rightarrow> addr option) \<Rightarrow> addr list \<Rightarrow> bool" where
  "chain step [] = True"
| "chain step (p # ps) = (p \<noteq> NULL \<and> step p = Some (hd_ptr ps) \<and> chain step ps)"

fun search :: "(addr \<Rightarrow> bool option) \<Rightarrow> addr list \<Rightarrow> addr option" where
  "search test [] = Some NULL"
| "search test (p # ps) = do { b \<leftarrow> test p; if b then Some p else search test ps }"

locale linear_search =
  fixes step :: "'c \<Rightarrow> addr \<Rightarrow> addr option"
    and test :: "'c \<Rightarrow> addr \<Rightarrow> bool option"
    and loop :: "'c \<Rightarrow> addr \<Rightarrow> addr option"
  assumes loop_unfold: "loop c p =
    (if p = NULL then Some NULL
     else do { b \<leftarrow> test c p; if b then Some p else do { q \<leftarrow> step c p; loop c q } })"
begin

lemma loop_chain: "chain (step c) ps \<Longrightarrow> loop c (hd_ptr ps) = search (test c) ps"
proof (induction ps)
  case Nil
  then show ?case by (subst loop_unfold) simp
next
  case (Cons p ps)
  then show ?case by (subst loop_unfold) (cases "test c p"; auto)
qed

end

lemma search_Some: "list_all (\<lambda>p. test p = Some (P p)) ps \<Longrightarrow>
    search test ps = Some (case find P ps of None \<Rightarrow> NULL | Some p \<Rightarrow> p)"
  by (induction ps) auto

text \<open>The step and the tests of the four search functions.\<close>

definition node_step :: "'z machine_scheme \<Rightarrow> addr \<Rightarrow> addr \<Rightarrow> addr option" where
  "node_step s fdt p = map_option fst (fdt_next_node s fdt p None)"

lemma bind_node_step: "do { (q, _) \<leftarrow> fdt_next_node s fdt p None; f q } = do { q \<leftarrow> node_step s fdt p; f q }"
  by (cases "fdt_next_node s fdt p None") (auto simp: node_step_def)

definition device_type_test :: "'z machine_scheme \<Rightarrow> addr \<Rightarrow> cptr \<Rightarrow> size_t \<Rightarrow> addr \<Rightarrow> bool option" where
  "device_type_test s fdt type len node =
     do {
       prop \<leftarrow> fdt_get_prop_by_name s fdt node NULL (Lit (bytes_of ''device_type''));
       (if prop \<noteq> NULL \<and> (fdt_prop_val_len s prop = len + 1 \<or> fdt_prop_val_len s prop = len)
        then do { d \<leftarrow> memcmp s type (Mem (fdt_prop_val prop)) (fdt_prop_val_len s prop); Some (d = 0) }
        else Some False)
     }"

definition unit_name_test :: "'z machine_scheme \<Rightarrow> cptr \<Rightarrow> addr \<Rightarrow> bool option" where
  "unit_name_test s name node = do { d \<leftarrow> strcmp s name (fdt_node_name s node); Some (d = 0) }"

text \<open>A node whose \<^verbatim>\<open>phandle\<close> property is not one cell has no result: the loop never leaves it.\<close>

definition phandle_test :: "'z machine_scheme \<Rightarrow> addr \<Rightarrow> u32 \<Rightarrow> addr \<Rightarrow> bool option" where
  "phandle_test s fdt phandle node =
     do {
       prop \<leftarrow> fdt_get_prop_by_name s fdt node NULL (Lit (bytes_of ''phandle''));
       (if prop \<noteq> NULL \<and> fdt_prop_num_cells s prop \<noteq> 1 then None
        else Some (prop \<noteq> NULL \<and> fdt_prop_get_cell s prop 0 = phandle))
     }"

lemma find_phandle_loop_stuck:
  assumes "node \<noteq> NULL" and "fdt_get_prop_by_name s fdt node NULL (Lit (bytes_of ''phandle'')) = Some prop"
    and "prop \<noteq> NULL" and "fdt_prop_num_cells s prop \<noteq> 1"
  shows "find_phandle_loop s fdt phandle node = None"
proof (rule ccontr)
  assume "find_phandle_loop s fdt phandle node \<noteq> None"
  then obtain r where ret: "find_phandle_loop s fdt phandle node = Some r" by auto
  let ?P = "\<lambda>s fdt phandle node r. \<not> (node \<noteq> NULL \<and>
      (\<exists>prop. fdt_get_prop_by_name s fdt node NULL (Lit (bytes_of ''phandle'')) = Some prop \<and>
        prop \<noteq> NULL \<and> fdt_prop_num_cells s prop \<noteq> 1))"
  have "?P s fdt phandle node r"
    by (rule find_phandle_loop.raw_induct [where P = ?P, OF _ ret]) (clarsimp split: if_splits, blast)
  then show False using assms by auto
qed

lemma find_compatible_loop_unfold:
  "find_compatible_loop s fdt compat' p =
    (if p = NULL then Some NULL
     else do { b \<leftarrow> fdt_node_is_compatible s fdt p compat';
               if b then Some p else do { q \<leftarrow> node_step s fdt p; find_compatible_loop s fdt compat' q } })"
  unfolding bind_node_step [symmetric] by (subst find_compatible_loop.simps) simp

lemma find_device_type_loop_unfold:
  "find_device_type_loop s fdt type len p =
    (if p = NULL then Some NULL
     else do { b \<leftarrow> device_type_test s fdt type len p;
               if b then Some p else do { q \<leftarrow> node_step s fdt p; find_device_type_loop s fdt type len q } })"
  unfolding bind_node_step [symmetric] device_type_test_def
  by (subst find_device_type_loop.simps) simp

lemma find_unit_name_loop_unfold:
  "find_unit_name_loop s fdt name p =
    (if p = NULL then Some NULL
     else do { b \<leftarrow> unit_name_test s name p;
               if b then Some p else do { q \<leftarrow> node_step s fdt p; find_unit_name_loop s fdt name q } })"
  unfolding bind_node_step [symmetric] unit_name_test_def
  by (subst find_unit_name_loop.simps) simp

lemma find_phandle_loop_unfold:
  "find_phandle_loop s fdt phandle p =
    (if p = NULL then Some NULL
     else do { b \<leftarrow> phandle_test s fdt phandle p;
               if b then Some p else do { q \<leftarrow> node_step s fdt p; find_phandle_loop s fdt phandle q } })"
proof (cases "\<exists>prop. p \<noteq> NULL \<and> fdt_get_prop_by_name s fdt p NULL (Lit (bytes_of ''phandle'')) = Some prop \<and>
      prop \<noteq> NULL \<and> fdt_prop_num_cells s prop \<noteq> 1")
  case True
  then show ?thesis using find_phandle_loop_stuck [of p s fdt] by (auto simp: phandle_test_def)
next
  case False
  then show ?thesis
    by (subst find_phandle_loop.simps)
      (cases "fdt_get_prop_by_name s fdt p NULL (Lit (bytes_of ''phandle''))";
        auto simp: phandle_test_def bind_node_step)
qed

interpretation compatible_search: linear_search
    "\<lambda>(s, fdt, compat'). node_step s fdt"
    "\<lambda>(s, fdt, compat'). \<lambda>p. fdt_node_is_compatible s fdt p compat'"
    "\<lambda>(s, fdt, compat'). find_compatible_loop s fdt compat'"
  by unfold_locales (simp only: split_paired_all prod.case, rule find_compatible_loop_unfold)

interpretation device_type_search: linear_search
    "\<lambda>(s, fdt, type, len). node_step s fdt"
    "\<lambda>(s, fdt, type, len). device_type_test s fdt type len"
    "\<lambda>(s, fdt, type, len). find_device_type_loop s fdt type len"
  by unfold_locales (simp only: split_paired_all prod.case, rule find_device_type_loop_unfold)

interpretation unit_name_search: linear_search
    "\<lambda>(s, fdt, name). node_step s fdt"
    "\<lambda>(s, fdt, name). unit_name_test s name"
    "\<lambda>(s, fdt, name). find_unit_name_loop s fdt name"
  by unfold_locales (simp only: split_paired_all prod.case, rule find_unit_name_loop_unfold)

interpretation phandle_search: linear_search
    "\<lambda>(s, fdt, phandle). node_step s fdt"
    "\<lambda>(s, fdt, phandle). phandle_test s fdt phandle"
    "\<lambda>(s, fdt, phandle). find_phandle_loop s fdt phandle"
  by unfold_locales (simp only: split_paired_all prod.case, rule find_phandle_loop_unfold)

section \<open>The chain of nodes\<close>

definition node_ptrs :: "'z machine_scheme \<Rightarrow> addr \<Rightarrow> token list \<Rightarrow> token list \<Rightarrow> addr list" where
  "node_ptrs s fdt ts us = map (\<lambda>(vs, e). tok_ptr s fdt ts vs) (node_list 0 us)"

lemma node_ptrs_depth: "map (\<lambda>(vs, e). tok_ptr s fdt ts vs) (node_list d us) = node_ptrs s fdt ts us"
  using node_list_shift [of 0 d us] by (simp add: node_ptrs_def case_prod_beta comp_def)

lemma fst_next_result: "fst (next_result s fdt ts depth (node_list d us)) = hd_ptr (node_ptrs s fdt ts us)"
  by (simp add: next_result_def node_ptrs_depth [of s fdt ts d us, symmetric] split: list.splits prod.splits)

lemma chain_node_ptrs:
  assumes "fdt_struct s fdt ts" and "suffix us ts"
  shows "chain (node_step s fdt) (map (\<lambda>(vs, e). tok_ptr s fdt ts vs) (node_list d us))"
  using assms(2)
proof (induction d us rule: node_list.induct)
  case (2 d nm us)
  then show ?case using assms(1) suffix_ConsD [OF 2(2)]
    by (simp add: tok_ptr_not_null node_step_def fdt_next_node_eq fst_next_result node_ptrs_depth)
qed (auto dest: suffix_ConsD)

lemma search_start_NULL:
  "fdt_struct s fdt ts \<Longrightarrow> ts \<noteq> [] \<Longrightarrow> search_start s fdt NULL = Some (hd_ptr (node_ptrs s fdt ts ts))"
  using fdt_node_begin_eq [of s fdt ts 0]
  by (simp add: search_start_def first_ptr_def node_ptrs_def split: list.splits prod.splits)

lemma search_start_node:
  assumes "fdt_struct s fdt ts" and "suffix (BeginNode nm # us) ts"
  shows "search_start s fdt (tok_ptr s fdt ts (BeginNode nm # us)) = Some (hd_ptr (node_ptrs s fdt ts us))"
  using assms by (simp add: search_start_def tok_ptr_not_null fdt_next_node_eq fst_next_result)

section \<open>Walking an arbitrary blob\<close>

text \<open>Whatever the memory holds, a token pointer that is returned lies in the structure block.\<close>

lemma fdt_next_token_in_block:
  "fdt_next_token s fdt p = Some q \<Longrightarrow> q \<noteq> NULL \<Longrightarrow> \<not> fdt_struct_ptr_invalid s fdt q"
  by (auto simp: fdt_next_token_def Let_def bind_eq_Some_conv split: if_splits)

lemma next_node_loop_sound:
  assumes "next_node_loop s fdt p inc depth = Some r"
  shows "fst r \<noteq> NULL \<longrightarrow> be32toh s (load32 s (fst r)) = FDT_BEGIN_NODE \<and>
    (fst r = p \<or> \<not> fdt_struct_ptr_invalid s fdt (fst r))"
proof (rule next_node_loop.raw_induct [where P = "\<lambda>s fdt p inc depth r. fst r \<noteq> NULL \<longrightarrow>
    be32toh s (load32 s (fst r)) = FDT_BEGIN_NODE \<and> (fst r = p \<or> \<not> fdt_struct_ptr_invalid s fdt (fst r))",
    OF _ assms], goal_cases)
  case (1 loop s fdt p inc depth r)
  show ?case
  proof (cases "p = NULL \<or> be32toh s (load32 s p) = FDT_BEGIN_NODE")
    case True
    then show ?thesis using 1(2) by (auto simp: Let_def split: if_splits)
  next
    case False
    then obtain q inc' where q: "fdt_next_token s fdt p = Some q" "loop s fdt q inc' depth = Some r"
      using 1(2) by (auto simp: Let_def bind_eq_Some_conv split: if_splits)
    show ?thesis using 1(1) [OF q(2)] fdt_next_token_in_block [OF q(1)] by auto
  qed
qed

section \<open>Properties\<close>

lemma drop_eq_Cons:
  assumes "drop k xs = y # ys"
  shows "k < length xs" and "xs ! k = y"
proof -
  show "k < length xs" using assms by (metis drop_all linorder_not_less list.discI)
  show "xs ! k = y" using assms by (rule nth_via_drop)
qed

lemma node_list_nth:
  assumes "i < length (node_list d us)"
  shows "\<exists>nm ws. fst (node_list d us ! i) = BeginNode nm # ws \<and> suffix (BeginNode nm # ws) us \<and>
    drop (Suc i) (node_list d us) = node_list (snd (node_list d us ! i) + 1) ws"
  using assms
proof (induction i arbitrary: d us)
  case 0
  then obtain vs e ns where ns: "node_list d us = (vs, e) # ns" by (cases "node_list d us") auto
  then show ?case using node_list_Cons [OF ns] by auto
next
  case (Suc i)
  then obtain vs e ns where ns: "node_list d us = (vs, e) # ns" by (cases "node_list d us") auto
  from node_list_Cons [OF ns] obtain nm ws
    where vs: "vs = BeginNode nm # ws" "ns = node_list (e + 1) ws" "suffix vs us" by auto
  then have "i < length (node_list (e + 1) ws)" using Suc.prems ns by simp
  from Suc.IH [OF this] show ?case
    using vs suffix_order.trans [OF _ vs(3)] by (auto simp: ns intro: suffix_ConsI)
qed

text \<open>C12. \<^verbatim>\<open>fdt_node_begin\<close> returns the first node of the structure block, and \<^verbatim>\<open>fdt_next_node\<close> from the \<^term>\<open>i\<close>-th
  node, given its depth, returns the next one and its depth (the null pointer and the same depth after the last
  one): iterating visits every node once, in document order, with the right depth.\<close>

theorem fdt_next_node_correct:
  assumes "fdt_struct s fdt ts" and "rooted ts"
  defines "ns \<equiv> node_list 0 ts"
  shows "fdt_node_begin s fdt = Some (tok_ptr s fdt ts (fst (ns ! 0))) \<and>
    (\<forall>i < length ns. fdt_next_node s fdt (tok_ptr s fdt ts (fst (ns ! i))) (Some (snd (ns ! i))) =
       Some (if Suc i < length ns then (tok_ptr s fdt ts (fst (ns ! Suc i)), Some (snd (ns ! Suc i)))
             else (NULL, Some (snd (ns ! i)))))"
proof (intro conjI allI impI)
  have "ts \<noteq> []" using assms(2) by (auto simp: rooted_def)
  then show "fdt_node_begin s fdt = Some (tok_ptr s fdt ts (fst (ns ! 0)))"
    using assms fdt_node_begin_eq [of s fdt ts 0] by (auto simp: rooted_def first_ptr_def)
next
  fix i assume i: "i < length ns"
  let ?d = "snd (ns ! i)"
  from node_list_nth [OF i [unfolded ns_def]] obtain nm ws
    where n: "fst (ns ! i) = BeginNode nm # ws" "suffix (BeginNode nm # ws) ts"
      "drop (Suc i) ns = node_list (?d + 1) ws" by (auto simp: ns_def)
  have sh: "drop (Suc i) ns = map (\<lambda>(vs, e). (vs, e + ?d)) (node_list 1 ws)"
    unfolding n(3) using node_list_shift [of 1 ?d ws] by (simp add: add.commute)
  have "fdt_next_node s fdt (tok_ptr s fdt ts (fst (ns ! i))) (Some ?d) =
      Some (next_result s fdt ts (Some ?d) (node_list 1 ws))"
    using fdt_next_node_eq [OF assms(1) n(2)] n(1) by simp
  also have "next_result s fdt ts (Some ?d) (node_list 1 ws) =
      (if Suc i < length ns then (tok_ptr s fdt ts (fst (ns ! Suc i)), Some (snd (ns ! Suc i)))
       else (NULL, Some ?d))"
  proof (cases "node_list 1 ws")
    case Nil
    then show ?thesis using sh by (simp add: next_result_def)
  next
    case (Cons m ms)
    then have "drop (Suc i) ns = (fst m, snd m + ?d) # map (\<lambda>(vs, e). (vs, e + ?d)) ms"
      using sh by (simp add: case_prod_beta)
    from drop_eq_Cons [OF this] have "Suc i < length ns" and "ns ! Suc i = (fst m, snd m + ?d)" .
    then show ?thesis using Cons by (simp add: next_result_def add.commute split: prod.splits)
  qed
  finally show "fdt_next_node s fdt (tok_ptr s fdt ts (fst (ns ! i))) (Some ?d) =
      Some (if Suc i < length ns then (tok_ptr s fdt ts (fst (ns ! Suc i)), Some (snd (ns ! Suc i)))
            else (NULL, Some ?d))" .
qed

lemma virt_nodes:
  "map snd (node_list 0 virt_tokens) = [0, 1, 1, 1, 2]"
  "rooted virt_tokens"
  by (simp_all add: virt_defs rooted_def)

theorem fdt_next_node_correct_witness:
  "rooted virt_tokens \<and> length (node_list 0 virt_tokens) = 5 \<and>
   fdt_next_node virt virt_base (tok_ptr virt virt_base virt_tokens (fst (node_list 0 virt_tokens ! 4))) (Some 2) =
     Some (NULL, Some 2)"
proof -
  have "snd (node_list 0 virt_tokens ! 4) = 2" and len: "length (node_list 0 virt_tokens) = 5"
    using virt_nodes(1) by (simp_all flip: length_map [of snd] add: nth_map [symmetric] virt_defs)
  then show ?thesis
    using conjunct2 [OF fdt_next_node_correct [OF virt_ok(2) virt_nodes(2)], rule_format, of 4] virt_nodes(2)
    by simp
qed

text \<open>\<^verbatim>\<open>fdt_max_depth\<close> returns the greatest depth of a node of the tree.\<close>

theorem fdt_max_depth_correct:
  assumes "fdt_struct s fdt ts" and "rooted ts"
  shows "fdt_max_depth s fdt = Some (Max (snd ` set (node_list 0 ts)))"
  using assms by (rule fdt_max_depth_eq)

theorem fdt_max_depth_correct_witness: "fdt_max_depth virt virt_base = Some 2"
  using fdt_max_depth_correct [OF virt_ok(2) virt_nodes(2)] virt_nodes(1)
  by (simp flip: set_map)

text \<open>Whatever bytes memory holds, well-formed tree or not, a node that \<^verbatim>\<open>fdt_next_node\<close> returns lies inside the
  structure block the header announces and carries the begin-node tag.\<close>

theorem fdt_next_node_safe:
  assumes "fdt_next_node s fdt node depth = Some (node', depth')" and "node' \<noteq> NULL"
  shows "be32toh s (load32 s node') = FDT_BEGIN_NODE \<and> \<not> fdt_struct_ptr_invalid s fdt node'"
proof -
  obtain p where p: "fdt_next_token s fdt node = Some p" "next_node_loop s fdt p 1 depth = Some (node', depth')"
    using assms(1) by (auto simp: fdt_next_node_def bind_eq_Some_conv)
  show ?thesis using next_node_loop_sound [OF p(2)] fdt_next_token_in_block [OF p(1)] assms(2) by auto
qed

theorem fdt_next_node_safe_witness:
  "\<exists>node'. node' \<noteq> NULL \<and>
     fdt_next_node virt virt_base (tok_ptr virt virt_base virt_tokens virt_tokens) None = Some (node', None) \<and>
     \<not> fdt_struct_ptr_invalid virt virt_base node'"
proof -
  let ?us = "drop 4 virt_tokens"
  have "fdt_next_node virt virt_base (tok_ptr virt virt_base virt_tokens virt_tokens) None =
      Some (tok_ptr virt virt_base virt_tokens ?us, None)"
    using fdt_next_node_eq [OF virt_ok(2), of "[]" "tl virt_tokens" None]
    by (simp add: virt_tokens_def virt_poweroff_def next_result_def)
  moreover have "tok_ptr virt virt_base virt_tokens ?us \<noteq> NULL"
    using tok_ptr_not_null [OF virt_ok(2) suffix_drop, of 4] by (simp add: virt_tokens_def virt_poweroff_def)
  ultimately show ?thesis using fdt_next_node_safe by blast
qed

end
