(* ===== verification/Fdt_Robust.thy ===== *)
theory Fdt_Robust
  imports Fdt_Nodes
begin

text \<open>
  The traversal functions of \<^verbatim>\<open>kernel/of/fdt.c\<close> on blobs that need not be well-formed.  The structure block may hold any bytes; all
  that is asked for is that the block lies in the lower half of the address space and that some byte behind it is
  zero, so that \<^verbatim>\<open>strlen\<close> on a node name stops.  Then every token leads forward, so that every traversal ends, and what it
  returns is a null pointer or lies in the block and carries the tag it should.
\<close>

section \<open>Definitions\<close>

definition struct_end :: "'z machine_scheme \<Rightarrow> addr \<Rightarrow> nat" where
  "struct_end s fdt = unat (fdt_token_begin s fdt) + unat (be32toh s (size_dt_struct (fdt_at s fdt)))"

definition bounded :: "'z machine_scheme \<Rightarrow> addr \<Rightarrow> addr \<Rightarrow> bool" where
  "bounded s fdt z \<longleftrightarrow> fdt_token_begin s fdt \<noteq> NULL \<and> unat (fdt_token_begin s fdt) < struct_end s fdt \<and> struct_end s fdt + 4 \<le> unat z \<and> unat z < 2 ^ 63 \<and> mem s z = 0"

abbreviation in_block :: "'z machine_scheme \<Rightarrow> addr \<Rightarrow> addr \<Rightarrow> bool" where
  "in_block s fdt p \<equiv> \<not> fdt_struct_ptr_invalid s fdt p"

text \<open>A token with this tag, in the block.\<close>

definition token_at :: "'z machine_scheme \<Rightarrow> addr \<Rightarrow> u32 \<Rightarrow> addr \<Rightarrow> bool" where
  "token_at s fdt k p \<longleftrightarrow> in_block s fdt p \<and> be32toh s (load32 s p) = k"

text \<open>What a search from \<^term>\<open>p\<close> on promises: it returns, and what it returns is nothing or good, and not before \<^term>\<open>p\<close>; or,
  for a step, behind \<^term>\<open>p\<close>.\<close>

definition reaches :: "(addr \<Rightarrow> bool) \<Rightarrow> addr \<Rightarrow> addr option \<Rightarrow> bool" where
  "reaches R p r \<longleftrightarrow> (\<exists>q. r = Some q \<and> (q \<noteq> NULL \<longrightarrow> R q \<and> unat p \<le> unat q))"

definition passes :: "(addr \<Rightarrow> bool) \<Rightarrow> addr \<Rightarrow> addr option \<Rightarrow> bool" where
  "passes R p r \<longleftrightarrow> (\<exists>q. r = Some q \<and> (q \<noteq> NULL \<longrightarrow> R q \<and> unat p < unat q))"

section \<open>Walks that lead forward\<close>

text \<open>Places in memory below a bound, and a step that leads from each of them to a later one or to nothing.\<close>

locale forward_walk =
  fixes ok :: "addr \<Rightarrow> bool" and bound :: nat and nxt :: "addr \<Rightarrow> addr option"
  assumes below: "ok p \<Longrightarrow> unat p < bound"
    and forward: "ok p \<Longrightarrow> passes ok p (nxt p)"
begin

lemma walk_induct [consumes 1, case_names place]:
  assumes "ok p" and "\<And>p. ok p \<Longrightarrow> (\<And>q. ok q \<Longrightarrow> unat p < unat q \<Longrightarrow> P q) \<Longrightarrow> P p"
  shows "P p"
  using assms(1)
proof (induction "bound - unat p" arbitrary: p rule: less_induct)
  case less
  show ?case
  proof (rule assms(2) [OF less.prems])
    fix q
    assume q: "ok q" "unat p < unat q"
    then show "P q" using less.hyps [of q] below [OF less.prems] below [of q] by simp
  qed
qed

text \<open>A loop that looks at a place and either answers or goes on to the next one returns.\<close>

lemma scan_ends:
  assumes "p \<noteq> NULL \<Longrightarrow> ok p" and null: "\<And>x. loop NULL x = Some NULL"
    and step: "\<And>p x. ok p \<Longrightarrow> reaches R p (loop p x) \<or> (\<exists>y. loop p x = nxt p \<bind> (\<lambda>q. loop q y))"
  shows "reaches R p (loop p x)"
proof (cases "p = NULL")
  case False
  then have "ok p" using assms(1) by simp
  then show ?thesis
  proof (induction p arbitrary: x rule: walk_induct)
    case (place p)
    obtain q where q: "nxt p = Some q" "q \<noteq> NULL \<longrightarrow> ok q \<and> unat p < unat q"
      using forward [OF place(1)] by (auto simp: passes_def)
    from step [OF place(1), of x] show ?case
    proof (elim disjE exE)
      fix y
      assume y: "loop p x = nxt p \<bind> (\<lambda>q. loop q y)"
      show ?thesis
      proof (cases "q = NULL")
        case False
        then have "reaches R q (loop q y)" "unat p \<le> unat q" using place(2) q by auto
        then show ?thesis using y q(1) by (auto simp: reaches_def)
      qed (simp add: y q(1) null reaches_def)
    qed
  qed
qed (simp add: null reaches_def)

end

section \<open>Every token leads forward\<close>

lemma in_block_iff:
  assumes "bounded s fdt z"
  shows "in_block s fdt p \<longleftrightarrow> unat (fdt_token_begin s fdt) \<le> unat p \<and> unat p < struct_end s fdt"
proof -
  let ?n = "be32toh s (size_dt_struct (fdt_at s fdt))"
  have n: "unat (ucast ?n :: size_t) = unat ?n" using unsigned_less [of ?n, where 'a = nat] by (simp add: unsigned_ucast_eq take_bit_nat_eq_self)
  then have "unat (fdt_token_begin s fdt + ucast ?n) = struct_end s fdt"
    using assms unat_add_nowrap [of "fdt_token_begin s fdt" "unat ?n"] by (simp add: bounded_def struct_end_def)
  then show ?thesis by (auto simp: fdt_struct_ptr_invalid_def Let_def word_less_nat_alt word_le_nat_alt not_le not_less fdt_token_begin_def)
qed

lemma cstr_bounded:
  assumes "a \<noteq> NULL" and "unat a \<le> unat z" and "mem s z = 0"
  shows "\<exists>cs. cstr s (Mem a) cs \<and> unat a + length cs \<le> unat z"
proof -
  let ?P = "\<lambda>i. mem s (a + of_nat i) = 0"
  define n where "n = (LEAST i. ?P i)"
  have z: "?P (unat z - unat a)" using assms by (simp add: of_nat_diff)
  have n: "?P n" "n \<le> unat z - unat a" "\<And>i. i < n \<Longrightarrow> \<not> ?P i"
    unfolding n_def using LeastI [of ?P, OF z] Least_le [of ?P, OF z] not_less_Least [of _ ?P] by blast+
  have "holds s a (read_bytes s a n @ [0])" using n(1) by (simp add: holds_def read_bytes_def)
  moreover have "0 \<notin> set (read_bytes s a n)" using n(3) by (auto simp: read_bytes_def)
  moreover have "n < 2 ^ 64" using n(2) unat_less64 [of z] by linarith
  ultimately have "cstr s (Mem a) (read_bytes s a n)" using assms(1) by (simp add: cstr_def)
  then show ?thesis using n(2) assms(2) by (intro exI [of _ "read_bytes s a n"]) simp
qed

lemma strlen_bounded:
  assumes "a \<noteq> NULL" and "unat a \<le> unat z" and "mem s z = 0"
  shows "\<exists>n. strlen s (Mem a) = Some (of_nat n) \<and> unat a + n \<le> unat z"
  using cstr_bounded [OF assms] strlen_cstr by blast

text \<open>Where the next token starts, as far as the tag of this one says; at most 4 GiB and the length of a name away.\<close>

lemma next_token_step:
  assumes "bounded s fdt z" and "in_block s fdt p"
  shows "fdt_next_token s fdt p = Some NULL \<or>
    (\<exists>k > 0. k \<le> 2 ^ 33 + (unat z - unat p) \<and>
      fdt_next_token s fdt p = Some (if in_block s fdt (p + of_nat k) then p + of_nat k else NULL))"
proof -
  have p: "unat p + 4 \<le> unat z" "unat z < 2 ^ 63" "mem s z = 0"
    using assms(1) assms(2) [unfolded in_block_iff [OF assms(1)]] by (simp_all add: bounded_def)
  consider (short) "be32toh s (load32 s p) = FDT_NOP \<or> be32toh s (load32 s p) = FDT_END_NODE"
    | (node) "be32toh s (load32 s p) = FDT_BEGIN_NODE" | (property) "be32toh s (load32 s p) = FDT_PROP"
    | (stop) "be32toh s (load32 s p) \<notin> {FDT_NOP, FDT_END_NODE, FDT_BEGIN_NODE, FDT_PROP}" by blast
  then show ?thesis
  proof cases
    case short
    then show ?thesis by (intro disjI2 exI [of _ 4]) (auto simp: fdt_next_token_def Let_def)
  next
    case node
    have p4: "unat (p + 4) = unat p + 4" using unat_add_nowrap [of p 4] p(1,2) by simp
    then have "p + 4 \<noteq> NULL" by auto
    then obtain n where n: "strlen s (Mem (p + 4)) = Some (of_nat n)" "unat p + 4 + n \<le> unat z"
      using strlen_bounded [of "p + 4" z s] p(1,3) p4 by auto
    have "4 * cell_len (of_nat n + 1) = of_nat (4 * ((n + 1 + 3) div 4))"
      using cell_len_of_nat [of "n + 1"] n(2) p(2) by (simp add: add.commute)
    then have "p + 4 + 4 * cell_len (of_nat n + 1) = p + of_nat (4 + 4 * ((n + 4) div 4))"
      by (simp add: add.assoc add.commute [of 4 n])
    moreover have "4 + 4 * ((n + 4) div 4) \<le> 2 ^ 33 + (unat z - unat p)" using n(2) by simp
    ultimately show ?thesis using node n(1) by (intro disjI2 exI [of _ "4 + 4 * ((n + 4) div 4)"]) (simp add: fdt_next_token_def add.assoc)
  next
    case property
    define m where "m = unat (be32toh s (prop_len (fdt_prop_at s p)))"
    have m: "m < 2 ^ 32"
      using unsigned_less [of "be32toh s (prop_len (fdt_prop_at s p))", where 'a = nat] by (simp add: m_def)
    have "fdt_prop_val_len s p = of_nat m" by (simp add: fdt_prop_val_len_def m_def)
    then have "4 * cell_len (fdt_prop_val_len s p) = of_nat (4 * ((m + 3) div 4))" using cell_len_of_nat [of m] m by simp
    then have "p + 4 + 4 * (2 + cell_len (fdt_prop_val_len s p)) = p + of_nat (12 + 4 * ((m + 3) div 4))"
      by (simp add: distrib_left)
    moreover have "12 + 4 * ((m + 3) div 4) \<le> 2 ^ 33 + (unat z - unat p)" using m by simp
    ultimately show ?thesis using property by (intro disjI2 exI [of _ "12 + 4 * ((m + 3) div 4)"]) (simp add: fdt_next_token_def add.assoc)
  next
    case stop
    then show ?thesis by (simp add: fdt_next_token_def Let_def)
  qed
qed

lemma next_token_forward:
  assumes "bounded s fdt z" and "in_block s fdt p"
  shows "passes (in_block s fdt) p (fdt_next_token s fdt p)"
proof -
  have p: "unat p < unat z" "unat z < 2 ^ 63"
    using assms(1) assms(2) [unfolded in_block_iff [OF assms(1)]] by (simp_all add: bounded_def)
  have "unat p < unat (p + of_nat k)" if "0 < k" "k \<le> 2 ^ 33 + (unat z - unat p)" for k
    using unat_add_nowrap [of p k] that p by simp
  then show ?thesis using next_token_step [OF assms] by (auto simp: passes_def)
qed

abbreviation place :: "'z machine_scheme \<Rightarrow> addr \<Rightarrow> addr \<Rightarrow> addr \<Rightarrow> bool" where
  "place s fdt z p \<equiv> bounded s fdt z \<and> in_block s fdt p"

lemma place_below: "place s fdt z p \<Longrightarrow> unat p < unat z"
  using in_block_iff [of s fdt z p] by (auto simp: bounded_def)

lemma place_not_null: "place s fdt z p \<Longrightarrow> p \<noteq> NULL"
  using in_block_iff [of s fdt z p] by (auto simp: bounded_def unat_eq_0)

interpretation token_walk: forward_walk "place s fdt z" "unat z" "fdt_next_token s fdt"
  using next_token_forward [of s fdt z] by unfold_locales (auto simp: passes_def place_below)

section \<open>Nodes and properties\<close>

lemma reaches_here: "place s fdt z p \<Longrightarrow> be32toh s (load32 s p) = k \<Longrightarrow> reaches (token_at s fdt k) p (Some p)"
  by (simp add: reaches_def token_at_def)

lemma reaches_NULL [simp]: "reaches R p (Some NULL)"
  by (simp add: reaches_def)

lemma at_null:
  "node_begin_loop s fdt NULL = Some NULL" "prop_loop s fdt NULL = Some NULL" "subnode_loop s fdt NULL = Some NULL"
  "map_option fst (next_node_loop s fdt NULL inc depth) = Some NULL" "prop_by_name_loop s fdt name NULL = Some NULL"
  "find_device_type_loop s fdt type len NULL = Some NULL" "find_unit_name_loop s fdt name NULL = Some NULL"
  by (subst node_begin_loop.simps prop_loop.simps subnode_loop.simps next_node_loop.simps prop_by_name_loop.simps
      find_device_type_loop.simps find_unit_name_loop.simps, simp)+

lemma loops_end:
  assumes "p \<noteq> NULL \<Longrightarrow> place s fdt z p"
  shows "reaches (token_at s fdt FDT_BEGIN_NODE) p (node_begin_loop s fdt p)"
    and "reaches (token_at s fdt FDT_PROP) p (prop_loop s fdt p)"
    and "reaches (token_at s fdt FDT_BEGIN_NODE) p (subnode_loop s fdt p)"
    and "reaches (token_at s fdt FDT_BEGIN_NODE) p (map_option fst (next_node_loop s fdt p inc depth))"
proof -
  note scan = token_walk.scan_ends [OF assms]
  show "reaches (token_at s fdt FDT_BEGIN_NODE) p (node_begin_loop s fdt p)"
  proof (rule scan [where loop = "\<lambda>p _. node_begin_loop s fdt p" and x = "()"])
    fix p assume p: "place s fdt z p"
    show "reaches (token_at s fdt FDT_BEGIN_NODE) p (node_begin_loop s fdt p) \<or>
        (\<exists>y. node_begin_loop s fdt p = fdt_next_token s fdt p \<bind> (\<lambda>q. node_begin_loop s fdt q))"
      using reaches_here [OF p] place_not_null [OF p] unfolding node_begin_loop.simps [of s fdt p] by auto
  qed (simp_all add: at_null)
  show "reaches (token_at s fdt FDT_PROP) p (prop_loop s fdt p)"
  proof (rule scan [where loop = "\<lambda>p _. prop_loop s fdt p" and x = "()"])
    fix p assume p: "place s fdt z p"
    show "reaches (token_at s fdt FDT_PROP) p (prop_loop s fdt p) \<or>
        (\<exists>y. prop_loop s fdt p = fdt_next_token s fdt p \<bind> (\<lambda>q. prop_loop s fdt q))"
      using reaches_here [OF p] place_not_null [OF p] unfolding prop_loop.simps [of s fdt p] by (auto simp: Let_def)
  qed (simp_all add: at_null)
  show "reaches (token_at s fdt FDT_BEGIN_NODE) p (subnode_loop s fdt p)"
  proof (rule scan [where loop = "\<lambda>p _. subnode_loop s fdt p" and x = "()"])
    fix p assume p: "place s fdt z p"
    show "reaches (token_at s fdt FDT_BEGIN_NODE) p (subnode_loop s fdt p) \<or>
        (\<exists>y. subnode_loop s fdt p = fdt_next_token s fdt p \<bind> (\<lambda>q. subnode_loop s fdt q))"
      using reaches_here [OF p] place_not_null [OF p] unfolding subnode_loop.simps [of s fdt p] by (auto simp: Let_def)
  qed (simp_all add: at_null)
  show "reaches (token_at s fdt FDT_BEGIN_NODE) p (map_option fst (next_node_loop s fdt p inc depth))"
  proof (rule scan [where loop = "\<lambda>p inc. map_option fst (next_node_loop s fdt p inc depth)"])
    fix p inc assume p: "place s fdt z p"
    show "reaches (token_at s fdt FDT_BEGIN_NODE) p (map_option fst (next_node_loop s fdt p inc depth)) \<or>
        (\<exists>y. map_option fst (next_node_loop s fdt p inc depth) =
          fdt_next_token s fdt p \<bind> (\<lambda>q. map_option fst (next_node_loop s fdt q y depth)))"
      using reaches_here [OF p] place_not_null [OF p]
      unfolding next_node_loop.simps [of s fdt p inc depth] by (auto simp: Let_def map_option_bind comp_def)
  qed (simp_all add: at_null)
qed

text \<open>A step by a token, followed by a search.\<close>

lemma step_passes:
  assumes "passes (in_block s fdt) p r" and "place s fdt z p"
    and "\<And>q. (q \<noteq> NULL \<Longrightarrow> place s fdt z q) \<Longrightarrow> reaches R q (loop q)" and "loop NULL = Some NULL"
  shows "passes R p (r \<bind> loop)"
proof -
  obtain q where q: "r = Some q" "q \<noteq> NULL \<longrightarrow> in_block s fdt q \<and> unat p < unat q" using assms(1) by (auto simp: passes_def)
  show ?thesis
  proof (cases "q = NULL")
    case False
    then have "reaches R q (loop q)" "unat p < unat q" using assms(2,3) q(2) by auto
    then show ?thesis using q(1) by (auto simp: passes_def reaches_def)
  qed (simp add: q(1) assms(4) passes_def)
qed

lemma after_node_passes:
  assumes "place s fdt z p"
  shows "passes (in_block s fdt) p (after_node_loop s fdt p depth)"
  using assms
proof (induction p arbitrary: depth rule: token_walk.walk_induct)
  case (place p)
  obtain q where q: "fdt_next_token s fdt p = Some q" "q \<noteq> NULL \<longrightarrow> place s fdt z q \<and> unat p < unat q"
    using token_walk.forward [OF place(1)] by (auto simp: passes_def)
  have "passes (in_block s fdt) q (after_node_loop s fdt q d)" if "q \<noteq> NULL" for d using place(2) q that by blast
  then show ?case using q
    by (subst after_node_loop.simps) (auto simp: Let_def passes_def intro: less_trans)
qed

lemma iterators_pass:
  assumes "place s fdt z p"
  shows "passes (token_at s fdt FDT_BEGIN_NODE) p (map_option fst (fdt_next_node s fdt p depth))"
    and "passes (token_at s fdt FDT_PROP) p (fdt_node_prop_begin s fdt p)"
    and "passes (token_at s fdt FDT_PROP) p (fdt_node_next_prop s fdt p)"
    and "passes (token_at s fdt FDT_BEGIN_NODE) p (fdt_node_subnode_begin s fdt p)"
    and "passes (token_at s fdt FDT_BEGIN_NODE) p (fdt_node_next_subnode s fdt p)"
proof -
  have nt: "passes (in_block s fdt) p (fdt_next_token s fdt p)" using next_token_forward assms by blast
  have an: "passes (in_block s fdt) p (fdt_next_token_after_node s fdt p)"
    using after_node_passes [OF assms] place_not_null [OF assms] by (simp add: fdt_next_token_after_node_def)
  show "passes (token_at s fdt FDT_BEGIN_NODE) p (map_option fst (fdt_next_node s fdt p depth))"
    unfolding fdt_next_node_def map_option_bind comp_def
    by (rule step_passes [OF nt assms], rule loops_end, blast, simp add: at_null)
  show "passes (token_at s fdt FDT_PROP) p (fdt_node_prop_begin s fdt p)"
    "passes (token_at s fdt FDT_PROP) p (fdt_node_next_prop s fdt p)"
    unfolding fdt_node_prop_begin_def fdt_node_next_prop_def
    by (rule step_passes [OF nt assms], rule loops_end, blast, simp add: at_null)+
  show "passes (token_at s fdt FDT_BEGIN_NODE) p (fdt_node_subnode_begin s fdt p)"
    unfolding fdt_node_subnode_begin_def
    by (rule step_passes [OF nt assms], rule loops_end, blast, simp add: at_null)
  show "passes (token_at s fdt FDT_BEGIN_NODE) p (fdt_node_next_subnode s fdt p)"
    unfolding fdt_node_next_subnode_def
    by (rule step_passes [OF an assms], rule loops_end, blast, simp add: at_null)
qed

text \<open>Nodes, and properties, of a block.\<close>

abbreviation node_at :: "'z machine_scheme \<Rightarrow> addr \<Rightarrow> addr \<Rightarrow> addr \<Rightarrow> bool" where
  "node_at s fdt z p \<equiv> bounded s fdt z \<and> token_at s fdt FDT_BEGIN_NODE p"

abbreviation prop_at :: "'z machine_scheme \<Rightarrow> addr \<Rightarrow> addr \<Rightarrow> addr \<Rightarrow> bool" where
  "prop_at s fdt z p \<equiv> bounded s fdt z \<and> token_at s fdt FDT_PROP p"

lemma token_place: "bounded s fdt z \<and> token_at s fdt k p \<Longrightarrow> place s fdt z p"
  by (simp add: token_at_def)

interpretation node_walk: forward_walk "node_at s fdt z" "unat z" "\<lambda>p. map_option fst (fdt_next_node s fdt p None)"
proof
  fix p
  assume p: "node_at s fdt z p"
  show "unat p < unat z" using place_below [OF token_place [OF p]] .
  show "passes (node_at s fdt z) p (map_option fst (fdt_next_node s fdt p None))"
    using iterators_pass(1) [OF token_place [OF p], of None] p by (auto simp: passes_def)
qed

interpretation prop_walk: forward_walk "prop_at s fdt z" "unat z" "fdt_node_next_prop s fdt"
proof
  fix p
  assume p: "prop_at s fdt z p"
  show "unat p < unat z" using place_below [OF token_place [OF p]] .
  show "passes (prop_at s fdt z) p (fdt_node_next_prop s fdt p)"
    using iterators_pass(3) [OF token_place [OF p]] p by (auto simp: passes_def)
qed

section \<open>Searches\<close>

lemma strcmp_returns:
  assumes "cstr s p cs" and "q \<noteq> Mem NULL"
  shows "\<exists>d. strcmp s p q = Some d"
proof -
  have "\<exists>d. strcmp_loop s p q (of_nat i) = Some d" if "i \<le> length cs" for i
    using that
  proof (induction rule: inc_induct)
    case base
    then show ?case using char_at_cstr [OF assms(1)] by (subst strcmp_loop.simps) simp
  next
    case (step i)
    then show ?case by (subst strcmp_loop.simps) (simp add: add.commute)
  qed
  from this [of 0] show ?thesis using assms cstr_not_null by (simp add: strcmp_def)
qed

lemma prop_by_name_ends:
  assumes "p \<noteq> NULL \<Longrightarrow> prop_at s fdt z p" and "cstr s name cs"
  shows "reaches (token_at s fdt FDT_PROP) p (prop_by_name_loop s fdt name p)"
proof (rule prop_walk.scan_ends [OF assms(1), where loop = "\<lambda>p _. prop_by_name_loop s fdt name p" and x = "()"])
  fix p
  assume p: "prop_at s fdt z p"
  obtain b where "(if fdt_prop_name s fdt p = NULL then Some False
      else do { d \<leftarrow> strcmp s name (Mem (fdt_prop_name s fdt p)); Some (d = 0) }) = Some b"
    using strcmp_returns [OF assms(2), of "Mem (fdt_prop_name s fdt p)"] by (cases "fdt_prop_name s fdt p = NULL") auto
  then show "reaches (token_at s fdt FDT_PROP) p (prop_by_name_loop s fdt name p) \<or>
      (\<exists>y. prop_by_name_loop s fdt name p = fdt_node_next_prop s fdt p \<bind> (\<lambda>q. prop_by_name_loop s fdt name q))"
    using p place_not_null [OF token_place [OF p]] unfolding prop_by_name_loop.simps [of s fdt name p]
    by (cases b) (auto simp: reaches_def)
qed (simp_all add: at_null)

lemma get_prop_passes:
  assumes "place s fdt z p" and "cstr s name cs"
  shows "passes (token_at s fdt FDT_PROP) p (fdt_get_prop_by_name s fdt p NULL name)"
proof -
  obtain q where q: "fdt_node_prop_begin s fdt p = Some q" "q \<noteq> NULL \<longrightarrow> token_at s fdt FDT_PROP q \<and> unat p < unat q"
    using iterators_pass(2) [OF assms(1)] by (auto simp: passes_def)
  then have "reaches (token_at s fdt FDT_PROP) q (prop_by_name_loop s fdt name q)"
    using prop_by_name_ends [OF _ assms(2), of q fdt z] assms(1) by blast
  then show ?thesis
    using q by (cases "q = NULL") (auto simp: fdt_get_prop_by_name_def passes_def reaches_def at_null)
qed

lemma device_type_ends:
  assumes "p \<noteq> NULL \<Longrightarrow> node_at s fdt z p" and "type \<noteq> Mem NULL"
  shows "reaches (token_at s fdt FDT_BEGIN_NODE) p (find_device_type_loop s fdt type len p)"
proof (rule node_walk.scan_ends [OF assms(1), where loop = "\<lambda>p _. find_device_type_loop s fdt type len p" and x = "()"])
  fix p
  assume p: "node_at s fdt z p"
  have "cstr s (Lit (bytes_of ''device_type'')) (bytes_of ''device_type'')" by (simp add: cstr_def bytes_of_def)
  from get_prop_passes [OF token_place [OF p] this] obtain q where
    q: "fdt_get_prop_by_name s fdt p NULL (Lit (bytes_of ''device_type'')) = Some q" "q \<noteq> NULL \<longrightarrow> place s fdt z q"
    using p by (auto simp: passes_def token_at_def)
  have "fdt_prop_val q \<noteq> NULL" if "q \<noteq> NULL"
    using that q(2) place_below [of s fdt z q] unat_add_nowrap [of q 12] by (auto simp: fdt_prop_val_def bounded_def)
  then have "\<exists>b. (if q \<noteq> NULL \<and> (fdt_prop_val_len s q = len + 1 \<or> fdt_prop_val_len s q = len)
      then do { d \<leftarrow> memcmp s type (Mem (fdt_prop_val q)) (fdt_prop_val_len s q); Some (d = 0) } else Some False) = Some b"
    using assms(2) by (simp add: memcmp_def) (auto intro: exI [of _ False])
  then obtain b where "(if q \<noteq> NULL \<and> (fdt_prop_val_len s q = len + 1 \<or> fdt_prop_val_len s q = len)
      then do { d \<leftarrow> memcmp s type (Mem (fdt_prop_val q)) (fdt_prop_val_len s q); Some (d = 0) } else Some False) = Some b" ..
  then show "reaches (token_at s fdt FDT_BEGIN_NODE) p (find_device_type_loop s fdt type len p) \<or>
      (\<exists>y. find_device_type_loop s fdt type len p =
        map_option fst (fdt_next_node s fdt p None) \<bind> (\<lambda>q. find_device_type_loop s fdt type len q))"
    using p q(1) place_not_null [OF token_place [OF p]] unfolding find_device_type_loop.simps [of s fdt type len p]
    by (cases b) (auto simp: reaches_def bind_map_option comp_def case_prod_unfold)
qed (simp_all add: at_null)

lemma unit_name_ends:
  assumes "p \<noteq> NULL \<Longrightarrow> node_at s fdt z p" and "cstr s name cs"
  shows "reaches (token_at s fdt FDT_BEGIN_NODE) p (find_unit_name_loop s fdt name p)"
proof (rule node_walk.scan_ends [OF assms(1), where loop = "\<lambda>p _. find_unit_name_loop s fdt name p" and x = "()"])
  fix p
  assume p: "node_at s fdt z p"
  have "p + 4 \<noteq> NULL"
    using p place_below [OF token_place [OF p]] unat_add_nowrap [of p 4] by (auto simp: bounded_def)
  then have "fdt_node_name s p \<noteq> Mem NULL" by (simp add: fdt_node_name_def)
  then obtain d where "strcmp s name (fdt_node_name s p) = Some d" using strcmp_returns [OF assms(2)] by blast
  then show "reaches (token_at s fdt FDT_BEGIN_NODE) p (find_unit_name_loop s fdt name p) \<or>
      (\<exists>y. find_unit_name_loop s fdt name p =
        map_option fst (fdt_next_node s fdt p None) \<bind> (\<lambda>q. find_unit_name_loop s fdt name q))"
    using p place_not_null [OF token_place [OF p]] unfolding find_unit_name_loop.simps [of s fdt name p]
    by (auto simp: reaches_def bind_map_option comp_def case_prod_unfold)
qed (simp_all add: at_null)

lemma node_begin_reaches:
  assumes "bounded s fdt z"
  shows "reaches (token_at s fdt FDT_BEGIN_NODE) (fdt_token_begin s fdt) (fdt_node_begin s fdt)"
proof -
  have "place s fdt z (fdt_token_begin s fdt)" using assms by (simp add: in_block_iff [OF assms]) (simp add: bounded_def)
  then show ?thesis unfolding fdt_node_begin_def by (intro loops_end)
qed

lemma search_start_ends:
  assumes "bounded s fdt z" and "start \<noteq> NULL \<Longrightarrow> in_block s fdt start"
  shows "\<exists>p. search_start s fdt start = Some p \<and> (p \<noteq> NULL \<longrightarrow> node_at s fdt z p)"
  using node_begin_reaches [OF assms(1)] iterators_pass(1) [of s fdt z start None] assms
  by (auto simp: search_start_def passes_def reaches_def)

lemma searches_end:
  assumes "bounded s fdt z" and "start \<noteq> NULL \<Longrightarrow> in_block s fdt start" and "cstr s str cs"
  shows "\<exists>p. fdt_find_node_by_device_type s fdt start str = Some p \<and> (p \<noteq> NULL \<longrightarrow> token_at s fdt FDT_BEGIN_NODE p)"
    and "\<exists>p. fdt_find_node_by_unit_name s fdt start str = Some p \<and> (p \<noteq> NULL \<longrightarrow> token_at s fdt FDT_BEGIN_NODE p)"
proof -
  obtain p where p: "search_start s fdt start = Some p" "p \<noteq> NULL \<Longrightarrow> node_at s fdt z p"
    using search_start_ends [OF assms(1,2)] by blast
  show "\<exists>p. fdt_find_node_by_device_type s fdt start str = Some p \<and> (p \<noteq> NULL \<longrightarrow> token_at s fdt FDT_BEGIN_NODE p)"
    using device_type_ends [OF p(2) cstr_not_null [OF assms(3)]] p(1) strlen_cstr [OF assms(3)]
    by (simp add: fdt_find_node_by_device_type_def reaches_def) blast
  show "\<exists>p. fdt_find_node_by_unit_name s fdt start str = Some p \<and> (p \<noteq> NULL \<longrightarrow> token_at s fdt FDT_BEGIN_NODE p)"
    using unit_name_ends [OF p(2) assms(3)] p(1) by (simp add: fdt_find_node_by_unit_name_def reaches_def) blast
qed

text \<open>The depth does not influence which nodes are visited.\<close>

lemma max_depth_loop_ends:
  assumes "p \<noteq> NULL \<Longrightarrow> node_at s fdt z p"
  shows "\<exists>d. max_depth_loop s fdt p depth m = Some d"
proof (cases "p = NULL")
  case True
  then show ?thesis by (simp add: max_depth_loop.simps)
next
  case False
  then have "node_at s fdt z p" using assms by simp
  then show ?thesis
  proof (induction p arbitrary: depth m rule: node_walk.walk_induct)
    case (place p)
    obtain q d where q: "fdt_next_node s fdt p (Some depth) = Some (q, d)" "q \<noteq> NULL \<longrightarrow> node_at s fdt z q \<and> unat p < unat q"
      using iterators_pass(1) [OF token_place [OF place(1)], of "Some depth"] place(1) by (auto simp: passes_def)
    then show ?case
    proof (cases "q = NULL")
      case True
      then show ?thesis using q(1) place_not_null [OF token_place [OF place(1)]]
        by (subst max_depth_loop.simps) (simp add: max_depth_loop.simps [of s fdt NULL])
    next
      case False
      then show ?thesis using q place(2) [of q] place_not_null [OF token_place [OF place(1)]]
        by (subst max_depth_loop.simps) simp
    qed
  qed
qed

lemma max_depth_ends:
  assumes "bounded s fdt z"
  shows "\<exists>d. fdt_max_depth s fdt = Some d"
proof -
  obtain p where "fdt_node_begin s fdt = Some p" "p \<noteq> NULL \<Longrightarrow> node_at s fdt z p"
    using node_begin_reaches [OF assms] assms by (auto simp: reaches_def)
  then show ?thesis using max_depth_loop_ends [of p s fdt z 0 0] by (simp add: fdt_max_depth_def)
qed

section \<open>Properties\<close>

text \<open>A machine that holds no device tree: all bytes are 1, but for one.\<close>

definition noise :: machine where
  "noise = le_machine ((\<lambda>_. 1)(0x10000000 := 0))"

lemma noise_bounded: "bounded noise 8 0x10000000" "\<not> fdt_struct_ptr_invalid noise 8 0x1010110"
proof -
  have "[0..<4] = [0, 1, 2, 3 :: nat]" by (simp add: upt_rec)
  then have "read_bytes noise 16 4 = [1, 1, 1, 1]" "read_bytes noise 44 4 = [1, 1, 1, 1]"
    by (simp_all add: read_bytes_def noise_def)
  then have w: "be32toh noise (load32 noise 16) = 0x1010101" "be32toh noise (load32 noise 44) = 0x1010101"
    by (simp_all add: be_load config_ok_def noise_def [THEN arg_cong [where f = config]] be_join_def)
  have "fdt_token_begin noise 8 = 0x1010109" "struct_end noise 8 = 0x202020a"
    by (simp_all add: fdt_token_begin_def struct_end_def fdt_at_def w)
  then show b: "bounded noise 8 0x10000000" by (simp add: bounded_def) (simp add: noise_def)
  show "\<not> fdt_struct_ptr_invalid noise 8 0x1010110"
    by (simp add: in_block_iff [OF b] \<open>fdt_token_begin noise 8 = _\<close> \<open>struct_end noise 8 = _\<close>)
qed

text \<open>C19. Whatever bytes the structure block holds, every traversal step from a place in the block returns: with a null pointer, or with a
  node or property further on, inside the block and with the right tag.  So does the search for a property by name.\<close>

theorem fdt_iterators_total:
  assumes "bounded s fdt z" and "\<not> fdt_struct_ptr_invalid s fdt p" and "cstr s name cs"
  shows "passes (token_at s fdt FDT_BEGIN_NODE) p (map_option fst (fdt_next_node s fdt p depth)) \<and>
    passes (token_at s fdt FDT_PROP) p (fdt_node_prop_begin s fdt p) \<and>
    passes (token_at s fdt FDT_PROP) p (fdt_node_next_prop s fdt p) \<and>
    passes (token_at s fdt FDT_BEGIN_NODE) p (fdt_node_subnode_begin s fdt p) \<and>
    passes (token_at s fdt FDT_BEGIN_NODE) p (fdt_node_next_subnode s fdt p) \<and>
    passes (token_at s fdt FDT_PROP) p (fdt_get_prop_by_name s fdt p NULL name)"
  using assms iterators_pass [of s fdt z p] get_prop_passes [of s fdt z p name cs] by blast

theorem fdt_iterators_total_witness:
  "passes (token_at noise 8 FDT_BEGIN_NODE) 0x1010110 (map_option fst (fdt_next_node noise 8 0x1010110 None)) \<and>
   passes (token_at noise 8 FDT_PROP) 0x1010110 (fdt_get_prop_by_name noise 8 0x1010110 NULL (Lit (bytes_of ''reg'')))"
proof -
  have "cstr noise (Lit (bytes_of ''reg'')) (bytes_of ''reg'')" by (simp add: cstr_def bytes_of_def)
  from fdt_iterators_total [OF noise_bounded this] show ?thesis by blast
qed

text \<open>C20. Whatever bytes the structure block holds, the search for a node by device type or by unit name, from the beginning or from a
  place in the block, and the computation of the depth of the tree return; a node they find is in the block and
  carries the begin-node tag.\<close>

theorem fdt_searches_total:
  assumes "bounded s fdt z" and "start = NULL \<or> \<not> fdt_struct_ptr_invalid s fdt start" and "cstr s str cs"
  shows "(\<exists>p. fdt_find_node_by_device_type s fdt start str = Some p \<and> (p \<noteq> NULL \<longrightarrow> token_at s fdt FDT_BEGIN_NODE p)) \<and>
    (\<exists>p. fdt_find_node_by_unit_name s fdt start str = Some p \<and> (p \<noteq> NULL \<longrightarrow> token_at s fdt FDT_BEGIN_NODE p)) \<and>
    (\<exists>d. fdt_max_depth s fdt = Some d)"
  using searches_end [OF assms(1) _ assms(3)] max_depth_ends [OF assms(1)] assms(2) by blast

theorem fdt_searches_total_witness:
  "(\<exists>p. fdt_find_node_by_device_type noise 8 NULL (Lit (bytes_of ''memory'')) = Some p) \<and> (\<exists>d. fdt_max_depth noise 8 = Some d)"
proof -
  have "cstr noise (Lit (bytes_of ''memory'')) (bytes_of ''memory'')" by (simp add: cstr_def bytes_of_def)
  from fdt_searches_total [OF noise_bounded(1) _ this, of NULL] show ?thesis by blast
qed

end
