(* ===== verification/Fdt_Props.thy ===== *)
theory Fdt_Props
  imports Fdt_Nodes
begin

text \<open>
  Properties of nodes.  The properties of a node are the property tokens that follow its begin-node token;
  their names are offsets into the strings block.  \<^const>\<open>fdt_get_prop_by_name\<close> is a linear search of them, and
  the values it gives access to decide the searches by \<^verbatim>\<open>compatible\<close>, \<^verbatim>\<open>device_type\<close> and \<^verbatim>\<open>phandle\<close>.
\<close>

section \<open>The properties of a node\<close>

fun prop_list :: "token list \<Rightarrow> token list list" where
  "prop_list (Prop off v # us) = (Prop off v # us) # prop_list us"
| "prop_list (Nop # us) = prop_list us"
| "prop_list us = []"

fun first_list :: "'a list list \<Rightarrow> 'a list" where
  "first_list [] = []"
| "first_list (x # xs) = x"

lemma scan_prop: "scan prop_class us = first_list (prop_list us)"
  by (induction us rule: prop_list.induct) (auto simp: prop_class_def)

lemma prop_list_suffix: "vs \<in> set (prop_list us) \<Longrightarrow> suffix vs us"
  by (induction us rule: prop_list.induct) (auto intro: suffix_ConsI)

lemma prop_list_Prop: "vs \<in> set (prop_list us) \<Longrightarrow> \<exists>off v ws. vs = Prop off v # ws"
  by (induction us rule: prop_list.induct) auto

definition prop_ptrs :: "'z machine_scheme \<Rightarrow> addr \<Rightarrow> token list \<Rightarrow> token list \<Rightarrow> addr list" where
  "prop_ptrs s fdt ts us = map (tok_ptr s fdt ts) (prop_list us)"

lemma tok_ptr_first_list: "[] \<notin> set vss \<Longrightarrow> tok_ptr s fdt ts (first_list vss) = hd_ptr (map (tok_ptr s fdt ts) vss)"
  by (cases vss) auto

lemma prop_loop_eq:
  assumes "fdt_struct s fdt ts" and "suffix us ts"
  shows "prop_loop s fdt (tok_ptr s fdt ts us) = Some (hd_ptr (prop_ptrs s fdt ts us))"
proof -
  have "[] \<notin> set (prop_list us)" by (auto dest: prop_list_Prop)
  from tok_ptr_first_list [OF this, of s fdt ts] show ?thesis
    using prop_scan.loop_cursor [of "(s, fdt, ts)" us] assms by (simp add: scan_prop prop_ptrs_def)
qed

lemma fdt_node_prop_begin_eq:
  assumes "fdt_struct s fdt ts" and "suffix (BeginNode nm # us) ts"
  shows "fdt_node_prop_begin s fdt (tok_ptr s fdt ts (BeginNode nm # us)) = Some (hd_ptr (prop_ptrs s fdt ts us))"
  using next_token [OF assms] prop_loop_eq [OF assms(1) suffix_ConsD [OF assms(2)]]
  by (simp add: fdt_node_prop_begin_def)

lemma fdt_node_next_prop_eq:
  assumes "fdt_struct s fdt ts" and "suffix (Prop off v # us) ts"
  shows "fdt_node_next_prop s fdt (tok_ptr s fdt ts (Prop off v # us)) = Some (hd_ptr (prop_ptrs s fdt ts us))"
  using next_token [OF assms] prop_loop_eq [OF assms(1) suffix_ConsD [OF assms(2)]]
  by (simp add: fdt_node_next_prop_def)

lemma chain_prop_ptrs:
  assumes "fdt_struct s fdt ts" and "suffix us ts"
  shows "chain (fdt_node_next_prop s fdt) (prop_ptrs s fdt ts us)"
  using assms(2)
proof (induction us rule: prop_list.induct)
  case (1 off v us)
  then show ?case using assms(1) suffix_ConsD [OF 1(2)] fdt_node_next_prop_eq [OF assms(1) 1(2)]
    by (simp add: prop_ptrs_def tok_ptr_not_null)
qed (auto simp: prop_ptrs_def dest: suffix_ConsD)

section \<open>Names\<close>

text \<open>The string at an offset of the strings block, if the offset lies in the block.\<close>

definition str_at :: "byte list \<Rightarrow> nat \<Rightarrow> byte list option" where
  "str_at strs off = (if off < length strs then Some (takeWhile (\<lambda>b. b \<noteq> 0) (drop off strs)) else None)"

lemma holds_drop: "holds s a bs \<Longrightarrow> holds s (a + of_nat n) (drop n bs)"
proof (cases "n \<le> length bs")
  case True
  assume "holds s a bs"
  then have "holds s a (take n bs @ drop n bs)" by simp
  then show ?thesis using True by (simp only: holds_append length_take min_absorb2)
qed simp

lemma cstr_takeWhile:
  assumes "holds s a bs" and "0 \<in> set bs" and "a \<noteq> NULL" and "length bs < 2 ^ 64"
  shows "cstr s (Mem a) (takeWhile (\<lambda>b. b \<noteq> 0) bs)"
proof -
  let ?w = "takeWhile (\<lambda>b. b \<noteq> 0) bs"
  obtain x xs where x: "dropWhile (\<lambda>b. b \<noteq> 0) bs = x # xs" "x = 0"
    using assms(2) by (cases "dropWhile (\<lambda>b. b \<noteq> 0) bs") (auto dest: dropWhile_eq_Cons_conv [THEN iffD1])
  have "bs = ?w @ [0] @ xs" using takeWhile_dropWhile_id [of "\<lambda>b. b \<noteq> 0" bs] x by simp
  then have "holds s a (?w @ [0])" using assms(1) by (metis append_assoc holds_append)
  moreover have "length ?w < 2 ^ 64" using assms(4) length_takeWhile_le [of "\<lambda>b. b \<noteq> 0" bs] by linarith
  ultimately show ?thesis using assms(3) by (auto simp: cstr_def dest: set_takeWhileD)
qed

lemma fdt_string_from_offset_eq:
  assumes "fdt_strings s fdt strs" and "n < 2 ^ 32"
  shows "fdt_string_from_offset s fdt (of_nat n) = (if n < length strs then strings_begin s fdt + of_nat n else NULL)"
proof -
  let ?b = "strings_begin s fdt"
  have b: "unat ?b + length strs < 2 ^ 64" and len: "length strs < 2 ^ 32"
    and sz: "be32toh s (size_dt_strings (fdt_at s fdt)) = of_nat (length strs)"
    using assms(1) by (simp_all add: fdt_strings_def)
  have stop: "unat (?b + ucast (be32toh s (size_dt_strings (fdt_at s fdt)))) = unat ?b + length strs"
    using unat_add_nowrap [OF b] len by (simp add: sz ucast_of_nat32)
  show ?thesis
  proof (cases "unat ?b + n < 2 ^ 64")
    case True
    then have "unat (?b + of_nat n) = unat ?b + n" by (rule unat_add_nowrap)
    then show ?thesis using stop
      by (auto simp: fdt_string_from_offset_def Let_def word_less_nat_alt word_le_nat_alt simp flip: strings_begin_def)
  next
    case False
    then have "unat (?b + of_nat n) = unat ?b + n - 2 ^ 64"
      using assms(2) unat_less64 [of ?b] by (simp add: unat_word_ariths unat_of_nat mod_if)
    then have "?b + of_nat n < ?b" using assms(2) False by (simp add: word_less_nat_alt)
    moreover have "\<not> n < length strs" using False b by simp
    ultimately show ?thesis
      by (simp add: fdt_string_from_offset_def Let_def flip: strings_begin_def)
  qed
qed

lemma prop_fields:
  assumes "fdt_struct s fdt ts" and "suffix (Prop off v # us) ts"
  defines "p \<equiv> tok_ptr s fdt ts (Prop off v # us)"
  shows "fdt_prop_name_offset s p = of_nat (unat off)" and "fdt_prop_val_len s p = of_nat (length v)"
    and "holds s (fdt_prop_val p) v" and "length v < 2 ^ 32" and "fdt_prop_val p \<noteq> NULL"
    and "unat (fdt_prop_val p) + length v < 2 ^ 64"
proof -
  obtain pre where ts: "ts = pre @ Prop off v # us" using assms(2) by (auto simp: suffix_def)
  note d = fdt_structD [OF assms(1) [unfolded ts]]
  have p: "p = fdt_token_begin s fdt + of_nat (length (toks_bytes pre))"
    unfolding p_def by (rule tok_ptr_suffix [OF ts])
  have h: "holds s p (tok_bytes (Prop off v))" using d(3) p by simp
  show len: "length v < 2 ^ 32" using d(2) by simp
  have "be32toh s (load32 s (p + 4)) = of_nat (length v)" and "be32toh s (load32 s (p + 8)) = off"
    using d(1) h by (auto simp: tok_bytes_def add.assoc intro: be32_holds)
  then show "fdt_prop_name_offset s p = of_nat (unat off)" and "fdt_prop_val_len s p = of_nat (length v)"
    using len by (simp_all add: fdt_prop_name_offset_def fdt_prop_val_len_def fdt_prop_at_def ucast_of_nat32)
  show "holds s (fdt_prop_val p) v" using h by (simp add: tok_bytes_def fdt_prop_val_def add.assoc)
  have top: "unat (fdt_token_begin s fdt) + (length (toks_bytes pre) + 12 + length v) < 2 ^ 64"
    using assms(1) length_pad [of "length v"] by (auto simp: ts fdt_struct_def length_tok_bytes)
  have val: "fdt_prop_val p = fdt_token_begin s fdt + of_nat (length (toks_bytes pre) + 12)"
    by (simp add: fdt_prop_val_def p add.assoc)
  show "fdt_prop_val p \<noteq> NULL"
    unfolding val using assms(1) top by (intro offset_not_null) (simp_all add: fdt_struct_def)
  show "unat (fdt_prop_val p) + length v < 2 ^ 64"
    unfolding val using top by (subst unat_add_nowrap) simp_all
qed

text \<open>Whether a property token carries a given name.\<close>

fun named :: "byte list \<Rightarrow> byte list \<Rightarrow> token list \<Rightarrow> bool" where
  "named strs cs (Prop off v # us) \<longleftrightarrow> str_at strs (unat off) = Some cs"
| "named strs cs us \<longleftrightarrow> False"

definition prop_name_test :: "'z machine_scheme \<Rightarrow> addr \<Rightarrow> cptr \<Rightarrow> addr \<Rightarrow> bool option" where
  "prop_name_test s fdt name prop =
     (if fdt_prop_name s fdt prop = NULL then Some False
      else do { d \<leftarrow> strcmp s name (Mem (fdt_prop_name s fdt prop)); Some (d = 0) })"

interpretation prop_search: linear_search
    "\<lambda>(s, fdt, name). fdt_node_next_prop s fdt"
    "\<lambda>(s, fdt, name). prop_name_test s fdt name"
    "\<lambda>(s, fdt, name). prop_by_name_loop s fdt name"
  by unfold_locales (clarsimp simp: prop_name_test_def prop_by_name_loop.simps)

lemma prop_name_test_eq:
  assumes "fdt_struct s fdt ts" and "fdt_strings s fdt strs" and "cstr s name cs" and "suffix us ts"
    and "vs \<in> set (prop_list us)"
  shows "prop_name_test s fdt name (tok_ptr s fdt ts vs) = Some (named strs cs vs)"
proof -
  obtain off v ws where vs: "vs = Prop off v # ws" using prop_list_Prop [OF assms(5)] by auto
  then have sfx: "suffix (Prop off v # ws) ts"
    using prop_list_suffix [OF assms(5)] assms(4) suffix_order.trans by blast
  have n: "fdt_prop_name s fdt (tok_ptr s fdt ts vs) =
      (if unat off < length strs then strings_begin s fdt + of_nat (unat off) else NULL)"
    using prop_fields(1) [OF assms(1) sfx] fdt_string_from_offset_eq [OF assms(2) unat_less32, of off]
    by (simp add: fdt_prop_name_def vs)
  show ?thesis
  proof (cases "unat off < length strs")
    case True
    let ?a = "strings_begin s fdt + of_nat (unat off)" and ?d = "drop (unat off) strs"
    have h: "holds s (strings_begin s fdt) strs" "strs \<noteq> []" "last strs = 0" "length strs < 2 ^ 32"
      "strings_begin s fdt \<noteq> NULL" "unat (strings_begin s fdt) + length strs < 2 ^ 64"
      using assms(2) by (simp_all add: fdt_strings_def)
    have nn: "?a \<noteq> NULL" using True h by (intro offset_not_null) auto
    have "last ?d = 0" "?d \<noteq> []" using True h by (simp_all add: last_drop)
    then have "0 \<in> set ?d" by (metis last_in_set)
    then have "cstr s (Mem ?a) (takeWhile (\<lambda>b. b \<noteq> 0) ?d)"
      using holds_drop [OF h(1), of "unat off"] nn h(4) by (intro cstr_takeWhile) auto
    from strcmp_cstr [OF assms(3) this] show ?thesis
      using True n nn assms(3) str_diff_eq_0 [of cs "takeWhile (\<lambda>b. b \<noteq> 0) ?d"]
      by (auto simp: prop_name_test_def vs str_at_def cstr_def dest: set_takeWhileD)
  next
    case False
    then show ?thesis using n by (simp add: prop_name_test_def vs str_at_def)
  qed
qed

definition prop_result ::
  "'z machine_scheme \<Rightarrow> addr \<Rightarrow> token list \<Rightarrow> token list option \<Rightarrow> addr" where
  "prop_result s fdt ts r = (case r of None \<Rightarrow> NULL | Some vs \<Rightarrow> tok_ptr s fdt ts vs)"

lemma find_map: "find P (map f xs) = map_option f (find (P \<circ> f) xs)"
  by (induction xs) auto

lemma search_map:
  assumes "\<And>x. x \<in> set xs \<Longrightarrow> test (f x) = Some (P x)"
  shows "search test (map f xs) = Some (case find P xs of None \<Rightarrow> NULL | Some x \<Rightarrow> f x)"
  using assms by (induction xs) auto

lemma prop_by_name_loop_eq:
  assumes "fdt_struct s fdt ts" and "fdt_strings s fdt strs" and "cstr s name cs" and "suffix us ts"
  shows "prop_by_name_loop s fdt name (hd_ptr (prop_ptrs s fdt ts us)) =
    Some (prop_result s fdt ts (find (named strs cs) (prop_list us)))"
  using prop_search.loop_chain [of "(s, fdt, name)", simplified, OF chain_prop_ptrs [OF assms(1,4)]]
    search_map [of "prop_list us" "prop_name_test s fdt name" "tok_ptr s fdt ts", OF prop_name_test_eq [OF assms]]
  by (simp add: prop_ptrs_def prop_result_def)

lemma fdt_get_prop_by_name_eq:
  assumes "fdt_struct s fdt ts" and "fdt_strings s fdt strs" and "cstr s name cs"
    and "suffix (BeginNode nm # us) ts"
  shows "fdt_get_prop_by_name s fdt (tok_ptr s fdt ts (BeginNode nm # us)) NULL name =
    Some (prop_result s fdt ts (find (named strs cs) (prop_list us)))"
  using fdt_node_prop_begin_eq [OF assms(1,4)] prop_by_name_loop_eq [OF assms(1-3) suffix_ConsD [OF assms(4)]]
  by (simp add: fdt_get_prop_by_name_def)

lemma fdt_get_prop_by_name_next_eq:
  assumes "fdt_struct s fdt ts" and "fdt_strings s fdt strs" and "cstr s name cs"
    and "suffix (Prop off v # us) ts"
  shows "fdt_get_prop_by_name s fdt node (tok_ptr s fdt ts (Prop off v # us)) name =
    Some (prop_result s fdt ts (find (named strs cs) (prop_list us)))"
  using fdt_node_next_prop_eq [OF assms(1,4)] prop_by_name_loop_eq [OF assms(1-3) suffix_ConsD [OF assms(4)]]
    tok_ptr_not_null [OF assms(1,4)]
  by (simp add: fdt_get_prop_by_name_def)

section \<open>Values\<close>

fun prop_value :: "token list \<Rightarrow> byte list" where
  "prop_value (Prop off v # us) = v"
| "prop_value us = []"

text \<open>The value of the first property of a node with a given name.\<close>

fun node_prop :: "byte list \<Rightarrow> byte list \<Rightarrow> token list \<Rightarrow> byte list option" where
  "node_prop strs cs (BeginNode nm # us) = map_option prop_value (find (named strs cs) (prop_list us))"
| "node_prop strs cs us = None"

text \<open>What a caller of \<^const>\<open>fdt_get_prop_by_name\<close> learns: a null pointer when the node has no such property,
  else a pointer through which the length and the bytes of the value can be read.\<close>

definition prop_view :: "'z machine_scheme \<Rightarrow> addr \<Rightarrow> byte list option \<Rightarrow> bool" where
  "prop_view s prop r =
     (case r of
        None \<Rightarrow> prop = NULL
      | Some v \<Rightarrow> prop \<noteq> NULL \<and> length v < 2 ^ 32 \<and> fdt_prop_val_len s prop = of_nat (length v) \<and>
                  fdt_prop_val prop \<noteq> NULL \<and> unat (fdt_prop_val prop) + length v < 2 ^ 64 \<and>
                  holds s (fdt_prop_val prop) v)"

lemma find_SomeD: "find P xs = Some x \<Longrightarrow> x \<in> set xs \<and> P x"
  by (induction xs) (auto split: if_splits)

lemma get_prop_view:
  assumes "fdt_struct s fdt ts" and "fdt_strings s fdt strs" and "cstr s name cs"
    and "suffix (BeginNode nm # us) ts"
  obtains p where "fdt_get_prop_by_name s fdt (tok_ptr s fdt ts (BeginNode nm # us)) NULL name = Some p"
    and "prop_view s p (node_prop strs cs (BeginNode nm # us))"
proof
  let ?r = "find (named strs cs) (prop_list us)"
  show "fdt_get_prop_by_name s fdt (tok_ptr s fdt ts (BeginNode nm # us)) NULL name = Some (prop_result s fdt ts ?r)"
    by (rule fdt_get_prop_by_name_eq [OF assms])
  show "prop_view s (prop_result s fdt ts ?r) (node_prop strs cs (BeginNode nm # us))"
  proof (cases ?r)
    case None
    then show ?thesis by (simp add: prop_view_def prop_result_def)
  next
    case (Some vs)
    then have vs: "vs \<in> set (prop_list us)" using find_SomeD by fast
    then obtain off v ws where eq: "vs = Prop off v # ws" using prop_list_Prop by blast
    then have sfx: "suffix (Prop off v # ws) ts"
      using prop_list_suffix [OF vs] suffix_ConsD [OF assms(4)] suffix_order.trans by blast
    show ?thesis using Some eq prop_fields [OF assms(1) sfx] tok_ptr_not_null [OF assms(1) sfx]
      by (simp add: prop_view_def prop_result_def)
  qed
qed

declare node_prop.simps [simp del]

lemma prop_view_num_cells: "prop_view s prop (Some v) \<Longrightarrow> fdt_prop_num_cells s prop = of_nat (length v div 4)"
  by (auto simp: prop_view_def fdt_prop_num_cells_def word_unat_eq_iff unat_div_distrib unat_of_nat)

text \<open>The \<^term>\<open>i\<close>-th cell of a value.\<close>

definition cell :: "byte list \<Rightarrow> nat \<Rightarrow> u32" where
  "cell v i = be_join (take 4 (drop (4 * i) v))"

lemma holds_take: "holds s a bs \<Longrightarrow> n \<le> length bs \<Longrightarrow> read_bytes s a n = take n bs"
  by (metis holds_append append_take_drop_id holds_def length_take min_absorb2)

lemma prop_view_get_cell:
  assumes "config_ok s" and "prop_view s prop (Some v)" and "i < 2 ^ 64"
  shows "fdt_prop_get_cell s prop (of_nat i) = (if i < length v div 4 then cell v i else 0)"
proof -
  have v: "length v < 2 ^ 32" "holds s (fdt_prop_val prop) v" using assms(2) by (simp_all add: prop_view_def)
  have lt: "(of_nat i :: size_t) < of_nat (length v div 4) \<longleftrightarrow> i < length v div 4"
    using assms(3) v(1) by (simp add: word_less_nat_alt unat_of_nat)
  have "read_bytes s (fdt_prop_val prop + of_nat (4 * i)) 4 = take 4 (drop (4 * i) v)" if "i < length v div 4"
    using holds_take [OF holds_drop [OF v(2), of "4 * i"], of 4] that by simp
  then show ?thesis
    using lt assms(1) prop_view_num_cells [OF assms(2)]
    by (auto simp: fdt_prop_get_cell_def be_load cell_def not_less)
qed

lemma cell_cells: "i < length ws \<Longrightarrow> cell (cells ws) i = ws ! i"
proof (induction ws arbitrary: i)
  case (Cons w ws)
  then show ?case by (cases i) (auto simp: cell_def cells_def layout_simps)
qed simp

section \<open>Lists of strings\<close>

text \<open>The strings of a \<^verbatim>\<open>compatible\<close> value, each with its terminator.\<close>

lemma length_dropWhile_tl: "bs \<noteq> [] \<Longrightarrow> length (tl (dropWhile P bs)) < length bs"
  using length_dropWhile_le [of P bs] by (cases "dropWhile P bs") (auto simp del: dropWhile_eq_Nil_conv)

function strings_of :: "byte list \<Rightarrow> byte list list" where
  "strings_of bs =
     (if bs = [] then []
      else takeWhile (\<lambda>b. b \<noteq> 0) bs # strings_of (tl (dropWhile (\<lambda>b. b \<noteq> 0) bs)))"
  by pat_completeness auto
termination
  by (relation "measure length") (auto dest: length_dropWhile_tl)

declare strings_of.simps [simp del]

definition terminated :: "byte list \<Rightarrow> bool" where
  "terminated bs \<longleftrightarrow> bs = [] \<or> last bs = 0"

lemma split_first:
  assumes "terminated bs" and "bs \<noteq> []"
  shows "bs = takeWhile (\<lambda>b. b \<noteq> 0) bs @ 0 # tl (dropWhile (\<lambda>b. b \<noteq> 0) bs)"
    and "terminated (tl (dropWhile (\<lambda>b. b \<noteq> 0) bs))" and "0 \<in> set bs"
proof -
  show z: "0 \<in> set bs" using assms by (metis last_in_set terminated_def)
  then have "dropWhile (\<lambda>b. b \<noteq> 0) bs \<noteq> []" by (auto simp: dropWhile_eq_Nil_conv)
  then obtain xs where x: "dropWhile (\<lambda>b. b \<noteq> 0) bs = 0 # xs"
    by (metis (mono_tags, lifting) hd_dropWhile list.collapse)
  then show "bs = takeWhile (\<lambda>b. b \<noteq> 0) bs @ 0 # tl (dropWhile (\<lambda>b. b \<noteq> 0) bs)"
    using takeWhile_dropWhile_id [of "\<lambda>b. b \<noteq> 0" bs] by simp
  then have "last bs = last (0 # xs)" by (metis last_appendR list.distinct(1) x list.sel(3))
  then show "terminated (tl (dropWhile (\<lambda>b. b \<noteq> 0) bs))"
    using assms x by (auto simp: terminated_def split: if_splits)
qed

lemma strings_of_cstring: "0 \<notin> set cs \<Longrightarrow> strings_of (cs @ 0 # bs) = cs # strings_of bs"
  by (subst strings_of.simps) (auto simp: takeWhile_append dropWhile_append)

lemma compatible_loop_eq:
  assumes "holds s a bs" and "terminated bs" and "cstr s compat' cs" and "length bs < 2 ^ 32"
    and "a \<noteq> NULL" and "unat a + length bs < 2 ^ 64"
  shows "compatible_loop s compat' (of_nat (length bs)) a = Some (cs \<in> set (strings_of bs))"
  using assms
proof (induction bs arbitrary: a rule: strings_of.induct)
  case (1 bs)
  show ?case
  proof (cases "bs = []")
    case True
    then show ?thesis by (simp add: compatible_loop.simps strings_of.simps)
  next
    case False
    let ?w = "takeWhile (\<lambda>b. b \<noteq> 0) bs" and ?r = "tl (dropWhile (\<lambda>b. b \<noteq> 0) bs)"
    note sp = split_first [OF 1(3) False]
    have len: "length bs = Suc (length ?w) + length ?r" using arg_cong [OF sp(1), of length] by simp
    have w: "cstr s (Mem a) ?w" using 1 sp(3) by (intro cstr_takeWhile) auto
    have d: "strcmp s (Mem a) compat' = Some (str_diff ?w cs)" by (rule strcmp_cstr [OF w 1(4)])
    have eq: "str_diff ?w cs = 0 \<longleftrightarrow> ?w = cs"
      using w 1(4) by (intro str_diff_eq_0) (auto simp: cstr_def)
    have nz: "(of_nat (length bs) :: size_t) > 0"
      using False 1(5) by (simp add: word_less_nat_alt unat_of_nat)
    have "holds s a (?w @ 0 # ?r)" using 1(2) sp(1) by simp
    then have r: "holds s (a + of_nat (Suc (length ?w))) ?r" by (simp add: add.assoc [symmetric] add.commute)
    have un: "unat (a + of_nat (Suc (length ?w))) = unat a + Suc (length ?w)"
      using 1(7) len by (intro unat_add_nowrap) simp
    have "compatible_loop s compat' (of_nat (length ?r)) (a + of_nat (Suc (length ?w))) =
        Some (cs \<in> set (strings_of ?r))"
    proof (rule 1(1) [OF False r sp(2) 1(4)])
      show "length ?r < 2 ^ 32" using 1(5) len by simp
      show "a + of_nat (Suc (length ?w)) \<noteq> NULL" using 1(6,7) len by (intro offset_not_null) auto
      show "unat (a + of_nat (Suc (length ?w))) + length ?r < 2 ^ 64" using un 1(7) len by simp
    qed
    moreover have "(of_nat (length bs) :: size_t) - (of_nat (length ?w) + 1) = of_nat (length ?r)"
      by (simp add: len)
    ultimately show ?thesis
      using nz strlen_cstr [OF w] d eq
      by (subst compatible_loop.simps, subst strings_of.simps) (auto simp: False add.commute)
  qed
qed

section \<open>Searching for nodes\<close>

definition nodes :: "token list \<Rightarrow> token list list" where
  "nodes ts = map fst (node_list 0 ts)"

lemma nodes_depth: "map fst (node_list d us) = nodes us"
  using node_list_shift [of 0 d us] by (simp add: nodes_def case_prod_beta comp_def)

lemma set_nodes_depth: "fst ` set (node_list d us) = set (nodes us)"
  using arg_cong [OF nodes_depth [of d us], of set] by simp

lemma nodes_suffix: "vs \<in> set (nodes ts) \<Longrightarrow> suffix vs ts"
  by (auto simp: nodes_def intro: node_list_suffix)

lemma nodes_BeginNode: "vs \<in> set (nodes ts) \<Longrightarrow> \<exists>nm us. vs = BeginNode nm # us"
  by (auto simp: nodes_def dest: node_list_BeginNode)

lemma nodes_after:
  assumes "BeginNode nm # us \<in> set (nodes ts)"
  shows "set (nodes us) \<subseteq> set (nodes ts)"
proof -
  have "BeginNode nm # us \<in> set (map fst (node_list d ts)) \<Longrightarrow>
      set (nodes us) \<subseteq> set (map fst (node_list d ts))" for d
    by (induction d ts rule: node_list.induct) (auto simp: set_nodes_depth)
  from this [of 0] show ?thesis using assms by (simp add: nodes_def)
qed

text \<open>Where a search starts: at the first node when \<^term>\<open>start\<close> is null, else after the node \<^term>\<open>start\<close>; in
  either case \<^term>\<open>us\<close> is the rest of the tokens.\<close>

definition start_at :: "'z machine_scheme \<Rightarrow> addr \<Rightarrow> token list \<Rightarrow> addr \<Rightarrow> token list \<Rightarrow> bool" where
  "start_at s fdt ts start us \<longleftrightarrow>
     start = NULL \<and> us = ts \<and> ts \<noteq> [] \<or>
     (\<exists>nm. BeginNode nm # us \<in> set (nodes ts) \<and> start = tok_ptr s fdt ts (BeginNode nm # us))"

lemma start_at:
  assumes "fdt_struct s fdt ts" and "start_at s fdt ts start us"
  shows "suffix us ts" and "search_start s fdt start = Some (hd_ptr (node_ptrs s fdt ts us))"
    and "set (nodes us) \<subseteq> set (nodes ts)"
proof -
  consider (first) "start = NULL" "us = ts" "ts \<noteq> []" | (after) nm where "BeginNode nm # us \<in> set (nodes ts)"
      "start = tok_ptr s fdt ts (BeginNode nm # us)"
    using assms(2) by (auto simp: start_at_def)
  then show "suffix us ts" and "search_start s fdt start = Some (hd_ptr (node_ptrs s fdt ts us))"
    and "set (nodes us) \<subseteq> set (nodes ts)"
    by (cases; simp add: search_start_NULL [OF assms(1)] search_start_node [OF assms(1)] nodes_suffix
        nodes_suffix [THEN suffix_ConsD] nodes_after)+
qed

text \<open>The first node from there on that satisfies a predicate.\<close>

definition find_node :: "(token list \<Rightarrow> bool) \<Rightarrow> token list \<Rightarrow> token list" where
  "find_node P us = (case find P (nodes us) of None \<Rightarrow> [] | Some vs \<Rightarrow> vs)"

lemma search_nodes:
  assumes "\<And>nm vs. BeginNode nm # vs \<in> set (nodes us) \<Longrightarrow>
      test (tok_ptr s fdt ts (BeginNode nm # vs)) = Some (P (BeginNode nm # vs))"
  shows "search test (node_ptrs s fdt ts us) = Some (tok_ptr s fdt ts (find_node P us))"
proof -
  have "test (tok_ptr s fdt ts vs) = Some (P vs)" if vs: "vs \<in> set (nodes us)" for vs
    using nodes_BeginNode [OF vs] assms vs by auto
  from search_map [of "nodes us" test "tok_ptr s fdt ts" P, OF this] show ?thesis
    by (simp add: node_ptrs_def nodes_def find_node_def case_prod_unfold comp_def split: option.splits)
qed

lemmas search_loops =
  compatible_search.loop_chain [of "(s, fdt, compat')" for s fdt compat', simplified]
  device_type_search.loop_chain [of "(s, fdt, type, len)" for s fdt type len, simplified]
  unit_name_search.loop_chain [of "(s, fdt, name)" for s fdt name, simplified]
  phandle_search.loop_chain [of "(s, fdt, phandle)" for s fdt phandle, simplified]

text \<open>The four predicates.\<close>

definition compatible_with :: "byte list \<Rightarrow> byte list \<Rightarrow> token list \<Rightarrow> bool" where
  "compatible_with strs cs us =
     (case node_prop strs (bytes_of ''compatible'') us of None \<Rightarrow> False | Some v \<Rightarrow> cs \<in> set (strings_of v))"

definition has_device_type :: "byte list \<Rightarrow> byte list \<Rightarrow> token list \<Rightarrow> bool" where
  "has_device_type strs cs us =
     (case node_prop strs (bytes_of ''device_type'') us of None \<Rightarrow> False | Some v \<Rightarrow> v = cs \<or> v = cs @ [0])"

definition has_phandle :: "byte list \<Rightarrow> u32 \<Rightarrow> token list \<Rightarrow> bool" where
  "has_phandle strs phandle us =
     (case node_prop strs (bytes_of ''phandle'') us of None \<Rightarrow> False | Some v \<Rightarrow> cell v 0 = phandle)"

fun has_unit_name :: "byte list \<Rightarrow> token list \<Rightarrow> bool" where
  "has_unit_name cs (BeginNode nm # us) \<longleftrightarrow> cs = (if nm = [] then bytes_of ''{DEBUG: Nameless Node}'' else nm)"
| "has_unit_name cs us \<longleftrightarrow> False"

lemma cstr_Lit: "0 \<notin> set cs \<Longrightarrow> length cs < 2 ^ 64 \<Longrightarrow> cstr s (Lit cs) cs"
  by (simp add: cstr_def)

lemma key_cstrs:
  "cstr s (Lit (bytes_of ''compatible'')) (bytes_of ''compatible'')"
  "cstr s (Lit (bytes_of ''device_type'')) (bytes_of ''device_type'')"
  "cstr s (Lit (bytes_of ''phandle'')) (bytes_of ''phandle'')"
  "cstr s (Lit (bytes_of ''reg'')) (bytes_of ''reg'')"
  "cstr s (Lit (bytes_of ''#address-cells'')) (bytes_of ''#address-cells'')"
  "cstr s (Lit (bytes_of ''#size-cells'')) (bytes_of ''#size-cells'')"
  "cstr s (Lit (bytes_of ''{DEBUG: Nameless Node}'')) (bytes_of ''{DEBUG: Nameless Node}'')"
  by (rule cstr_Lit; simp add: bytes_of_def)+

text \<open>Every \<^verbatim>\<open>compatible\<close> value ends with a terminator, and every \<^verbatim>\<open>phandle\<close> is one cell.\<close>

definition wf_compatible :: "byte list \<Rightarrow> token list \<Rightarrow> bool" where
  "wf_compatible strs ts = list_all
     (\<lambda>us. case node_prop strs (bytes_of ''compatible'') us of None \<Rightarrow> True | Some v \<Rightarrow> terminated v)
     (nodes ts)"

definition wf_phandle :: "byte list \<Rightarrow> token list \<Rightarrow> bool" where
  "wf_phandle strs ts = list_all
     (\<lambda>us. case node_prop strs (bytes_of ''phandle'') us of None \<Rightarrow> True | Some v \<Rightarrow> length v div 4 = 1)
     (nodes ts)"

lemma node_name_cstr:
  assumes "fdt_struct s fdt ts" and "suffix (BeginNode nm # us) ts"
  shows "cstr s (fdt_node_name s (tok_ptr s fdt ts (BeginNode nm # us)))
    (if nm = [] then bytes_of ''{DEBUG: Nameless Node}'' else nm)"
proof -
  obtain pre where ts: "ts = pre @ BeginNode nm # us" using assms(2) by (auto simp: suffix_def)
  let ?p = "tok_ptr s fdt ts (BeginNode nm # us)"
  note d = fdt_structD [OF assms(1) [unfolded ts]]
  have h: "holds s (?p + 4) (nm @ [0])"
    using d(3) tok_ptr_suffix [OF ts, of s fdt] by (simp add: tok_bytes_def)
  have "unat (fdt_token_begin s fdt) + (length (toks_bytes pre) + 4) < 2 ^ 64"
    using assms(1) by (simp add: ts fdt_struct_def length_tok_bytes)
  from offset_not_null [OF _ this] have "?p + 4 \<noteq> NULL"
    using assms(1) tok_ptr_suffix [OF ts, of s fdt] by (simp add: fdt_struct_def add.assoc)
  moreover have "length nm < 2 ^ 64" using d(4) by (simp add: length_tok_bytes)
  moreover have "0 \<notin> set nm" using d(2) by simp
  ultimately show ?thesis using h key_cstrs(7)
    by (cases nm) (auto simp: fdt_node_name_def cstr_def)
qed

lemma is_compatible_eq:
  assumes "fdt_struct s fdt ts" and "fdt_strings s fdt strs" and "cstr s compat' cs" and "wf_compatible strs ts"
    and "BeginNode nm # us \<in> set (nodes ts)"
  shows "fdt_node_is_compatible s fdt (tok_ptr s fdt ts (BeginNode nm # us)) compat' =
    Some (compatible_with strs cs (BeginNode nm # us))"
proof -
  obtain p where p: "fdt_get_prop_by_name s fdt (tok_ptr s fdt ts (BeginNode nm # us)) NULL
      (Lit (bytes_of ''compatible'')) = Some p"
    "prop_view s p (node_prop strs (bytes_of ''compatible'') (BeginNode nm # us))"
    using get_prop_view [OF assms(1,2) key_cstrs(1) nodes_suffix [OF assms(5)]] by blast
  show ?thesis
  proof (cases "node_prop strs (bytes_of ''compatible'') (BeginNode nm # us)")
    case None
    with p show ?thesis by (simp add: fdt_node_is_compatible_def compatible_with_def prop_view_def)
  next
    case (Some v)
    then have "terminated v"
      using assms(4,5) by (auto simp: wf_compatible_def list_all_iff split: option.splits)
    with Some p show ?thesis using compatible_loop_eq [of s "fdt_prop_val p" v compat' cs] assms(3)
      by (simp add: fdt_node_is_compatible_def compatible_with_def prop_view_def)
  qed
qed

lemma chars_cstr:
  "cstr s p cs \<Longrightarrow> chars s p (length cs) = cs"
  "cstr s p cs \<Longrightarrow> chars s p (Suc (length cs)) = cs @ [0]"
  by (rule nth_equalityI; simp add: chars_def char_at_cstr nth_append del: upt_Suc)+

lemma of_nat_inj64: "m < 2 ^ 64 \<Longrightarrow> n < 2 ^ 64 \<Longrightarrow> (of_nat m :: size_t) = of_nat n \<longleftrightarrow> m = n"
  by (simp add: word_unat_eq_iff unat_of_nat)

lemma device_type_test_eq:
  assumes "fdt_struct s fdt ts" and "fdt_strings s fdt strs" and "cstr s type cs" and "length cs < 2 ^ 32"
    and "suffix (BeginNode nm # us) ts"
  shows "device_type_test s fdt type (of_nat (length cs)) (tok_ptr s fdt ts (BeginNode nm # us)) =
    Some (has_device_type strs cs (BeginNode nm # us))"
proof -
  obtain p where p: "fdt_get_prop_by_name s fdt (tok_ptr s fdt ts (BeginNode nm # us)) NULL
      (Lit (bytes_of ''device_type'')) = Some p"
    "prop_view s p (node_prop strs (bytes_of ''device_type'') (BeginNode nm # us))"
    using get_prop_view [OF assms(1,2) key_cstrs(2) assms(5)] by blast
  show ?thesis
  proof (cases "node_prop strs (bytes_of ''device_type'') (BeginNode nm # us)")
    case None
    with p show ?thesis by (simp add: device_type_test_def has_device_type_def prop_view_def)
  next
    case (Some v)
    with p(2) have v: "p \<noteq> NULL" "length v < 2 ^ 32" "fdt_prop_val_len s p = of_nat (length v)"
      "fdt_prop_val p \<noteq> NULL" "read_bytes s (fdt_prop_val p) (length v) = v"
      by (simp_all add: prop_view_def holds_def)
    have len: "(of_nat (length v) :: size_t) = of_nat (length cs) + 1 \<longleftrightarrow> length v = Suc (length cs)"
      "(of_nat (length v) :: size_t) = of_nat (length cs) \<longleftrightarrow> length v = length cs"
      using of_nat_inj64 [of "length v" "Suc (length cs)"] of_nat_inj64 [of "length v" "length cs"] v(2) assms(4)
      by (simp_all add: add.commute)
    have m: "memcmp s type (Mem (fdt_prop_val p)) (of_nat (length v)) = Some d \<Longrightarrow> length v \<in> {length cs, Suc (length cs)} \<Longrightarrow>
        d = 0 \<longleftrightarrow> chars s type (length v) = v" for d
      using memcmp_eq [of "length v" type "Mem (fdt_prop_val p)" s] v cstr_not_null [OF assms(3)]
        str_diff_same_length [of "chars s type (length v)" v]
      by (simp add: chars_def [of s type])  (simp add: sgn_0_0)
    have "\<exists>d. memcmp s type (Mem (fdt_prop_val p)) (of_nat (length v)) = Some d"
      using v(4) cstr_not_null [OF assms(3)] by (simp add: memcmp_def)
    then obtain d where d: "memcmp s type (Mem (fdt_prop_val p)) (of_nat (length v)) = Some d" by blast
    show ?thesis using Some p(1) v(1,3) d m [OF d] chars_cstr [OF assms(3)]
      by (auto simp: device_type_test_def has_device_type_def len)
  qed
qed

lemma unit_name_test_eq:
  assumes "fdt_struct s fdt ts" and "cstr s name cs" and "suffix (BeginNode nm # us) ts"
  shows "unit_name_test s name (tok_ptr s fdt ts (BeginNode nm # us)) = Some (has_unit_name cs (BeginNode nm # us))"
proof -
  let ?nm = "if nm = [] then bytes_of ''{DEBUG: Nameless Node}'' else nm"
  have "cstr s (fdt_node_name s (tok_ptr s fdt ts (BeginNode nm # us))) ?nm"
    using node_name_cstr [OF assms(1,3)] by simp
  from strcmp_cstr [OF assms(2) this] show ?thesis
    using str_diff_eq_0 [of cs ?nm] assms(2) \<open>cstr s _ ?nm\<close> by (simp add: unit_name_test_def cstr_def)
qed

text \<open>A \<^verbatim>\<open>phandle\<close> that is not one cell.\<close>

definition odd_phandle :: "byte list \<Rightarrow> token list \<Rightarrow> bool" where
  "odd_phandle strs us =
     (case node_prop strs (bytes_of ''phandle'') us of None \<Rightarrow> False | Some v \<Rightarrow> length v div 4 \<noteq> 1)"

lemma phandle_test_any:
  assumes "fdt_struct s fdt ts" and "fdt_strings s fdt strs" and "vs \<in> set (nodes ts)"
  obtains p where "fdt_get_prop_by_name s fdt (tok_ptr s fdt ts vs) NULL (Lit (bytes_of ''phandle'')) = Some p"
    and "odd_phandle strs vs \<longleftrightarrow> p \<noteq> NULL \<and> fdt_prop_num_cells s p \<noteq> 1"
    and "phandle_test s fdt phandle (tok_ptr s fdt ts vs) = (if odd_phandle strs vs then None else Some (has_phandle strs phandle vs))"
proof -
  have cfg: "config_ok s" using assms(1) by (simp add: fdt_struct_def)
  obtain nm us where vs: "vs = BeginNode nm # us" using nodes_BeginNode [OF assms(3)] by blast
  obtain p where p: "fdt_get_prop_by_name s fdt (tok_ptr s fdt ts vs) NULL (Lit (bytes_of ''phandle'')) = Some p"
    "prop_view s p (node_prop strs (bytes_of ''phandle'') vs)"
    using get_prop_view [OF assms(1,2) key_cstrs(3)] nodes_suffix [OF assms(3)] vs by metis
  show ?thesis
  proof (cases "node_prop strs (bytes_of ''phandle'') vs")
    case None
    with p show ?thesis by (intro that [of p]) (simp_all add: phandle_test_def has_phandle_def odd_phandle_def prop_view_def)
  next
    case (Some v)
    have view: "prop_view s p (Some v)" using p(2) Some by simp
    then have nn: "p \<noteq> NULL" "length v < 2 ^ 32" by (simp_all add: prop_view_def)
    have cells: "fdt_prop_num_cells s p \<noteq> 1 \<longleftrightarrow> length v div 4 \<noteq> 1"
      using prop_view_num_cells [OF view] of_nat_inj64 [of "length v div 4" 1] nn(2) by auto
    then show ?thesis
      using Some p(1) nn(1) prop_view_get_cell [OF cfg view, of 0]
      by (intro that [of p]) (auto simp: phandle_test_def has_phandle_def odd_phandle_def)
  qed
qed

lemma find_compatible_eq:
  assumes "fdt_struct s fdt ts" and "fdt_strings s fdt strs" and "cstr s compat' cs" and "wf_compatible strs ts"
    and "start_at s fdt ts start us"
  shows "fdt_find_compatible_node s fdt start compat' =
    Some (tok_ptr s fdt ts (find_node (compatible_with strs cs) us))"
  using start_at [OF assms(1,5)] is_compatible_eq [OF assms(1-4)]
    search_nodes [of us "\<lambda>p. fdt_node_is_compatible s fdt p compat'" s fdt ts "compatible_with strs cs"]
    search_loops(1) [OF chain_node_ptrs [OF assms(1), of us 0]]
  by (auto simp: fdt_find_compatible_node_def node_ptrs_def)

lemma find_device_type_eq:
  assumes "fdt_struct s fdt ts" and "fdt_strings s fdt strs" and "cstr s type cs" and "length cs < 2 ^ 32"
    and "start_at s fdt ts start us"
  shows "fdt_find_node_by_device_type s fdt start type =
    Some (tok_ptr s fdt ts (find_node (has_device_type strs cs) us))"
proof -
  have "search (device_type_test s fdt type (of_nat (length cs))) (node_ptrs s fdt ts us) =
      Some (tok_ptr s fdt ts (find_node (has_device_type strs cs) us))"
    using start_at [OF assms(1,5)] nodes_suffix device_type_test_eq [OF assms(1-4)]
    by (intro search_nodes) auto
  then show ?thesis
    using start_at [OF assms(1,5)] search_loops(2) [OF chain_node_ptrs [OF assms(1), of us 0]]
      strlen_cstr [OF assms(3)]
    by (simp add: fdt_find_node_by_device_type_def node_ptrs_def)
qed

lemma search_find:
  assumes "\<And>x. x \<in> set xs \<Longrightarrow> test (f x) = (if Q x then None else Some (P x))"
  shows "search test (map f xs) =
    (case find (\<lambda>x. Q x \<or> P x) xs of None \<Rightarrow> Some NULL | Some x \<Rightarrow> if Q x then None else Some (f x))"
  using assms by (induction xs) auto

text \<open>The search on every tree: it has no result if a malformed \<^verbatim>\<open>phandle\<close> comes first.\<close>

lemma find_phandle_any:
  assumes "fdt_struct s fdt ts" and "fdt_strings s fdt strs" and "start_at s fdt ts start us"
  shows "fdt_find_node_by_phandle s fdt start phandle =
    (case find (\<lambda>vs. odd_phandle strs vs \<or> has_phandle strs phandle vs) (nodes us) of
       None \<Rightarrow> Some NULL | Some vs \<Rightarrow> if odd_phandle strs vs then None else Some (tok_ptr s fdt ts vs))"
proof -
  have "phandle_test s fdt phandle (tok_ptr s fdt ts vs) = (if odd_phandle strs vs then None else Some (has_phandle strs phandle vs))"
    if "vs \<in> set (nodes us)" for vs
    using phandle_test_any [OF assms(1,2)] start_at(3) [OF assms(1,3)] that by blast
  note search = search_find [of "nodes us" "phandle_test s fdt phandle" "tok_ptr s fdt ts", OF this]
  have "node_ptrs s fdt ts us = map (tok_ptr s fdt ts) (nodes us)"
    by (simp add: node_ptrs_def nodes_def comp_def case_prod_unfold)
  then show ?thesis
    using start_at [OF assms(1,3)] search search_loops(4) [OF chain_node_ptrs [OF assms(1), of us 0]]
    by (simp add: fdt_find_node_by_phandle_def node_ptrs_def)
qed

lemma find_phandle_eq:
  assumes "fdt_struct s fdt ts" and "fdt_strings s fdt strs" and "wf_phandle strs ts"
    and "start_at s fdt ts start us"
  shows "fdt_find_node_by_phandle s fdt start phandle =
    Some (tok_ptr s fdt ts (find_node (has_phandle strs phandle) us))"
proof -
  have good: "\<not> odd_phandle strs vs" if "vs \<in> set (nodes us)" for vs
    using start_at(3) [OF assms(1,4)] assms(3) that by (auto simp: odd_phandle_def wf_phandle_def list_all_iff split: option.splits)
  then have "find (\<lambda>vs. odd_phandle strs vs \<or> has_phandle strs phandle vs) (nodes us) = find (has_phandle strs phandle) (nodes us)"
    by (intro find_cong) auto
  note eq = find_phandle_any [OF assms(1,2,4), of phandle, unfolded this]
  show ?thesis
  proof (cases "find (has_phandle strs phandle) (nodes us)")
    case None
    then show ?thesis using eq by (simp add: find_node_def tok_ptr_def)
  next
    case (Some vs)
    then have "vs \<in> set (nodes us)" by (auto simp: find_Some_iff)
    then show ?thesis using eq good Some by (simp add: find_node_def)
  qed
qed

section \<open>The concrete tree\<close>

lemma bytes_of_eq [simp]: "bytes_of cs = bytes_of ds \<longleftrightarrow> cs = ds"
proof -
  have "inj (of_char :: char \<Rightarrow> byte)"
  proof (rule injI)
    fix c d :: char assume "(of_char c :: byte) = of_char d"
    then have "unat (of_nat (of_char c) :: byte) = unat (of_nat (of_char d) :: byte)" by (simp only: of_nat_of_char)
    then have "(of_char c :: nat) mod 256 = of_char d mod 256" by (simp only: unat_of_nat) simp
    then show "c = d" by simp
  qed
  then show ?thesis by (simp add: bytes_of_def inj_map_eq_map)
qed

lemma virt_names:
  "str_at virt_strings 0 = Some (bytes_of ''compatible'')"
  "str_at virt_strings 11 = Some (bytes_of ''#address-cells'')"
  "str_at virt_strings 26 = Some (bytes_of ''#size-cells'')"
  "str_at virt_strings 38 = Some (bytes_of ''device_type'')"
  "str_at virt_strings 50 = Some (bytes_of ''reg'')"
  "str_at virt_strings 54 = Some (bytes_of ''phandle'')"
  "str_at virt_strings 62 = Some (bytes_of ''regmap'')"
  "str_at virt_strings 69 = Some (bytes_of ''offset'')"
  "str_at virt_strings 76 = Some (bytes_of ''value'')"
  by (simp_all add: str_at_def virt_strings_def cstring_def bytes_of_def)

lemma virt_node_props:
  "map (node_prop virt_strings (bytes_of ''compatible'')) (nodes virt_tokens) =
     [Some (cstring ''riscv-virtio''), Some (cstring ''syscon-poweroff''), None, None,
      Some (cstring ''sifive_test1'' @ cstring ''sifive_test0'' @ cstring ''syscon'')]"
  "map (node_prop virt_strings (bytes_of ''device_type'')) (nodes virt_tokens) =
     [None, None, Some (cstring ''memory''), None, None]"
  "map (node_prop virt_strings (bytes_of ''phandle'')) (nodes virt_tokens) =
     [None, None, None, None, Some (cells [4])]"
  by (simp_all add: nodes_def virt_defs node_prop.simps virt_names)

lemma virt_node_list:
  "nodes virt_tokens = map (\<lambda>n. drop n virt_tokens) [0, 4, 10, 14, 16]"
  by (simp add: nodes_def virt_defs)

lemma strings_of_cstrings:
  "0 \<notin> set (bytes_of cs) \<Longrightarrow> strings_of (cstring cs @ bs) = bytes_of cs # strings_of bs"
  "0 \<notin> set (bytes_of cs) \<Longrightarrow> strings_of (cstring cs) = [bytes_of cs]"
  using strings_of_cstring [of "bytes_of cs" bs] strings_of_cstring [of "bytes_of cs" "[]"]
  by (simp_all add: cstring_def strings_of.simps [of "[]"])

lemma virt_names_wf: "wf_compatible virt_strings virt_tokens" "wf_phandle virt_strings virt_tokens"
proof -
  have "list_all (\<lambda>v. case v of None \<Rightarrow> True | Some v \<Rightarrow> terminated v)
      (map (node_prop virt_strings (bytes_of ''compatible'')) (nodes virt_tokens))"
    unfolding virt_node_props by (simp add: terminated_def cstring_def)
  then show "wf_compatible virt_strings virt_tokens" by (simp add: wf_compatible_def list_all_iff)
  have "list_all (\<lambda>v. case v of None \<Rightarrow> True | Some v \<Rightarrow> length v div 4 = 1)
      (map (node_prop virt_strings (bytes_of ''phandle'')) (nodes virt_tokens))"
    unfolding virt_node_props by simp
  then show "wf_phandle virt_strings virt_tokens" by (simp add: wf_phandle_def list_all_iff)
qed

lemma virt_start: "start_at virt virt_base virt_tokens NULL virt_tokens"
  by (simp add: start_at_def virt_tokens_def)

section \<open>Properties\<close>

text \<open>C13. \<^verbatim>\<open>fdt_get_prop_by_name\<close> returns the first property of the node whose name in the strings block is the given
  one, and the null pointer if the node has none; through the result the length and every byte of the value of
  that property can be read.  Given a property to resume from, it returns the first match after it.\<close>

theorem fdt_get_prop_by_name_correct:
  assumes "fdt_struct s fdt ts" and "fdt_strings s fdt strs" and "cstr s name cs"
    and "suffix (BeginNode nm # us) ts" and "suffix (Prop off v # ws) ts"
  shows "(\<exists>p. fdt_get_prop_by_name s fdt (tok_ptr s fdt ts (BeginNode nm # us)) NULL name = Some p \<and>
      p = prop_result s fdt ts (find (named strs cs) (prop_list us)) \<and>
      prop_view s p (node_prop strs cs (BeginNode nm # us))) \<and>
    fdt_get_prop_by_name s fdt node (tok_ptr s fdt ts (Prop off v # ws)) name =
      Some (prop_result s fdt ts (find (named strs cs) (prop_list ws)))"
proof -
  obtain p where "fdt_get_prop_by_name s fdt (tok_ptr s fdt ts (BeginNode nm # us)) NULL name = Some p"
    "prop_view s p (node_prop strs cs (BeginNode nm # us))"
    using get_prop_view [OF assms(1-4)] by blast
  then show ?thesis
    using fdt_get_prop_by_name_eq [OF assms(1-4)] fdt_get_prop_by_name_next_eq [OF assms(1-3,5)] by simp
qed

theorem fdt_get_prop_by_name_correct_witness:
  "\<exists>p. fdt_get_prop_by_name virt virt_base (tok_ptr virt virt_base virt_tokens virt_tokens) NULL
      (Lit (bytes_of ''compatible'')) = Some p \<and> prop_view virt p (Some (cstring ''riscv-virtio''))"
proof -
  obtain us where us: "virt_tokens = BeginNode [] # Prop 11 (cells [2]) # us" by (simp add: virt_tokens_def)
  have h: "suffix (BeginNode [] # Prop 11 (cells [2]) # us) virt_tokens"
    and "suffix (Prop 11 (cells [2]) # us) virt_tokens" by (simp_all add: us suffix_ConsI)
  from fdt_get_prop_by_name_correct [OF virt_ok(2,3) key_cstrs(1) this] show ?thesis
    using virt_node_props(1) unfolding us [symmetric] by (auto simp: virt_node_list)
qed

text \<open>\<^verbatim>\<open>fdt_prop_get_cell\<close> reads the cell at an index of a property's value, in big-endian order whatever the byte
  order of the machine, and returns 0 for every index past the last whole cell.\<close>

theorem fdt_prop_get_cell_correct:
  assumes "config_ok s" and "prop_view s prop (Some v)" and "i < 2 ^ 64"
  shows "fdt_prop_num_cells s prop = of_nat (length v div 4) \<and>
    fdt_prop_get_cell s prop (of_nat i) = (if i < length v div 4 then cell v i else 0)"
  using prop_view_num_cells [OF assms(2)] prop_view_get_cell [OF assms] by simp

theorem fdt_prop_get_cell_correct_witness:
  "\<exists>p. prop_view virt p (Some (cells [4])) \<and> fdt_prop_num_cells virt p = 1 \<and>
    fdt_prop_get_cell virt p 0 = 4 \<and> fdt_prop_get_cell virt p 1 = 0"
proof -
  have n: "nodes virt_tokens ! 4 \<in> set (nodes virt_tokens)" by (simp add: virt_node_list)
  then obtain nm us where b: "nodes virt_tokens ! 4 = BeginNode nm # us" using nodes_BeginNode by blast
  have "suffix (BeginNode nm # us) virt_tokens" using nodes_suffix [OF n] b by simp
  moreover have "node_prop virt_strings (bytes_of ''phandle'') (BeginNode nm # us) = Some (cells [4])"
    using virt_node_props(3) b by (auto simp: virt_node_list)
  ultimately obtain p where p: "prop_view virt p (Some (cells [4]))"
    using get_prop_view [OF virt_ok(2,3) key_cstrs(3)] by metis
  have cfg: "config_ok virt" by (simp add: virt_def config_ok_blob_machine)
  show ?thesis using p fdt_prop_get_cell_correct [OF cfg p, of 0] fdt_prop_get_cell_correct [OF cfg p, of 1]
    by (auto simp: cell_cells)
qed

text \<open>C14. \<^verbatim>\<open>fdt_find_compatible_node\<close> returns the first node after the starting point one of whose \<^verbatim>\<open>compatible\<close>
  strings is the given one, and the null pointer if there is none, provided that every \<^verbatim>\<open>compatible\<close> value is
  terminated.\<close>

theorem fdt_find_compatible_node_correct:
  assumes "fdt_struct s fdt ts" and "fdt_strings s fdt strs" and "cstr s compat' cs" and "wf_compatible strs ts"
    and "start_at s fdt ts start us"
  shows "fdt_find_compatible_node s fdt start compat' =
    Some (tok_ptr s fdt ts (find_node (compatible_with strs cs) us))"
  by (rule find_compatible_eq [OF assms])

theorem fdt_find_compatible_node_correct_witness:
  "fdt_find_compatible_node virt virt_base NULL (Lit (bytes_of ''syscon'')) =
    Some (tok_ptr virt virt_base virt_tokens (nodes virt_tokens ! 4))"
proof -
  have "find_node (compatible_with virt_strings (bytes_of ''syscon'')) virt_tokens = nodes virt_tokens ! 4"
    using virt_node_props(1)
    by (simp add: find_node_def compatible_with_def virt_node_list strings_of_cstrings bytes_of_eq)
      (simp add: bytes_of_def strings_of_cstrings)
  then show ?thesis
    using fdt_find_compatible_node_correct [OF virt_ok(2,3) cstr_Lit virt_names_wf(1) virt_start,
        of "bytes_of ''syscon''"]
    by (simp add: bytes_of_def)
qed

text \<open>\<^verbatim>\<open>fdt_find_node_by_device_type\<close> returns the first node after the starting point whose \<^verbatim>\<open>device_type\<close> is the
  given string, with or without its terminator, and the null pointer if there is none.\<close>

theorem fdt_find_node_by_device_type_correct:
  assumes "fdt_struct s fdt ts" and "fdt_strings s fdt strs" and "cstr s type cs" and "length cs < 2 ^ 32"
    and "start_at s fdt ts start us"
  shows "fdt_find_node_by_device_type s fdt start type =
    Some (tok_ptr s fdt ts (find_node (has_device_type strs cs) us))"
  by (rule find_device_type_eq [OF assms])

theorem fdt_find_node_by_device_type_correct_witness:
  "fdt_find_node_by_device_type virt virt_base NULL (Lit (bytes_of ''memory'')) =
    Some (tok_ptr virt virt_base virt_tokens (nodes virt_tokens ! 2))"
proof -
  have "find_node (has_device_type virt_strings (bytes_of ''memory'')) virt_tokens = nodes virt_tokens ! 2"
    using virt_node_props(2) by (simp add: find_node_def has_device_type_def virt_node_list cstring_def)
  then show ?thesis
    using fdt_find_node_by_device_type_correct [OF virt_ok(2,3) cstr_Lit _ virt_start, of "bytes_of ''memory''"]
    by (simp add: bytes_of_def)
qed

text \<open>\<^verbatim>\<open>fdt_find_node_by_unit_name\<close> returns the first node after the starting point with the given name, a
  nameless node answering to the debug name, and the null pointer if there is none.\<close>

theorem fdt_find_node_by_unit_name_correct:
  assumes "fdt_struct s fdt ts" and "cstr s name cs" and "start_at s fdt ts start us"
  shows "fdt_find_node_by_unit_name s fdt start name =
    Some (tok_ptr s fdt ts (find_node (has_unit_name cs) us))"
proof -
  have "search (unit_name_test s name) (node_ptrs s fdt ts us) =
      Some (tok_ptr s fdt ts (find_node (has_unit_name cs) us))"
    using start_at [OF assms(1,3)] nodes_suffix unit_name_test_eq [OF assms(1,2)]
    by (intro search_nodes) auto
  then show ?thesis
    using start_at [OF assms(1,3)] search_loops(3) [OF chain_node_ptrs [OF assms(1), of us 0]]
    by (simp add: fdt_find_node_by_unit_name_def node_ptrs_def)
qed

theorem fdt_find_node_by_unit_name_correct_witness:
  "fdt_find_node_by_unit_name virt virt_base NULL (Lit (bytes_of ''soc'')) =
    Some (tok_ptr virt virt_base virt_tokens (nodes virt_tokens ! 3))"
proof -
  have "find_node (has_unit_name (bytes_of ''soc'')) virt_tokens = nodes virt_tokens ! 3"
    by (simp add: find_node_def nodes_def virt_defs) (simp add: bytes_of_def)
  then show ?thesis
    using fdt_find_node_by_unit_name_correct [OF virt_ok(2) cstr_Lit virt_start, of "bytes_of ''soc''"]
    by (simp add: bytes_of_def)
qed

text \<open>\<^verbatim>\<open>fdt_find_node_by_phandle\<close> returns the first node after the starting point whose \<^verbatim>\<open>phandle\<close> is the given
  number, and the null pointer if there is none, provided that every \<^verbatim>\<open>phandle\<close> property is one cell.\<close>

theorem fdt_find_node_by_phandle_correct:
  assumes "fdt_struct s fdt ts" and "fdt_strings s fdt strs" and "wf_phandle strs ts"
    and "start_at s fdt ts start us"
  shows "fdt_find_node_by_phandle s fdt start phandle =
    Some (tok_ptr s fdt ts (find_node (has_phandle strs phandle) us))"
  by (rule find_phandle_eq [OF assms])

theorem fdt_find_node_by_phandle_correct_witness:
  "fdt_find_node_by_phandle virt virt_base NULL 4 =
    Some (tok_ptr virt virt_base virt_tokens (nodes virt_tokens ! 4))"
proof -
  have "find_node (has_phandle virt_strings 4) virt_tokens = nodes virt_tokens ! 4"
    using virt_node_props(3) by (simp add: find_node_def has_phandle_def virt_node_list cell_cells)
  then show ?thesis
    using fdt_find_node_by_phandle_correct [OF virt_ok(2,3) virt_names_wf(2) virt_start, of 4] by simp
qed

text \<open>C27. The search by \<^verbatim>\<open>phandle\<close> on every tree.  If a node whose \<^verbatim>\<open>phandle\<close> property is not one cell (an empty one, say) comes
  before every node with the number that is searched for, wherever in the tree it is, the search never returns: every call
  in the loop does, for each of the nodes, but the loop's \<^verbatim>\<open>continue\<close> does not move on to the next one.  Otherwise it returns the first
  node with the number, or null.\<close>

theorem fdt_find_node_by_phandle_stuck:
  assumes "fdt_struct s fdt ts" and "fdt_strings s fdt strs" and "start_at s fdt ts start us"
  shows "fdt_find_node_by_phandle s fdt start phandle =
      (case find (\<lambda>vs. odd_phandle strs vs \<or> has_phandle strs phandle vs) (nodes us) of
         None \<Rightarrow> Some NULL | Some vs \<Rightarrow> if odd_phandle strs vs then None else Some (tok_ptr s fdt ts vs)) \<and>
    search_start s fdt start \<noteq> None \<and>
    (\<forall>vs \<in> set (nodes us). fdt_next_node s fdt (tok_ptr s fdt ts vs) None \<noteq> None \<and>
       (\<exists>p. fdt_get_prop_by_name s fdt (tok_ptr s fdt ts vs) NULL (Lit (bytes_of ''phandle'')) = Some p \<and>
          (odd_phandle strs vs \<longleftrightarrow> p \<noteq> NULL \<and> fdt_prop_num_cells s p \<noteq> 1)))"
proof (intro conjI ballI)
  fix vs assume "vs \<in> set (nodes us)"
  then have vs: "vs \<in> set (nodes ts)" using start_at(3) [OF assms(1,3)] by blast
  then obtain nm ws where b: "vs = BeginNode nm # ws" using nodes_BeginNode by blast
  show "fdt_next_node s fdt (tok_ptr s fdt ts vs) None \<noteq> None"
    using fdt_next_node_eq [OF assms(1)] nodes_suffix [OF vs] b by simp
  show "\<exists>p. fdt_get_prop_by_name s fdt (tok_ptr s fdt ts vs) NULL (Lit (bytes_of ''phandle'')) = Some p \<and>
      (odd_phandle strs vs \<longleftrightarrow> p \<noteq> NULL \<and> fdt_prop_num_cells s p \<noteq> 1)"
    using phandle_test_any [OF assms(1,2) vs] by metis
qed (use find_phandle_any [OF assms] start_at(2) [OF assms(1,3)] in simp_all)

text \<open>A tree whose root has the number 4 and the root's child an empty \<^verbatim>\<open>phandle\<close>.\<close>

definition stuck_tokens :: "token list" where
  "stuck_tokens = [BeginNode [], Prop 0 (cells [4]), BeginNode [97], Prop 0 [], EndNode, EndNode, End]"

definition stuck_strings :: "byte list" where
  "stuck_strings = cstring ''phandle''"

theorem fdt_find_node_by_phandle_stuck_witness:
  "wf_blob 4096 [] stuck_tokens stuck_strings \<and>
   fdt_find_node_by_phandle (blob_machine 4096 (fdt_bytes [] stuck_tokens stuck_strings)) 4096 NULL 5 = None \<and>
   fdt_find_node_by_phandle (blob_machine 4096 (fdt_bytes [] stuck_tokens stuck_strings)) 4096 NULL 4 \<noteq> None"
proof -
  have wf: "wf_blob 4096 [] stuck_tokens stuck_strings"
    by (simp add: wf_blob_def stuck_tokens_def stuck_strings_def fdt_bytes_def length_tok_bytes)
      (simp add: cstring_def)
  have n: "nodes stuck_tokens = [stuck_tokens, drop 2 stuck_tokens]" by (simp add: nodes_def stuck_tokens_def)
  have name: "str_at stuck_strings 0 = Some (bytes_of ''phandle'')" by (simp add: stuck_strings_def str_at_def cstring_def) (simp add: bytes_of_def)
  have "node_prop stuck_strings (bytes_of ''phandle'') stuck_tokens = Some (cells [4])"
    "node_prop stuck_strings (bytes_of ''phandle'') (drop 2 stuck_tokens) = Some []"
    by (simp_all add: stuck_tokens_def node_prop.simps name)
  then have "\<not> odd_phandle stuck_strings stuck_tokens" "odd_phandle stuck_strings (drop 2 stuck_tokens)"
    "has_phandle stuck_strings 4 stuck_tokens" "\<not> has_phandle stuck_strings 5 stuck_tokens"
    by (simp_all add: odd_phandle_def has_phandle_def cell_cells)
  moreover have "start_at (blob_machine 4096 (fdt_bytes [] stuck_tokens stuck_strings)) 4096 stuck_tokens NULL stuck_tokens"
    by (simp add: start_at_def stuck_tokens_def)
  ultimately show ?thesis
    using wf fdt_find_node_by_phandle_stuck [OF blob_machine_ok(2,3) [OF wf]] by (simp add: n)
qed

end
