(* ===== verification/Fdt_Tree.thy ===== *)
theory Fdt_Tree
  imports Fdt_Props
begin

text \<open>
  The tree structure of a blob: the subnodes of a node and its ancestors, as the nodes begun and not yet ended
  around it; properties inherited from ancestors; register blocks; and the memory reservation entries.
\<close>

section \<open>Subnodes\<close>

text \<open>The subnodes of a node are the nodes begun at relative depth 0 in the tokens after its begin-node token,
  up to its end.\<close>

fun kids :: "nat \<Rightarrow> token list \<Rightarrow> token list list" where
  "kids d [] = []"
| "kids d (BeginNode nm # us) = (if d = 0 then [BeginNode nm # us] else []) @ kids (Suc d) us"
| "kids d (EndNode # us) = (case d of 0 \<Rightarrow> [] | Suc d' \<Rightarrow> kids d' us)"
| "kids d (End # us) = []"
| "kids d (t # us) = kids d us"

text \<open>The tokens after the end of the \<^term>\<open>d\<close> innermost open nodes.\<close>

fun skip_nodes :: "nat \<Rightarrow> token list \<Rightarrow> token list" where
  "skip_nodes 0 us = us"
| "skip_nodes (Suc d) [] = []"
| "skip_nodes (Suc d) (BeginNode nm # us) = skip_nodes (Suc (Suc d)) us"
| "skip_nodes (Suc d) (EndNode # us) = skip_nodes d us"
| "skip_nodes (Suc d) (End # us) = []"
| "skip_nodes (Suc d) (t # us) = skip_nodes (Suc d) us"

lemma kids_skip_nodes: "kids d us = kids 0 (skip_nodes d us)"
  by (induction d us rule: skip_nodes.induct) auto

lemma scan_kids: "scan subnode_class us = first_list (kids 0 us)"
proof (induction us)
  case (Cons t us)
  then show ?case by (cases t) (auto simp: subnode_class_def)
qed simp

lemma kids_suffix: "vs \<in> set (kids d us) \<Longrightarrow> suffix vs us"
  by (induction d us rule: kids.induct) (auto intro: suffix_ConsI split: if_splits nat.splits)

lemma kids_BeginNode: "vs \<in> set (kids d us) \<Longrightarrow> \<exists>nm ws. vs = BeginNode nm # ws"
  by (induction d us rule: kids.induct) (auto split: if_splits nat.splits)

lemma skip_nodes_suffix: "suffix (skip_nodes d us) us"
  by (induction d us rule: skip_nodes.induct) (auto intro: suffix_ConsI)

lemma subnode_loop_eq:
  assumes "fdt_struct s fdt ts" and "suffix us ts"
  shows "subnode_loop s fdt (tok_ptr s fdt ts us) = Some (hd_ptr (map (tok_ptr s fdt ts) (kids 0 us)))"
proof -
  have "[] \<notin> set (kids 0 us)" by (auto dest: kids_BeginNode)
  from tok_ptr_first_list [OF this, of s fdt ts] show ?thesis
    using subnode_scan.loop_cursor [of "(s, fdt, ts)" us] assms by (simp add: scan_kids)
qed

lemma after_node_loop_eq:
  assumes "fdt_struct s fdt ts" and "suffix us ts" and "us \<noteq> []" and "0 < d"
  shows "after_node_loop s fdt (tok_ptr s fdt ts us) (int d) = Some (tok_ptr s fdt ts (skip_nodes d us))"
  using assms(2-4)
proof (induction us arbitrary: d)
  case (Cons t us)
  then obtain d' where d: "d = Suc d'" by (cases d) auto
  have sfx: "suffix us ts" using Cons.prems(1) by (rule suffix_ConsD)
  have nn: "us \<noteq> [] \<Longrightarrow> tok_ptr s fdt ts us \<noteq> NULL" using tok_ptr_not_null [OF assms(1) sfx] .
  have Nil: "skip_nodes n [] = []" and pred: "int (Suc n) - 1 = int n" for n by (cases n; simp)+
  show ?case
    using nn Cons.IH [OF sfx] peek_token [OF assms(1) Cons.prems(1)] next_token [OF assms(1) Cons.prems(1)]
    by (subst after_node_loop.simps, cases t; cases "us = []"; cases d')
      (simp_all add: d Nil Let_def pred add.commute flip: of_nat_Suc)
qed simp

lemma after_node_eq:
  assumes "fdt_struct s fdt ts" and "suffix (BeginNode nm # us) ts"
  shows "fdt_next_token_after_node s fdt (tok_ptr s fdt ts (BeginNode nm # us)) =
    Some (tok_ptr s fdt ts (skip_nodes 1 us))"
proof (cases "us = []")
  case True
  then show ?thesis using assms tok_ptr_not_null [OF assms] peek_token [OF assms] next_token [OF assms]
    by (simp add: fdt_next_token_after_node_def after_node_loop.simps Let_def)
next
  case False
  have sfx: "suffix us ts" using assms(2) by (rule suffix_ConsD)
  show ?thesis
    using False tok_ptr_not_null [OF assms] tok_ptr_not_null [OF assms(1) sfx False] peek_token [OF assms]
      next_token [OF assms] after_node_loop_eq [OF assms(1) sfx False, of 1]
    by (subst fdt_next_token_after_node_def, subst after_node_loop.simps) (simp add: Let_def)
qed

lemma fdt_node_next_subnode_eq:
  assumes "fdt_struct s fdt ts" and "suffix (BeginNode nm # us) ts"
  shows "fdt_node_next_subnode s fdt (tok_ptr s fdt ts (BeginNode nm # us)) =
    Some (hd_ptr (map (tok_ptr s fdt ts) (kids 1 us)))"
proof -
  have "suffix (skip_nodes 1 us) ts"
    using skip_nodes_suffix suffix_ConsD [OF assms(2)] suffix_order.trans by blast
  then show ?thesis
    using after_node_eq [OF assms] subnode_loop_eq [OF assms(1)] kids_skip_nodes [of 1 us]
    by (simp add: fdt_node_next_subnode_def)
qed

lemma chain_kids:
  assumes "fdt_struct s fdt ts" and "suffix us ts"
  shows "chain (fdt_node_next_subnode s fdt) (map (tok_ptr s fdt ts) (kids d us))"
  using assms(2)
proof (induction d us rule: kids.induct)
  case (2 d nm us)
  then show ?case
    using fdt_node_next_subnode_eq [OF assms(1) 2(2)] tok_ptr_not_null [OF assms(1) 2(2)] suffix_ConsD [OF 2(2)]
    by auto
qed (auto dest: suffix_ConsD split: nat.splits)

lemma fdt_node_subnode_begin_eq:
  assumes "fdt_struct s fdt ts" and "suffix (BeginNode nm # us) ts"
  shows "fdt_node_subnode_begin s fdt (tok_ptr s fdt ts (BeginNode nm # us)) =
    Some (hd_ptr (map (tok_ptr s fdt ts) (kids 0 us)))"
  using next_token [OF assms] subnode_loop_eq [OF assms(1) suffix_ConsD [OF assms(2)]]
  by (simp add: fdt_node_subnode_begin_def)

section \<open>Ancestors\<close>

text \<open>Every node with its ancestors, the nodes begun and not yet ended where it begins, innermost first.\<close>

fun anc_list :: "token list list \<Rightarrow> token list \<Rightarrow> (token list \<times> token list list) list" where
  "anc_list st [] = []"
| "anc_list st (BeginNode nm # us) = (BeginNode nm # us, st) # anc_list ((BeginNode nm # us) # st) us"
| "anc_list st (EndNode # us) = anc_list (tl st) us"
| "anc_list st (End # us) = []"
| "anc_list st (t # us) = anc_list st us"

text \<open>Begin-node and end-node tokens are nested, and all nodes are ended at the end token.\<close>

fun nested :: "nat \<Rightarrow> token list \<Rightarrow> bool" where
  "nested d [] = False"
| "nested d (BeginNode nm # us) = nested (Suc d) us"
| "nested d (EndNode # us) = (0 < d \<and> nested (d - 1) us)"
| "nested d (End # us) = (d = 0)"
| "nested d (t # us) = nested d us"

lemma anc_list_node_list:
  "nested (length st) us \<Longrightarrow> node_list (int (length st)) us = map (\<lambda>(vs, st'). (vs, int (length st'))) (anc_list st us)"
proof (induction st us rule: anc_list.induct)
  case (2 st nm us)
  then show ?case by (simp add: add.commute)
next
  case (3 st us)
  then show ?case by (cases st) auto
qed auto

lemma anc_list_Cons:
  assumes "anc_list st us = (vs, st') # as" and "nested (length st) us"
  shows "suffix vs us \<and> suffix st' st \<and>
    (\<exists>nm ws. vs = BeginNode nm # ws \<and> as = anc_list (vs # st') ws \<and> nested (length (vs # st')) ws)"
  using assms
proof (induction st us rule: anc_list.induct)
  case (3 st us)
  then show ?case by (cases st) (auto intro: suffix_ConsI)
qed (auto intro: suffix_ConsI)

lemma anc_list_suffix: "(vs, anc) \<in> set (anc_list st us) \<Longrightarrow> suffix vs us"
  by (induction st us rule: anc_list.induct) (auto intro: suffix_ConsI)

lemma tok_ptr_inj:
  assumes "fdt_struct s fdt ts" and "suffix us ts" and "suffix vs ts" and "tok_ptr s fdt ts us = tok_ptr s fdt ts vs"
  shows "us = vs"
proof (cases "us = [] \<or> vs = []")
  case True
  then show ?thesis
    using assms(4) tok_ptr_not_null [OF assms(1,2)] tok_ptr_not_null [OF assms(1,3)]
    by (cases "us = []"; cases "vs = []") auto
next
  case False
  let ?n = "\<lambda>us. length (toks_bytes ts) - length (toks_bytes us)"
  have b: "length (toks_bytes ts) < 2 ^ 32" using assms(1) by (simp add: fdt_struct_def)
  have "(of_nat (?n us) :: addr) = of_nat (?n vs)" using False assms(4) by (simp add: tok_ptr_def)
  moreover have "?n us < 2 ^ 64" "?n vs < 2 ^ 64" using b by simp_all
  ultimately have "?n us = ?n vs" using of_nat_inj64 [of "?n us" "?n vs"] by blast
  moreover obtain as where "ts = as @ us" using assms(2) by (auto simp: suffix_def)
  moreover obtain bs where "ts = bs @ vs" using assms(3) by (auto simp: suffix_def)
  ultimately have len: "length (toks_bytes us) = length (toks_bytes vs)"
    by (metis diff_diff_cancel le_add2 length_append toks_bytes_simps(3))
  have "suffix us vs \<or> suffix vs us" using assms(2,3) by (rule suffix_same_cases)
  then show ?thesis using len by (auto simp: suffix_def)
qed

text \<open>The array \<^verbatim>\<open>curr_branch\<close> holds the ancestors of the current node at the indices of their depths.\<close>

definition branch_ok :: "'z machine_scheme \<Rightarrow> addr \<Rightarrow> token list \<Rightarrow> (int \<rightharpoonup> addr) \<Rightarrow> token list list \<Rightarrow> bool" where
  "branch_ok s fdt ts br st \<longleftrightarrow> (\<forall>i < length st. br (int i) = Some (tok_ptr s fdt ts (rev st ! i)))"

lemma branch_ok_suffix: "branch_ok s fdt ts br st \<Longrightarrow> suffix st' st \<Longrightarrow> branch_ok s fdt ts br st'"
  by (auto simp: branch_ok_def suffix_def nth_append)

lemma branch_ok_Cons:
  "branch_ok s fdt ts br st \<Longrightarrow> branch_ok s fdt ts (br(int (length st) \<mapsto> tok_ptr s fdt ts vs)) (vs # st)"
  by (auto simp: branch_ok_def nth_append less_Suc_eq)

lemma copy_parents_eq:
  assumes "branch_ok s fdt ts br st" and "n \<le> length st"
  shows "copy_parents br (int (length st)) n = Some (map (tok_ptr s fdt ts) (take n st))"
  using assms(2)
proof (induction n)
  case (Suc n)
  obtain k where k: "length st = Suc n + k" using Suc.prems le_Suc_ex by blast
  then have "int (length st) - int (n + 1) = int k" by simp
  moreover have "br (int k) = Some (tok_ptr s fdt ts (st ! n))"
    using assms(1) k by (simp add: branch_ok_def rev_nth)
  ultimately show ?case using Suc by (simp add: take_Suc_conv_app_nth)
qed simp

lemma parents_loop_eq:
  assumes "fdt_struct s fdt ts" and "suffix us ts" and "nested (length st) us" and "anc_list st us = as"
    and "branch_ok s fdt ts br st" and "(vs, anc) \<in> set as" and "suffix vs ts"
    and "\<forall>(ws, st') \<in> set as. int (length st') \<le> m"
  shows "\<exists>br'. parents_loop s fdt (tok_ptr s fdt ts vs) m
      (hd_ptr (map (tok_ptr s fdt ts \<circ> fst) as)) (int (length (snd (hd as)))) br =
    Some (Inr (int (length anc), br')) \<and> branch_ok s fdt ts br' anc"
  using assms(2-6,8)
proof (induction as arbitrary: us st br)
  case (Cons a as)
  obtain ws st' where a: "a = (ws, st')" by force
  from anc_list_Cons [OF Cons.prems(3) [unfolded a] Cons.prems(2)] obtain nm xs
    where ws: "ws = BeginNode nm # xs" "suffix ws us" "suffix st' st" "as = anc_list (ws # st') xs"
      "nested (length (ws # st')) xs" by blast
  have sfx: "suffix ws ts" using ws(2) Cons.prems(1) suffix_order.trans by blast
  have nn: "tok_ptr s fdt ts ws \<noteq> NULL" using tok_ptr_not_null [OF assms(1) sfx] ws(1) by simp
  have br: "branch_ok s fdt ts br st'" using branch_ok_suffix [OF Cons.prems(4) ws(3)] .
  show ?case
  proof (cases "ws = vs \<and> st' = anc")
    case True
    then show ?thesis using nn br by (subst parents_loop.simps) (simp add: a)
  next
    case False
    then have in_as: "(vs, anc) \<in> set as" using Cons.prems(5) a by auto
    have "length vs < length ws"
      using anc_list_suffix [of vs anc "ws # st'" xs] in_as ws(1,4) by (auto dest: suffix_length_le)
    then have ne: "tok_ptr s fdt ts ws \<noteq> tok_ptr s fdt ts vs"
      using tok_ptr_inj [OF assms(1) sfx assms(7)] by auto
    have ns: "node_list 1 xs = map (\<lambda>(ys, st''). (ys, int (length st'') - int (length st'))) as"
      using anc_list_node_list [OF ws(5)]
        node_list_shift [of "int (length (ws # st'))" "- int (length st')" xs]
      by (simp add: ws(4) comp_def case_prod_unfold)
    obtain b as' where as: "as = b # as'" using in_as by (cases as) auto
    have "fdt_next_node s fdt (tok_ptr s fdt ts ws) (Some (int (length st'))) =
        Some (tok_ptr s fdt ts (fst b), Some (int (length (snd b))))"
      using fdt_next_node_eq [OF assms(1) sfx [unfolded ws(1)]] ns
      by (simp add: ws(1) next_result_def as case_prod_unfold)
    moreover have "int (length st') \<le> m" using Cons.prems(6) a by auto
    ultimately have "parents_loop s fdt (tok_ptr s fdt ts vs) m (tok_ptr s fdt ts ws) (int (length st')) br =
        parents_loop s fdt (tok_ptr s fdt ts vs) m (tok_ptr s fdt ts (fst b)) (int (length (snd b)))
          (br(int (length st') \<mapsto> tok_ptr s fdt ts ws))"
      using nn ne by (subst parents_loop.simps) simp
    moreover have "suffix xs ts" using sfx ws(1) by (auto dest: suffix_ConsD)
    ultimately show ?thesis
      using Cons.IH [OF _ ws(5) ws(4) [symmetric] branch_ok_Cons [OF br] in_as] Cons.prems(6)
      by (simp add: a as del: fun_upd_apply)
  qed
qed simp

text \<open>A well-formed structure block: one root node, properly nested.\<close>

definition wf_tree :: "token list \<Rightarrow> bool" where
  "wf_tree ts \<longleftrightarrow> nested 0 ts \<and> anc_list [] ts \<noteq> []"

lemma wf_tree_rooted:
  assumes "wf_tree ts"
  shows "node_list 0 ts = map (\<lambda>(vs, st). (vs, int (length st))) (anc_list [] ts)" and "rooted ts" and "ts \<noteq> []"
proof -
  show ns: "node_list 0 ts = map (\<lambda>(vs, st). (vs, int (length st))) (anc_list [] ts)"
    using anc_list_node_list [of "[]" ts] assms by (simp add: wf_tree_def)
  obtain vs st as where a: "anc_list [] ts = (vs, st) # as" using assms by (cases "anc_list [] ts") (auto simp: wf_tree_def)
  from anc_list_Cons [OF this] have "st = []" using assms by (auto simp: wf_tree_def)
  then show "rooted ts" using ns a by (simp add: rooted_def)
  show "ts \<noteq> []" using a by auto
qed

lemma depth_le_max:
  assumes "wf_tree ts" and "(vs, anc) \<in> set (anc_list [] ts)"
  shows "int (length anc) \<le> Max (snd ` set (node_list 0 ts))"
proof -
  have "(vs, int (length anc)) \<in> set (node_list 0 ts)"
    using assms(2) by (force simp: wf_tree_rooted(1) [OF assms(1)])
  then show ?thesis by (intro Max_ge) (auto intro: rev_image_eqI)
qed

lemma anc_list_nodes: "wf_tree ts \<Longrightarrow> nodes ts = map fst (anc_list [] ts)"
  by (simp add: nodes_def wf_tree_rooted(1) comp_def case_prod_unfold)

lemma anc_list_length: "(vs, anc) \<in> set (anc_list st us) \<Longrightarrow> length anc \<le> length st + length us"
  by (induction st us rule: anc_list.induct) auto

lemma length_toks: "length ts \<le> length (toks_bytes ts)"
proof (induction ts)
  case (Cons t ts)
  have "1 \<le> length (tok_bytes t)" by (cases t) (auto simp: length_tok_bytes)
  with Cons show ?case by simp
qed simp

lemma get_parents_eq:
  assumes "fdt_struct s fdt ts" and "wf_tree ts" and "(vs, anc) \<in> set (anc_list [] ts)"
  shows "fdt_node_get_parents s fdt (tok_ptr s fdt ts vs) parents_len =
    (let n = min (unat parents_len) (length anc) in Some (of_nat n, map (tok_ptr s fdt ts) (take n anc)))"
proof -
  let ?m = "Max (snd ` set (node_list 0 ts))"
  note wf = wf_tree_rooted [OF assms(2)]
  have m: "fdt_max_depth s fdt = Some ?m" using fdt_max_depth_eq [OF assms(1) wf(2)] .
  have "0 \<le> ?m" using depth_le_max [OF assms(2,3)] by linarith
  have len: "length anc < 2 ^ 32"
    using anc_list_length [OF assms(3)] length_toks [of ts] assms(1) by (simp add: fdt_struct_def)
  have root: "length (snd (hd (anc_list [] ts))) = 0"
    using wf by (cases "anc_list [] ts") (auto simp: rooted_def)
  have beg: "fdt_node_begin s fdt = Some (hd_ptr (map (tok_ptr s fdt ts \<circ> fst) (anc_list [] ts)))"
    using fdt_node_begin_eq [OF assms(1) wf(3), of 0] wf(1)
    by (cases "anc_list [] ts") (auto simp: first_ptr_def)
  have "\<exists>br'. parents_loop s fdt (tok_ptr s fdt ts vs) ?m
      (hd_ptr (map (tok_ptr s fdt ts \<circ> fst) (anc_list [] ts))) (int (length (snd (hd (anc_list [] ts))))) Map.empty =
    Some (Inr (int (length anc), br')) \<and> branch_ok s fdt ts br' anc"
    using assms(2,3) depth_le_max [OF assms(2)] anc_list_suffix [OF assms(3)]
    by (intro parents_loop_eq [OF assms(1) suffix_order.refl _ refl]) (auto simp: wf_tree_def branch_ok_def)
  then obtain br where br: "parents_loop s fdt (tok_ptr s fdt ts vs) ?m
      (hd_ptr (map (tok_ptr s fdt ts \<circ> fst) (anc_list [] ts))) 0 Map.empty = Some (Inr (int (length anc), br))"
    "branch_ok s fdt ts br anc" using root by auto
  let ?n = "min (unat parents_len) (length anc)"
  have n: "(if parents_len < word_of_int (int (length anc)) then parents_len else word_of_int (int (length anc))) =
      (of_nat ?n :: size_t)"
    using len by (auto simp: word_less_nat_alt unat_of_nat min_def)
  have "unat (of_nat ?n :: size_t) = ?n" using len by (simp add: unat_of_nat)
  then show ?thesis
    using m \<open>0 \<le> ?m\<close> beg br(1) n copy_parents_eq [OF br(2), of ?n]
    by (simp add: fdt_node_get_parents_def Let_def del: of_nat_min)
qed

text \<open>The subnodes of a node are the nodes whose innermost ancestor it is.\<close>

lemma anc_list_stack:
  "(ws, st') \<in> set (anc_list st us) \<Longrightarrow> \<exists>ps qs. st' = ps @ qs \<and> suffix qs st \<and> (\<forall>p \<in> set ps. suffix p us)"
proof (induction st us rule: anc_list.induct)
  case (2 st nm us)
  show ?case
  proof (cases "(ws, st') \<in> set (anc_list ((BeginNode nm # us) # st) us)")
    case True
    then obtain ps qs where st': "st' = ps @ qs" "suffix qs ((BeginNode nm # us) # st)" "\<forall>p \<in> set ps. suffix p us"
      using 2 by blast
    show ?thesis
    proof (cases "qs = (BeginNode nm # us) # st")
      case True
      with st' have "st' = (ps @ [BeginNode nm # us]) @ st" by simp
      with st' show ?thesis by (intro exI [of _ "ps @ [BeginNode nm # us]"] exI [of _ st]) (auto intro: suffix_ConsI)
    next
      case False
      with st' show ?thesis by (auto simp: suffix_Cons intro: suffix_ConsI)
    qed
  next
    case False
    then show ?thesis using 2(2) by (intro exI [of _ "[]"] exI [of _ st]) auto
  qed
next
  case (3 st us)
  then show ?case by (cases st; simp) (metis suffix_ConsI)+
qed (simp; metis suffix_ConsI)+

lemma no_parent: "length us < length vs \<Longrightarrow> (ws, vs # anc) \<notin> set (anc_list anc us)"
  using suffix_length_le [of vs us] suffix_length_le [of "vs # anc" anc]
  by (auto dest!: anc_list_stack simp: Cons_eq_append_conv)

lemma kids_filter:
  "length us < length vs \<Longrightarrow>
    kids (length xs) us = map fst (filter (\<lambda>(ws, st). st = vs # anc) (anc_list (xs @ vs # anc) us))"
proof (induction us arbitrary: xs)
  case (Cons t us)
  then have len: "length us < length vs" by simp
  show ?case
  proof (cases t)
    case (BeginNode nm)
    then show ?thesis using Cons.IH [OF len, of "(t # us) # xs"] by simp
  next
    case EndNode
    then show ?thesis using Cons.IH [OF len] no_parent [OF len, of _ anc]
      by (cases xs) (auto simp: filter_empty_conv)
  qed (use Cons.IH [OF len, of xs] in simp_all)
qed simp

lemma children_after:
  assumes "(vs, anc) \<in> set (anc_list st ts)" and "vs = BeginNode nm # us" and "\<forall>ws \<in> set st. length ts < length ws"
  shows "filter (\<lambda>(ws, st'). st' = vs # anc) (anc_list st ts) =
    filter (\<lambda>(ws, st'). st' = vs # anc) (anc_list (vs # anc) us)"
  using assms
proof (induction st ts rule: anc_list.induct)
  case (2 st nm' ts)
  have le: "length vs \<le> length (BeginNode nm' # ts)"
    using anc_list_suffix [OF 2(2)] by (rule suffix_length_le)
  have ne: "st \<noteq> vs # anc" using 2(4) le by auto
  show ?case
  proof (cases "(vs, anc) = (BeginNode nm' # ts, st)")
    case True
    then show ?thesis using ne 2(3) by simp
  next
    case False
    have "\<forall>ws \<in> set ((BeginNode nm' # ts) # st). length ts < length ws" using 2(4) by auto
    with False 2 ne show ?thesis by auto
  qed
next
  case (3 st ts)
  have "\<forall>ws \<in> set (tl st). length ts < length ws" using 3(4) by (cases st) auto
  with 3 show ?case by simp
qed (auto dest: Suc_lessD)

lemma kids_children:
  assumes "(vs, anc) \<in> set (anc_list [] ts)" and "vs = BeginNode nm # us"
  shows "kids 0 us = map fst (filter (\<lambda>(ws, st). st = vs # anc) (anc_list [] ts))"
  using kids_filter [of us vs "[]" anc] children_after [OF assms] assms(2) by simp

section \<open>Inherited properties\<close>

text \<open>The value of a property in the first of a list of nodes that has it.\<close>

fun inherited :: "byte list \<Rightarrow> byte list \<Rightarrow> token list list \<Rightarrow> byte list option" where
  "inherited strs cs [] = None"
| "inherited strs cs (vs # vss) =
     (case node_prop strs cs vs of None \<Rightarrow> inherited strs cs vss | Some v \<Rightarrow> Some v)"

definition node_in :: "token list \<Rightarrow> token list \<Rightarrow> bool" where
  "node_in ts ws \<longleftrightarrow> suffix ws ts \<and> (\<exists>nm xs. ws = BeginNode nm # xs)"

lemma anc_list_anc:
  "(vs, anc) \<in> set (anc_list st us) \<Longrightarrow> suffix us ts \<Longrightarrow> list_all (node_in ts) st \<Longrightarrow> list_all (node_in ts) anc"
proof (induction st us rule: anc_list.induct)
  case (2 st nm us)
  have "node_in ts (BeginNode nm # us)" "suffix us ts"
    using 2(3) by (auto simp: node_in_def dest: suffix_ConsD)
  with 2 show ?case by auto
next
  case (3 st us)
  then show ?case by (cases st) (auto dest: suffix_ConsD)
qed (auto dest: suffix_ConsD)

lemma inherited_loop_view:
  assumes "fdt_struct s fdt ts" and "fdt_strings s fdt strs" and "cstr s name cs" and "list_all (node_in ts) vss"
  shows "\<exists>p. inherited_loop s fdt name (map (tok_ptr s fdt ts) vss) = Some p \<and> prop_view s p (inherited strs cs vss)"
  using assms(4)
proof (induction vss)
  case Nil
  then show ?case by (simp add: prop_view_def)
next
  case (Cons vs vss)
  obtain nm xs where vs: "vs = BeginNode nm # xs" "suffix (BeginNode nm # xs) ts"
    using Cons.prems by (auto simp: node_in_def)
  obtain p where p: "fdt_get_prop_by_name s fdt (tok_ptr s fdt ts vs) NULL name = Some p"
    "prop_view s p (node_prop strs cs vs)"
    using get_prop_view [OF assms(1-3) vs(2)] vs(1) by metis
  show ?case
  proof (cases "node_prop strs cs vs")
    case None
    then show ?thesis using p Cons by (simp add: prop_view_def)
  next
    case (Some v)
    then show ?thesis using p by (auto simp: prop_view_def)
  qed
qed

lemma max_depth_bound:
  assumes "fdt_struct s fdt ts" and "wf_tree ts"
  shows "Max (snd ` set (node_list 0 ts)) < 2 ^ 32"
proof -
  have "node_list 0 ts \<noteq> []" using assms(2) wf_tree_rooted(1) [of ts] by (simp add: wf_tree_def)
  then have "Max (snd ` set (node_list 0 ts)) \<in> snd ` set (node_list 0 ts)" by (intro Max_in) auto
  then obtain vs st where "(vs, st) \<in> set (anc_list [] ts)" "Max (snd ` set (node_list 0 ts)) = int (length st)"
    unfolding wf_tree_rooted(1) [OF assms(2)] by auto
  then show ?thesis
    using anc_list_length [of vs st "[]" ts] length_toks [of ts] assms(1) by (simp add: fdt_struct_def)
qed

lemma inherited_prop_view:
  assumes "fdt_struct s fdt ts" and "fdt_strings s fdt strs" and "cstr s name cs" and "wf_tree ts"
    and "(vs, anc) \<in> set (anc_list [] ts)"
  shows "\<exists>p. fdt_node_get_inherited_prop s fdt (tok_ptr s fdt ts vs) name = Some p \<and>
    prop_view s p (inherited strs cs (vs # anc))"
proof -
  let ?m = "Max (snd ` set (node_list 0 ts))"
  have vsn: "vs \<in> set (nodes ts)" using assms(5) by (force simp: anc_list_nodes [OF assms(4)])
  obtain nm xs where vs: "vs = BeginNode nm # xs" using nodes_BeginNode [OF vsn] by auto
  obtain p where p: "fdt_get_prop_by_name s fdt (tok_ptr s fdt ts vs) NULL name = Some p"
    "prop_view s p (node_prop strs cs vs)"
    using get_prop_view [OF assms(1-3)] nodes_suffix [OF vsn] vs by metis
  have m: "fdt_max_depth s fdt = Some ?m" "0 \<le> ?m" "int (length anc) \<le> ?m" "?m < 2 ^ 32"
    using fdt_max_depth_eq [OF assms(1)] wf_tree_rooted(2) [OF assms(4)] depth_le_max [OF assms(4,5)]
      max_depth_bound [OF assms(1,4)] by auto
  then have "unat (word_of_int ?m :: size_t) = nat ?m" by (simp add: unat_eq_nat_uint uint_word_of_int_eq take_bit_int_eq_self)
  then have "min (unat (word_of_int ?m :: size_t)) (length anc) = length anc" using m by simp
  then have par: "fdt_node_get_parents s fdt (tok_ptr s fdt ts vs) (word_of_int ?m) =
      Some (of_nat (length anc), map (tok_ptr s fdt ts) anc)"
    using get_parents_eq [OF assms(1,4,5), of "word_of_int ?m"] by simp
  obtain q where q: "inherited_loop s fdt name (map (tok_ptr s fdt ts) anc) = Some q"
    "prop_view s q (inherited strs cs anc)"
    using inherited_loop_view [OF assms(1-3)] anc_list_anc [OF assms(5) suffix_order.refl] by auto
  show ?thesis
  proof (cases "node_prop strs cs vs")
    case None
    then show ?thesis using p m(1,2) par q by (auto simp: fdt_node_get_inherited_prop_def prop_view_def)
  next
    case (Some v)
    then show ?thesis using p by (auto simp: fdt_node_get_inherited_prop_def prop_view_def)
  qed
qed

section \<open>Register blocks\<close>

text \<open>The number in the first cell of a property, with a default for a missing property.\<close>

definition first_cell :: "u32 \<Rightarrow> byte list option \<Rightarrow> u32" where
  "first_cell dflt r = (case r of None \<Rightarrow> dflt | Some v \<Rightarrow> if length v < 4 then 0 else cell v 0)"

definition address_cells :: "byte list \<Rightarrow> token list list \<Rightarrow> u32" where
  "address_cells strs vss = first_cell 2 (inherited strs (bytes_of ''#address-cells'') vss)"

definition size_cells :: "byte list \<Rightarrow> token list list \<Rightarrow> u32" where
  "size_cells strs vss = first_cell 1 (inherited strs (bytes_of ''#size-cells'') vss)"

lemma prop_view_first_cell:
  assumes "config_ok s" and "prop_view s p r"
  shows "(if p = NULL then dflt else if fdt_prop_num_cells s p = 0 then 0 else fdt_prop_get_cell s p 0) =
    first_cell dflt r"
proof (cases r)
  case None
  then show ?thesis using assms by (simp add: prop_view_def first_cell_def)
next
  case (Some v)
  note view = assms(2) [unfolded Some]
  have "length v < 2 ^ 32" "p \<noteq> NULL" using view by (simp_all add: prop_view_def)
  then show ?thesis
    using prop_view_num_cells [OF view] prop_view_get_cell [OF assms(1) view, of 0]
      of_nat_inj64 [of "length v div 4" 0]
    by (auto simp: first_cell_def Some div_greater_zero_iff)
qed

lemma address_size_cells_eq:
  assumes "fdt_struct s fdt ts" and "fdt_strings s fdt strs" and "wf_tree ts" and "(vs, anc) \<in> set (anc_list [] ts)"
  shows "fdt_node_get_address_cells s fdt (tok_ptr s fdt ts vs) = Some (address_cells strs (vs # anc))"
    and "fdt_node_get_size_cells s fdt (tok_ptr s fdt ts vs) = Some (size_cells strs (vs # anc))"
proof -
  have cfg: "config_ok s" using assms(1) by (simp add: fdt_struct_def)
  show "fdt_node_get_address_cells s fdt (tok_ptr s fdt ts vs) = Some (address_cells strs (vs # anc))"
    using inherited_prop_view [OF assms(1,2) key_cstrs(5) assms(3,4)] prop_view_first_cell [OF cfg, where dflt = 2]
    by (auto simp: fdt_node_get_address_cells_def address_cells_def simp del: inherited.simps)
  show "fdt_node_get_size_cells s fdt (tok_ptr s fdt ts vs) = Some (size_cells strs (vs # anc))"
    using inherited_prop_view [OF assms(1,2) key_cstrs(6) assms(3,4)] prop_view_first_cell [OF cfg, where dflt = 1]
    by (auto simp: fdt_node_get_size_cells_def size_cells_def simp del: inherited.simps)
qed

text \<open>A number of one or two cells at a byte offset of a value.\<close>

definition num_at :: "u32 \<Rightarrow> byte list \<Rightarrow> nat \<Rightarrow> u64" where
  "num_at n v off =
     (if n = 1 then ucast (be_join (take 4 (drop off v)) :: u32) else be_join (take 8 (drop off v)))"

lemma read_cells_eq:
  assumes "config_ok s" and "holds s a v" and "off + 4 * unat n \<le> length v"
  shows "read_cells s n (a + of_nat off) = (if n = 1 \<or> n = 2 then Some (num_at n v off) else None)"
  using assms holds_take [OF holds_drop [OF assms(2), of off], of 4] holds_take [OF holds_drop [OF assms(2), of off], of 8]
  by (auto simp: read_cells_def num_at_def be_load)

text \<open>The block the code reads for an index, with \<^term>\<open>a\<close> address cells and \<^term>\<open>n\<close> size cells: at byte \<^term>\<open>off\<close>.\<close>

definition reg_block :: "u32 \<Rightarrow> u32 \<Rightarrow> byte list \<Rightarrow> nat \<Rightarrow> addr \<times> size_t" where
  "reg_block a n v off =
     (if a \<in> {1, 2} \<and> n \<in> {1, 2} then (num_at a v off, num_at n v (off + 4 * unat a)) else (NULL, 0))"

lemma get_register_block_eq:
  fixes i :: nat
  assumes "fdt_struct s fdt ts" and "fdt_strings s fdt strs" and "wf_tree ts" and "(vs, anc) \<in> set (anc_list [] ts)"
    and "node_prop strs (bytes_of ''reg'') vs = Some v"
    and a: "a = address_cells strs (vs # anc)" and n: "n = size_cells strs (vs # anc)"
    and small: "a \<in> {1, 2}" "n \<in> {1, 2}"
    and idx: "4 * (i * (unat a + unat n)) \<le> length v" and fits: "i * (unat a + unat n) + 4 * (unat a + unat n) \<le> length v"
  shows "fdt_node_get_register_block s fdt (tok_ptr s fdt ts vs) (of_nat i) =
    Some (reg_block a n v (i * (unat a + unat n)))"
proof -
  let ?b = "unat a + unat n"
  have cfg: "config_ok s" using assms(1) by (simp add: fdt_struct_def)
  have vsn: "vs \<in> set (nodes ts)" using assms(4) by (force simp: anc_list_nodes [OF assms(3)])
  obtain p where p: "fdt_get_prop_by_name s fdt (tok_ptr s fdt ts vs) NULL (Lit (bytes_of ''reg'')) = Some p"
    "prop_view s p (Some v)"
    using get_prop_view [OF assms(1,2) key_cstrs(4)] nodes_suffix [OF vsn] nodes_BeginNode [OF vsn] assms(5) by metis
  then have view: "p \<noteq> NULL" "length v < 2 ^ 32" "fdt_prop_val_len s p = of_nat (length v)"
    "holds s (fdt_prop_val p) v" by (simp_all add: prop_view_def)
  have b: "ucast (a + n) = (of_nat ?b :: size_t)" using small by auto
  have guard: "\<not> (of_nat (length v) :: size_t) < of_nat i * ucast (a + n) * 4"
  proof -
    have "of_nat i * ucast (a + n) * 4 = (of_nat (4 * (i * ?b)) :: size_t)" by (simp add: b)
    then show ?thesis using idx view(2) by (simp add: word_less_nat_alt unat_of_nat del: of_nat_mult of_nat_add)
  qed
  have ra: "read_cells s a (fdt_prop_val p + of_nat i * ucast (a + n)) = Some (num_at a v (i * ?b))"
    using read_cells_eq [OF cfg view(4), of "i * ?b" a] fits small by (auto simp: b)
  have rn: "read_cells s n (fdt_prop_val p + of_nat i * ucast (a + n) + ucast a * 4) =
      Some (num_at n v (i * ?b + 4 * unat a))"
    using read_cells_eq [OF cfg view(4), of "i * ?b + 4 * unat a" n] fits small
    by (auto simp: b add.assoc [symmetric] mult.commute)
  show ?thesis
    using p(1) view(1,3) guard ra rn small address_size_cells_eq [OF assms(1-4)]
    by (simp add: fdt_node_get_register_block_def Let_def a [symmetric] n [symmetric] reg_block_def)
qed

lemma num_register_blocks_eq:
  assumes "fdt_struct s fdt ts" and "fdt_strings s fdt strs" and "wf_tree ts" and "(vs, anc) \<in> set (anc_list [] ts)"
    and a: "a = address_cells strs (vs # anc)" and n: "n = size_cells strs (vs # anc)"
  shows "fdt_node_num_register_blocks s fdt (tok_ptr s fdt ts vs) =
    Some (case node_prop strs (bytes_of ''reg'') vs of
            None \<Rightarrow> 0
          | Some v \<Rightarrow> if a + n = 0 then 0 else of_nat (length v div 4 div unat (a + n)))"
proof -
  have vsn: "vs \<in> set (nodes ts)" using assms(4) by (force simp: anc_list_nodes [OF assms(3)])
  obtain p where p: "fdt_get_prop_by_name s fdt (tok_ptr s fdt ts vs) NULL (Lit (bytes_of ''reg'')) = Some p"
    "prop_view s p (node_prop strs (bytes_of ''reg'') vs)"
    using get_prop_view [OF assms(1,2) key_cstrs(4)] nodes_suffix [OF vsn] nodes_BeginNode [OF vsn] by metis
  show ?thesis
  proof (cases "node_prop strs (bytes_of ''reg'') vs")
    case None
    then show ?thesis using p by (simp add: fdt_node_num_register_blocks_def prop_view_def)
  next
    case (Some v)
    note view = p(2) [unfolded Some]
    have v: "length v < 2 ^ 32" "p \<noteq> NULL" using view by (simp_all add: prop_view_def)
    have u: "unat (ucast (a + n) :: size_t) = unat (a + n)"
      using unat_less32 [of "a + n"] by (simp add: unsigned_ucast_eq take_bit_nat_eq_self)
    have "length v div 4 div unat (a + n) < 2 ^ 64"
      using v(1) div_le_dividend [of "length v" 4] div_le_dividend [of "length v div 4" "unat (a + n)"]
      by (simp del: div_le_dividend)
    then have "(of_nat (length v div 4) :: size_t) div ucast (a + n) = of_nat (length v div 4 div unat (a + n))"
      using v(1) by (simp add: word_unat_eq_iff unat_div_distrib unat_of_nat u)
    then show ?thesis
      using Some p(1) v(2) prop_view_num_cells [OF view] address_size_cells_eq [OF assms(1-4)]
      by (simp add: fdt_node_num_register_blocks_def Let_def a [symmetric] n [symmetric])
  qed
qed

lemma register_block_first:
  assumes "fdt_struct s fdt ts" and "fdt_strings s fdt strs" and "wf_tree ts" and "(vs, anc) \<in> set (anc_list [] ts)"
    and "node_prop strs (bytes_of ''reg'') vs = Some v"
  defines "a \<equiv> address_cells strs (vs # anc)" and "n \<equiv> size_cells strs (vs # anc)"
  assumes "a \<in> {1, 2}" and "n \<in> {1, 2}" and "4 * (unat a + unat n) \<le> length v"
  shows "fdt_node_get_register_block s fdt (tok_ptr s fdt ts vs) 0 = Some (num_at a v 0, num_at n v (4 * unat a)) \<and>
    fdt_node_num_register_blocks s fdt (tok_ptr s fdt ts vs) = Some (of_nat (length v div (4 * (unat a + unat n))))"
proof
  show "fdt_node_get_register_block s fdt (tok_ptr s fdt ts vs) 0 = Some (num_at a v 0, num_at n v (4 * unat a))"
    using get_register_block_eq [OF assms(1-5) a_def [THEN meta_eq_to_obj_eq] n_def [THEN meta_eq_to_obj_eq] assms(8,9), of 0]
      assms(8-10) by (simp add: reg_block_def)
  have div: "length v div 4 div (unat a + unat n) = length v div (4 * (unat a + unat n))"
    by (simp only: div_mult2_eq)
  have "unat (a + n) = unat a + unat n" "a + n \<noteq> 0" using assms(8,9) by auto
  then show "fdt_node_num_register_blocks s fdt (tok_ptr s fdt ts vs) = Some (of_nat (length v div (4 * (unat a + unat n))))"
    using num_register_blocks_eq [OF assms(1-4) a_def [THEN meta_eq_to_obj_eq] n_def [THEN meta_eq_to_obj_eq]] assms(5)
    by (simp add: div)
qed

text \<open>Index 0 whatever the cell counts are, when \<^verbatim>\<open>fdt_node_num_register_blocks\<close> finds at least one block.\<close>

lemma register_block_0:
  assumes "fdt_struct s fdt ts" and "fdt_strings s fdt strs" and "wf_tree ts" and "(vs, anc) \<in> set (anc_list [] ts)"
    and "node_prop strs (bytes_of ''reg'') vs = Some v"
  defines "a \<equiv> address_cells strs (vs # anc)" and "n \<equiv> size_cells strs (vs # anc)"
  assumes "unat (a + n) \<le> length v div 4"
  shows "fdt_node_get_register_block s fdt (tok_ptr s fdt ts vs) 0 = Some (reg_block a n v 0)"
proof (cases "a \<in> {1, 2} \<and> n \<in> {1, 2}")
  case True
  then have "unat (a + n) = unat a + unat n" by auto
  then have "4 * (unat a + unat n) \<le> length v" using assms(8) by simp
  then show ?thesis using register_block_first [OF assms(1-5)] True by (simp add: reg_block_def a_def n_def)
next
  case False
  have vsn: "vs \<in> set (nodes ts)" using assms(4) by (force simp: anc_list_nodes [OF assms(3)])
  obtain p where "fdt_get_prop_by_name s fdt (tok_ptr s fdt ts vs) NULL (Lit (bytes_of ''reg'')) = Some p"
    using get_prop_view [OF assms(1,2) key_cstrs(4)] nodes_suffix [OF vsn] nodes_BeginNode [OF vsn] by metis
  then show ?thesis
    using False address_size_cells_eq [OF assms(1-4)]
    by (auto simp: fdt_node_get_register_block_def Let_def reg_block_def read_cells_def a_def [symmetric] n_def [symmetric])
qed

section \<open>The first register block\<close>

definition ancestors :: "token list \<Rightarrow> token list \<Rightarrow> token list list" where
  "ancestors ts vs = (case map_of (anc_list [] ts) vs of None \<Rightarrow> [] | Some anc \<Rightarrow> anc)"

text \<open>The first register block of a node; none if the property is too short or the cell counts add up to zero.\<close>

definition first_block :: "token list \<Rightarrow> byte list \<Rightarrow> token list \<Rightarrow> (addr \<times> size_t) option" where
  "first_block ts strs vs =
     (let a = address_cells strs (vs # ancestors ts vs); n = size_cells strs (vs # ancestors ts vs) in
      case node_prop strs (bytes_of ''reg'') vs of
        None \<Rightarrow> None
      | Some v \<Rightarrow> if a + n = 0 \<or> length v div 4 < unat (a + n) then None else Some (reg_block a n v 0))"

text \<open>How many blocks the \<^verbatim>\<open>reg\<close> property of a node holds.\<close>

definition block_count :: "token list \<Rightarrow> byte list \<Rightarrow> token list \<Rightarrow> nat" where
  "block_count ts strs vs =
     (let k = address_cells strs (vs # ancestors ts vs) + size_cells strs (vs # ancestors ts vs) in
      case node_prop strs (bytes_of ''reg'') vs of
        None \<Rightarrow> 0 | Some v \<Rightarrow> if k = 0 then 0 else length v div 4 div unat k)"

lemma ancestors_in:
  assumes "wf_tree ts" and "vs \<in> set (nodes ts)"
  shows "(vs, ancestors ts vs) \<in> set (anc_list [] ts)"
proof -
  have "vs \<in> fst ` set (anc_list [] ts)" using assms by (simp add: anc_list_nodes)
  then obtain anc where "map_of (anc_list [] ts) vs = Some anc" by (metis map_of_eq_None_iff option.exhaust)
  then show ?thesis by (simp add: ancestors_def map_of_SomeD)
qed

lemma block_count_eq:
  assumes "fdt_struct s fdt ts" and "fdt_strings s fdt strs" and "wf_tree ts" and "vs \<in> set (nodes ts)"
  shows "fdt_node_num_register_blocks s fdt (tok_ptr s fdt ts vs) = Some (of_nat (block_count ts strs vs))"
    and "block_count ts strs vs < 2 ^ 32" and "block_count ts strs vs = 0 \<longleftrightarrow> first_block ts strs vs = None"
    and "first_block ts strs vs = Some b \<Longrightarrow> fdt_node_get_register_block s fdt (tok_ptr s fdt ts vs) 0 = Some b"
proof -
  let ?anc = "ancestors ts vs"
  note at = ancestors_in [OF assms(3,4)]
  define a where "a = address_cells strs (vs # ?anc)"
  define n where "n = size_cells strs (vs # ?anc)"
  note defs = block_count_def first_block_def Let_def a_def [symmetric] n_def [symmetric]
  have v: "length v < 2 ^ 32" if "node_prop strs (bytes_of ''reg'') vs = Some v" for v
  proof -
    obtain nm us where vs: "vs = BeginNode nm # us" using nodes_BeginNode [OF assms(4)] by blast
    obtain p where "prop_view s p (node_prop strs (bytes_of ''reg'') vs)"
      using get_prop_view [OF assms(1,2) key_cstrs(4) nodes_suffix [OF assms(4) [unfolded vs]]] unfolding vs by blast
    then show ?thesis by (simp add: that prop_view_def)
  qed
  show "fdt_node_num_register_blocks s fdt (tok_ptr s fdt ts vs) = Some (of_nat (block_count ts strs vs))"
    unfolding num_register_blocks_eq [OF assms(1-3) at a_def n_def] defs by (cases "node_prop strs (bytes_of ''reg'') vs") simp_all
  have "length v div 4 div k < 2 ^ 32" if "node_prop strs (bytes_of ''reg'') vs = Some v" for v k
    using v [OF that] div_le_dividend [of "length v" 4] div_le_dividend [of "length v div 4" k] by linarith
  then show "block_count ts strs vs < 2 ^ 32"
    unfolding defs by (cases "node_prop strs (bytes_of ''reg'') vs") simp_all
  show "block_count ts strs vs = 0 \<longleftrightarrow> first_block ts strs vs = None"
    unfolding defs by (cases "node_prop strs (bytes_of ''reg'') vs") (auto simp: div_eq_0_iff unat_eq_0)
  show "fdt_node_get_register_block s fdt (tok_ptr s fdt ts vs) 0 = Some b" if "first_block ts strs vs = Some b"
    using that unfolding defs
    by (cases "node_prop strs (bytes_of ''reg'') vs")
      (auto simp: not_less a_def n_def dest: register_block_0 [OF assms(1-3) at] split: if_splits)
qed

lemma find_node_in: "find_node P ts \<noteq> [] \<Longrightarrow> find_node P ts \<in> set (nodes ts)"
  by (auto simp: find_node_def dest: find_SomeD split: option.splits)

lemma find_node_null:
  assumes "fdt_struct s fdt ts"
  shows "tok_ptr s fdt ts (find_node P ts) = NULL \<longleftrightarrow> find_node P ts = []"
  using find_node_in [of P ts] nodes_suffix [of _ ts] tok_ptr_not_null [OF assms] by auto

section \<open>Memory reservations\<close>

definition rsv_ptr :: "'z machine_scheme \<Rightarrow> addr \<Rightarrow> nat \<Rightarrow> addr" where
  "rsv_ptr s fdt i = rsv_begin s fdt + of_nat (16 * i)"

lemma be64toh_eq_0: "be64toh s x = 0 \<longleftrightarrow> x = 0"
proof -
  have "bswap64 (bswap64 x) = x"
    using bswap_be_join(3) [of "le_bytes 8 x"]
    by (simp add: be_join_def le_join_le_bytes take_bit_word_eq_self flip: bswap64_def)
  moreover have "bswap64 0 = 0" by (rule bit_word_eqI) (simp add: bit_bswap64)
  ultimately have "bswap64 x = 0 \<longleftrightarrow> x = 0" by metis
  then show ?thesis by (simp add: be64toh_def)
qed

lemma holds_rsv:
  "holds s a (rsv_bytes es) \<Longrightarrow> i < length es \<Longrightarrow>
    holds s (a + of_nat (16 * i)) (be_bytes 8 (fst (es ! i)) @ be_bytes 8 (snd (es ! i)))"
proof (induction es arbitrary: a i)
  case (Cons e es)
  have "holds s (a + 16) (rsv_bytes es)" using Cons.prems(1) by (simp add: rsv_bytes_def case_prod_unfold add.assoc)
  from Cons.IH [OF this] Cons.prems show ?case
    by (cases i) (simp_all add: rsv_bytes_def case_prod_unfold algebra_simps)
qed simp

lemma reserved_entry:
  assumes "fdt_reserved s fdt es" and "i < length es + 1"
  defines "e \<equiv> (es @ [(0, 0)]) ! i"
  shows "fdt_reserve_entry_address s (rsv_ptr s fdt i) = fst e" and "fdt_reserve_entry_size s (rsv_ptr s fdt i) = snd e"
    and "entry_address (fdt_reserve_entry_at s (rsv_ptr s fdt i)) = 0 \<and>
      entry_size (fdt_reserve_entry_at s (rsv_ptr s fdt i)) = 0 \<longleftrightarrow> i = length es"
proof -
  have cfg: "config_ok s" and h: "holds s (rsv_begin s fdt) (rsv_bytes (es @ [(0, 0)]))" and nz: "(0, 0) \<notin> set es"
    using assms(1) by (simp_all add: fdt_reserved_def)
  have "holds s (rsv_ptr s fdt i) (be_bytes 8 (fst e) @ be_bytes 8 (snd e))"
    unfolding rsv_ptr_def e_def using assms(2) by (intro holds_rsv [OF h]) simp
  then show a: "fdt_reserve_entry_address s (rsv_ptr s fdt i) = fst e"
    and n: "fdt_reserve_entry_size s (rsv_ptr s fdt i) = snd e"
    using cfg by (simp_all add: fdt_reserve_entry_address_def fdt_reserve_entry_size_def fdt_reserve_entry_at_def be64_holds)
  have "i < length es \<Longrightarrow> es ! i \<noteq> (0, 0)" using nz by (metis nth_mem)
  then have "e = (0, 0) \<longleftrightarrow> i = length es" using assms(2) by (auto simp: e_def nth_append)
  then show "entry_address (fdt_reserve_entry_at s (rsv_ptr s fdt i)) = 0 \<and>
      entry_size (fdt_reserve_entry_at s (rsv_ptr s fdt i)) = 0 \<longleftrightarrow> i = length es"
    using a n by (simp add: fdt_reserve_entry_address_def fdt_reserve_entry_size_def be64toh_eq_0 prod_eq_iff)
      (metis be64toh_eq_0)
qed

lemma reserve_begin_eq:
  assumes "fdt_reserved s fdt es"
  shows "fdt_reserve_entry_begin s fdt = (if es = [] then NULL else rsv_ptr s fdt 0)"
  using reserved_entry(3) [OF assms, of 0]
  by (simp add: fdt_reserve_entry_begin_def Let_def rsv_ptr_def flip: rsv_begin_def)

lemma reserve_next_eq:
  assumes "fdt_reserved s fdt es" and "i < length es"
  shows "fdt_next_reserve_entry s fdt (rsv_ptr s fdt i) = (if Suc i < length es then rsv_ptr s fdt (Suc i) else NULL)"
proof -
  let ?r = "rsv_begin s fdt" and ?t = "fdt_token_begin s fdt"
  have top: "unat ?r + 16 * (length es + 1) \<le> unat ?t" using assms(1) by (simp add: fdt_reserved_def)
  have nx: "rsv_ptr s fdt i + 16 = rsv_ptr s fdt (Suc i)" by (simp add: rsv_ptr_def algebra_simps)
  have last: "rsv_ptr s fdt (Suc i) + 15 = ?r + of_nat (16 * Suc i + 15)" by (simp add: rsv_ptr_def algebra_simps)
  have "unat (?r + of_nat (16 * Suc i + 15)) = unat ?r + (16 * Suc i + 15)"
    using top assms(2) unat_less64 [of ?t] by (intro unat_add_nowrap) simp
  then have "\<not> fdt_memrsv_ptr_invalid s fdt (rsv_ptr s fdt (Suc i) + 15)"
    unfolding last using top assms(2)
    by (simp add: fdt_memrsv_ptr_invalid_def Let_def word_less_nat_alt word_le_nat_alt
        flip: rsv_begin_def fdt_token_begin_def del: of_nat_add of_nat_mult of_nat_Suc)
  then show ?thesis
    using reserved_entry(3) [OF assms(1), of "Suc i"] assms(2)
    by (auto simp: fdt_next_reserve_entry_def Let_def nx)
qed

section \<open>Properties\<close>

lemma anc_list_nodes': "(vs, anc) \<in> set (anc_list st us) \<Longrightarrow> node_in us vs"
  by (induction st us rule: anc_list.induct) (auto simp: node_in_def intro: suffix_ConsI)

lemma virt_tree:
  "wf_tree virt_tokens"
  "map (\<lambda>(vs, st). (length vs, map length st)) (anc_list [] virt_tokens) =
    [(24, []), (20, [24]), (14, [24]), (10, [24]), (8, [10, 24])]"
  by (simp_all add: wf_tree_def virt_defs)

lemma virt_anc:
  "anc_list [] virt_tokens =
    [(drop 0 virt_tokens, []), (drop 4 virt_tokens, [virt_tokens]), (drop 10 virt_tokens, [virt_tokens]),
     (drop 14 virt_tokens, [virt_tokens]), (drop 16 virt_tokens, [drop 14 virt_tokens, virt_tokens])]"
  by (simp add: virt_defs)

lemma virt_cells:
  "inherited virt_strings (bytes_of ''#address-cells'') [drop 16 virt_tokens, drop 14 virt_tokens, virt_tokens] =
    Some (cells [2])"
  "address_cells virt_strings [drop 16 virt_tokens, drop 14 virt_tokens, virt_tokens] = 2"
  "size_cells virt_strings [drop 16 virt_tokens, drop 14 virt_tokens, virt_tokens] = 2"
  "node_prop virt_strings (bytes_of ''reg'') (drop 16 virt_tokens) = Some (cells [0, 0x100000, 0, 0x1000])"
  by (simp_all add: address_cells_def size_cells_def first_cell_def virt_defs node_prop.simps virt_names cell_cells)

text \<open>C25. \<^verbatim>\<open>fdt_node_get_parents\<close> copies the ancestors of a node, the parent first and the root last, as many as fit,
  and returns their number.\<close>

theorem fdt_node_get_parents_correct:
  assumes "fdt_struct s fdt ts" and "wf_tree ts" and "(vs, anc) \<in> set (anc_list [] ts)"
  shows "fdt_node_get_parents s fdt (tok_ptr s fdt ts vs) parents_len =
    (let n = min (unat parents_len) (length anc) in Some (of_nat n, map (tok_ptr s fdt ts) (take n anc)))"
  using assms by (rule get_parents_eq)

theorem fdt_node_get_parents_correct_witness:
  "fdt_node_get_parents virt virt_base (tok_ptr virt virt_base virt_tokens (drop 16 virt_tokens)) 5 =
    Some (2, map (tok_ptr virt virt_base virt_tokens) [drop 14 virt_tokens, virt_tokens])"
  using fdt_node_get_parents_correct
    [OF virt_ok(2) virt_tree(1), of "drop 16 virt_tokens" "[drop 14 virt_tokens, virt_tokens]" 5]
  by (simp add: virt_anc)

text \<open>C26. \<^verbatim>\<open>fdt_node_subnode_begin\<close> and \<^verbatim>\<open>fdt_node_next_subnode\<close> enumerate exactly the nodes whose parent is the given
  node, in document order, and end with the null pointer.\<close>

theorem fdt_subnodes_correct:
  assumes "fdt_struct s fdt ts" and "(vs, anc) \<in> set (anc_list [] ts)"
  defines "ps \<equiv> map (\<lambda>(ws, st). tok_ptr s fdt ts ws) (filter (\<lambda>(ws, st). st = vs # anc) (anc_list [] ts))"
  shows "fdt_node_subnode_begin s fdt (tok_ptr s fdt ts vs) = Some (hd_ptr ps) \<and>
    chain (fdt_node_next_subnode s fdt) ps"
proof -
  have "node_in ts vs" using anc_list_nodes' [OF assms(2)] .
  then obtain nm us where vs: "vs = BeginNode nm # us" "suffix (BeginNode nm # us) ts" by (auto simp: node_in_def)
  have "ps = map (tok_ptr s fdt ts) (kids 0 us)"
    by (simp add: ps_def kids_children [OF assms(2) vs(1)] case_prod_unfold)
  then show ?thesis
    using fdt_node_subnode_begin_eq [OF assms(1) vs(2)] chain_kids [OF assms(1) suffix_ConsD [OF vs(2)]] vs(1) by simp
qed

theorem fdt_subnodes_correct_witness:
  "fdt_node_subnode_begin virt virt_base (tok_ptr virt virt_base virt_tokens virt_tokens) =
      Some (tok_ptr virt virt_base virt_tokens (drop 4 virt_tokens)) \<and>
   fdt_node_next_subnode virt virt_base (tok_ptr virt virt_base virt_tokens (drop 4 virt_tokens)) =
      Some (tok_ptr virt virt_base virt_tokens (drop 10 virt_tokens)) \<and>
   fdt_node_next_subnode virt virt_base (tok_ptr virt virt_base virt_tokens (drop 14 virt_tokens)) = Some NULL"
proof -
  have "drop n virt_tokens \<noteq> virt_tokens" if "n \<in> {4, 10, 14}" for n
    using that virt_tree(1) by (auto simp: wf_tree_def virt_defs)
  then show ?thesis
    using fdt_subnodes_correct [OF virt_ok(2), of virt_tokens "[]"] by (simp add: virt_anc)
qed

text \<open>\<^verbatim>\<open>fdt_node_get_inherited_prop\<close> returns the property of that name of the node itself or of its closest ancestor
  that has one, and the null pointer if none has.\<close>

theorem fdt_node_get_inherited_prop_correct:
  assumes "fdt_struct s fdt ts" and "fdt_strings s fdt strs" and "cstr s name cs" and "wf_tree ts"
    and "(vs, anc) \<in> set (anc_list [] ts)"
  shows "\<exists>p. fdt_node_get_inherited_prop s fdt (tok_ptr s fdt ts vs) name = Some p \<and>
    prop_view s p (inherited strs cs (vs # anc))"
  using assms by (rule inherited_prop_view)

theorem fdt_node_get_inherited_prop_correct_witness:
  "\<exists>p. fdt_node_get_inherited_prop virt virt_base (tok_ptr virt virt_base virt_tokens (drop 16 virt_tokens))
      (Lit (bytes_of ''#address-cells'')) = Some p \<and> prop_view virt p (Some (cells [2]))"
  using fdt_node_get_inherited_prop_correct [OF virt_ok(2,3) key_cstrs(5) virt_tree(1),
      of "drop 16 virt_tokens" "[drop 14 virt_tokens, virt_tokens]"] virt_cells(1)
  by (simp add: virt_anc del: inherited.simps)

text \<open>The reservation entries are enumerated in order, each with its address and size, up to the terminating entry
  of two zeros, which is not returned.\<close>

theorem fdt_reserve_entries_correct:
  assumes "fdt_reserved s fdt es"
  shows "fdt_reserve_entry_begin s fdt = (if es = [] then NULL else rsv_ptr s fdt 0) \<and>
    (\<forall>i < length es.
       fdt_next_reserve_entry s fdt (rsv_ptr s fdt i) = (if Suc i < length es then rsv_ptr s fdt (Suc i) else NULL) \<and>
       fdt_reserve_entry_address s (rsv_ptr s fdt i) = fst (es ! i) \<and>
       fdt_reserve_entry_size s (rsv_ptr s fdt i) = snd (es ! i))"
  using reserve_begin_eq [OF assms] reserve_next_eq [OF assms] reserved_entry(1,2) [OF assms]
  by (simp add: nth_append)

theorem fdt_reserve_entries_correct_witness:
  "\<exists>p. fdt_reserve_entry_begin virt virt_base = p \<and> fdt_reserve_entry_address virt p = 0x80000000 \<and>
     fdt_reserve_entry_size virt p = 0x80000 \<and> fdt_next_reserve_entry virt virt_base p = NULL"
  using fdt_reserve_entries_correct [OF virt_ok(4)] by (simp add: virt_reserved_def)

text \<open>\<^verbatim>\<open>fdt_node_get_register_block\<close> for index 0 returns the address and size at the start of the node's \<^verbatim>\<open>reg\<close>
  property, read with the address and size cell counts in force at the node; \<^verbatim>\<open>fdt_node_num_register_blocks\<close> is the
  number of whole blocks.\<close>

theorem fdt_register_block_first:
  assumes "fdt_struct s fdt ts" and "fdt_strings s fdt strs" and "wf_tree ts" and "(vs, anc) \<in> set (anc_list [] ts)"
    and "node_prop strs (bytes_of ''reg'') vs = Some v"
  defines "a \<equiv> address_cells strs (vs # anc)" and "n \<equiv> size_cells strs (vs # anc)"
  assumes "a \<in> {1, 2}" and "n \<in> {1, 2}" and "4 * (unat a + unat n) \<le> length v"
  shows "fdt_node_get_register_block s fdt (tok_ptr s fdt ts vs) 0 = Some (num_at a v 0, num_at n v (4 * unat a)) \<and>
    fdt_node_num_register_blocks s fdt (tok_ptr s fdt ts vs) = Some (of_nat (length v div (4 * (unat a + unat n))))"
  using register_block_first [OF assms(1-5)] assms(8-10) unfolding a_def n_def by blast

theorem fdt_register_block_first_witness:
  "fdt_node_get_register_block virt virt_base (tok_ptr virt virt_base virt_tokens (drop 16 virt_tokens)) 0 =
    Some (0x100000, 0x1000)"
  using fdt_register_block_first [OF virt_ok(2,3) virt_tree(1),
      of "drop 16 virt_tokens" "[drop 14 virt_tokens, virt_tokens]"] virt_cells(2-4)
  by (simp add: virt_anc num_at_def cells_def be_bytes_def be_join_def le_bytes_numeral)

text \<open>C40. For an index \<^term>\<open>i\<close>, \<^verbatim>\<open>fdt_node_get_register_block\<close> reads the block at byte \<^term>\<open>i * (a + n)\<close> of the
  \<^verbatim>\<open>reg\<close> property, where \<^term>\<open>a + n\<close> counts cells of four bytes: only index 0 gives a block of the list.  The
  index may be the number of blocks, for which there is no block: the check of the length accepts it, as the witness shows
  for index 2 of a list of two.\<close>

theorem fdt_register_block_offset:
  fixes i :: nat
  assumes "fdt_struct s fdt ts" and "fdt_strings s fdt strs" and "wf_tree ts" and "(vs, anc) \<in> set (anc_list [] ts)"
    and "node_prop strs (bytes_of ''reg'') vs = Some v"
  defines "a \<equiv> address_cells strs (vs # anc)" and "n \<equiv> size_cells strs (vs # anc)"
  assumes "a \<in> {1, 2}" and "n \<in> {1, 2}" and "0 < i" and "4 * (i * (unat a + unat n)) \<le> length v"
    and "i * (unat a + unat n) + 4 * (unat a + unat n) \<le> length v"
  shows "fdt_node_get_register_block s fdt (tok_ptr s fdt ts vs) (of_nat i) =
    Some (num_at a v (i * (unat a + unat n)), num_at n v (i * (unat a + unat n) + 4 * unat a))"
  using get_register_block_eq [OF assms(1-5) a_def [THEN meta_eq_to_obj_eq] n_def [THEN meta_eq_to_obj_eq] assms(8,9,11,12)]
    assms(8,9) by (simp add: reg_block_def)

text \<open>A node with two register blocks of two address cells and one size cell.\<close>

definition two_tokens :: "token list" where
  "two_tokens = [BeginNode [], Prop 0 (cells [0, 0x1000, 0x10, 0, 0x2000, 0x20]), EndNode, End]"

definition two_strings :: "byte list" where
  "two_strings = cstring ''reg''"

lemma two_wf: "wf_blob 4096 [] two_tokens two_strings"
  by (simp add: wf_blob_def two_tokens_def two_strings_def fdt_bytes_def length_tok_bytes) (simp add: cstring_def)

lemma two_props:
  "node_prop two_strings (bytes_of cs) two_tokens =
    (if cs = ''reg'' then Some (cells [0, 0x1000, 0x10, 0, 0x2000, 0x20]) else None)"
proof -
  have "str_at two_strings 0 = Some (bytes_of ''reg'')"
    by (simp add: str_at_def two_strings_def cstring_def bytes_of_def)
  then show ?thesis by (auto simp: two_tokens_def node_prop.simps)
qed

theorem fdt_register_block_offset_witness:
  "wf_blob 4096 [] two_tokens two_strings \<and>
   (let s = blob_machine 4096 (fdt_bytes [] two_tokens two_strings)
    in fdt_node_get_register_block s 4096 (tok_ptr s 4096 two_tokens two_tokens) 1 = Some (0x1000000000, 0x10000000) \<and>
       fdt_node_get_register_block s 4096 (tok_ptr s 4096 two_tokens two_tokens) 2 = Some (0x1000000000100000, 0))"
proof -
  have wf: "wf_tree two_tokens" "(two_tokens, []) \<in> set (anc_list [] two_tokens)"
    by (simp_all add: wf_tree_def two_tokens_def)
  have c: "address_cells two_strings [two_tokens] = 2" "size_cells two_strings [two_tokens] = 1"
    by (simp_all add: address_cells_def size_cells_def two_props first_cell_def)
  show ?thesis
    using fdt_register_block_offset [OF blob_machine_ok(2,3) [OF two_wf] wf, of _ 1]
      fdt_register_block_offset [OF blob_machine_ok(2,3) [OF two_wf] wf, of _ 2] two_wf c
    by (simp add: two_props Let_def num_at_def)
      (simp add: cells_def be_bytes_def be_join_def le_bytes_numeral)
qed

end
