(* ===== verification/Kernel_Error.thy ===== *)
theory Kernel_Error
  imports Prelude
begin

text \<open>
  \<^verbatim>\<open>include/kernel/error.h\<close>: the error codes shared by the internal interfaces of the kernel.
  \<^verbatim>\<open>KERR_SUCCESS\<close> is another name of \<^verbatim>\<open>KERR_NONE\<close>, whose value is 0.
\<close>

datatype kerror =
  KERR_NONE | KERR_EXIST | KERR_NO_EXIST | KERR_FULL | KERR_EMPTY | KERR_INVALID | KERR_BUSY |
  KERR_UNIMPL | KERR_UNKNOWN

abbreviation KERR_SUCCESS :: kerror where
  "KERR_SUCCESS \<equiv> KERR_NONE"

end
