(* ===== verification/Early_Output.thy ===== *)
theory Early_Output
  imports Libc_String Kernel_Error
begin

text \<open>
  \<^verbatim>\<open>kernel/early_output.c\<close>: output before any driver is up.  A table of eight \<^verbatim>\<open>putchar\<close> callbacks, a null
  pointer marking a free slot; each character goes to every registered callback in the order of the table.

  A callback is a function pointer, so an address; what it does with a character belongs to its driver.  The state
  records the calls made: \<^verbatim>\<open>console_log\<close> is the list of pairs of callback and character, in order.
\<close>

section \<open>Definitions\<close>

definition EARLY_OUTPUT_MAX_PUTCHAR :: nat where
  "EARLY_OUTPUT_MAX_PUTCHAR = 8"

record console = machine +
  early_putchar_array :: "addr list"
  console_log :: "(addr \<times> byte) list"

text \<open>The loop of \<^verbatim>\<open>register_early_putchar\<close>: \<^const>\<open>None\<close> when it finds the callback and returns \<^const>\<open>KERR_EXIST\<close>, else
  the final value of the unsigned variable \<^verbatim>\<open>index\<close>.\<close>

fun register_loop :: "addr list \<Rightarrow> addr \<Rightarrow> nat \<Rightarrow> size_t \<Rightarrow> size_t option" where
  "register_loop [] putchar i index = Some index"
| "register_loop (cb # cbs) putchar i index =
     (if cb = NULL then register_loop cbs putchar (Suc i) (of_nat i)
      else if cb = putchar then None
      else register_loop cbs putchar (Suc i) index)"

text \<open>A store outside the table has no defined result.\<close>

definition register_early_putchar :: "'z console_scheme \<Rightarrow> addr \<Rightarrow> (kerror \<times> 'z console_scheme) option" where
  "register_early_putchar s putchar =
     (case register_loop (early_putchar_array s) putchar 0 (- 1) of
        None \<Rightarrow> Some (KERR_EXIST, s)
      | Some index \<Rightarrow>
          if index < 0 then Some (KERR_FULL, s)
          else if unat index < length (early_putchar_array s)
          then Some (KERR_SUCCESS, s\<lparr>early_putchar_array := (early_putchar_array s)[unat index := putchar]\<rparr>)
          else None)"

fun unregister_loop :: "addr list \<Rightarrow> addr \<Rightarrow> addr list option" where
  "unregister_loop [] putchar = None"
| "unregister_loop (cb # cbs) putchar =
     (if cb = putchar then Some (NULL # cbs) else map_option ((#) cb) (unregister_loop cbs putchar))"

definition unregister_early_putchar :: "'z console_scheme \<Rightarrow> addr \<Rightarrow> kerror \<times> 'z console_scheme" where
  "unregister_early_putchar s putchar =
     (case unregister_loop (early_putchar_array s) putchar of
        None \<Rightarrow> (KERR_NO_EXIST, s)
      | Some cbs \<Rightarrow> (KERR_SUCCESS, s\<lparr>early_putchar_array := cbs\<rparr>))"

fun putchar_loop :: "'z console_scheme \<Rightarrow> addr list \<Rightarrow> byte \<Rightarrow> 'z console_scheme" where
  "putchar_loop s [] c = s"
| "putchar_loop s (cb # cbs) c =
     (if cb = NULL then putchar_loop s cbs c
      else putchar_loop (s\<lparr>console_log := console_log s @ [(cb, c)]\<rparr>) cbs c)"

definition early_putchar :: "'z console_scheme \<Rightarrow> byte \<Rightarrow> 'z console_scheme" where
  "early_putchar s c = putchar_loop s (early_putchar_array s) c"

partial_function (option) early_puts_loop ::
  "'z console_scheme \<Rightarrow> cptr \<Rightarrow> size_t \<Rightarrow> 'z console_scheme option" where
  "early_puts_loop s str i =
     (if char_at s str i \<noteq> 0 then early_puts_loop (early_putchar s (char_at s str i)) str (i + 1) else Some s)"

definition early_puts :: "'z console_scheme \<Rightarrow> cptr \<Rightarrow> 'z console_scheme option" where
  "early_puts s str = early_puts_loop s str 0"

section \<open>Output\<close>

text \<open>The registered callbacks, and what a string does to the log: every callback gets every character.\<close>

definition active :: "'z console_scheme \<Rightarrow> addr list" where
  "active s = filter (\<lambda>cb. cb \<noteq> NULL) (early_putchar_array s)"

definition broadcast :: "addr list \<Rightarrow> byte list \<Rightarrow> (addr \<times> byte) list" where
  "broadcast cbs cs = concat (map (\<lambda>c. map (\<lambda>cb. (cb, c)) cbs) cs)"

definition emit :: "'z console_scheme \<Rightarrow> byte list \<Rightarrow> 'z console_scheme" where
  "emit s cs = s\<lparr>console_log := console_log s @ broadcast (active s) cs\<rparr>"

text \<open>The characters one callback received.\<close>

definition sent_to :: "addr \<Rightarrow> 'z console_scheme \<Rightarrow> byte list" where
  "sent_to cb s = map snd (filter (\<lambda>(cb', c). cb' = cb) (console_log s))"

lemma putchar_loop_eq:
  "putchar_loop s cbs c = s\<lparr>console_log := console_log s @ map (\<lambda>cb. (cb, c)) (filter (\<lambda>cb. cb \<noteq> NULL) cbs)\<rparr>"
  by (induction cbs arbitrary: s) auto

lemma early_putchar_eq: "early_putchar s c = emit s [c]"
  by (simp add: early_putchar_def putchar_loop_eq emit_def active_def broadcast_def)

lemma emit_frame [simp]:
  "mem (emit s cs) = mem s" "byte_order (emit s cs) = byte_order s" "config (emit s cs) = config s"
  "early_putchar_array (emit s cs) = early_putchar_array s" "active (emit s cs) = active s"
  "console.more (emit s cs) = console.more s"
  by (simp_all add: emit_def active_def)

lemma emit_append [simp]: "emit (emit s as) bs = emit s (as @ bs)"
  by (simp add: emit_def active_def broadcast_def)

lemma emit_Nil [simp]: "emit s [] = s"
  by (simp add: emit_def broadcast_def)

lemma char_at_mem: "mem s = mem t \<Longrightarrow> char_at s p i = char_at t p i"
  by (cases p) auto

lemma char_at_emit [simp]: "char_at (emit s cs) p i = char_at s p i"
  by (rule char_at_mem) simp

lemma early_puts_loop_eq:
  assumes "cstr s p cs" and "i \<le> length cs"
  shows "early_puts_loop (emit s (take i cs)) p (of_nat i) = Some (emit s cs)"
  using assms(2)
proof (induction rule: inc_induct)
  case base
  show ?case using char_at_cstr [OF assms(1), of "length cs"] by (subst early_puts_loop.simps) simp
next
  case (step n)
  have c: "char_at s p (of_nat n) = cs ! n" using char_at_cstr [OF assms(1), of n] step.hyps by (simp add: nth_append)
  have "cs ! n \<noteq> 0" using assms(1) step.hyps by (metis cstr_def nth_mem)
  then show ?case using step c
    by (subst early_puts_loop.simps) (simp add: early_putchar_eq add.commute flip: take_Suc_conv_app_nth)
qed

lemma early_puts_cstr: "cstr s p cs \<Longrightarrow> early_puts s p = Some (emit s cs)"
  using early_puts_loop_eq [of s p cs 0] by (simp add: early_puts_def)

lemma filter_eq_single: "distinct xs \<Longrightarrow> x \<in> set xs \<Longrightarrow> filter (\<lambda>y. y = x) xs = [x]"
  by (induction xs) (auto simp: filter_empty_conv)

lemma sent_to_emit:
  assumes "distinct (active s)" and "cb \<in> set (active s)"
  shows "sent_to cb (emit s cs) = sent_to cb s @ cs"
proof -
  have "filter (\<lambda>cb'. cb' = cb) (active s) = [cb]"
    using assms by (rule filter_eq_single)
  then have "map snd (filter (\<lambda>(cb', c). cb' = cb) (broadcast (active s) cs)) = cs"
    by (induction cs) (auto simp: broadcast_def filter_map comp_def)
  then show ?thesis by (simp add: sent_to_def emit_def)
qed

section \<open>Registration\<close>

text \<open>The contract of a registry of callbacks, as \<^verbatim>\<open>include/kernel/early_output.h\<close> states it while there is room.\<close>

locale callback_registry =
  fixes inv :: "'s \<Rightarrow> bool"
    and room :: "'s \<Rightarrow> bool"
    and registered :: "'s \<Rightarrow> addr set"
    and register :: "'s \<Rightarrow> addr \<Rightarrow> (kerror \<times> 's) option"
    and unregister :: "'s \<Rightarrow> addr \<Rightarrow> kerror \<times> 's"
  assumes register_new: "inv s \<Longrightarrow> room s \<Longrightarrow> cb \<noteq> NULL \<Longrightarrow> cb \<notin> registered s \<Longrightarrow>
      \<exists>s'. register s cb = Some (KERR_SUCCESS, s') \<and> inv s' \<and> registered s' = insert cb (registered s)"
    and register_old: "inv s \<Longrightarrow> cb \<noteq> NULL \<Longrightarrow> cb \<in> registered s \<Longrightarrow> register s cb = Some (KERR_EXIST, s)"
    and unregister_old: "inv s \<Longrightarrow> cb \<noteq> NULL \<Longrightarrow> cb \<in> registered s \<Longrightarrow>
      \<exists>s'. unregister s cb = (KERR_SUCCESS, s') \<and> inv s' \<and> room s' \<and> registered s' = registered s - {cb}"
    and unregister_new: "inv s \<Longrightarrow> cb \<noteq> NULL \<Longrightarrow> cb \<notin> registered s \<Longrightarrow> unregister s cb = (KERR_NO_EXIST, s)"
begin

lemma register_twice:
  assumes "inv s" and "cb \<noteq> NULL" and "register s cb = Some (KERR_SUCCESS, s')" and "room s"
  shows "inv s' \<and> register s' cb = Some (KERR_EXIST, s')"
proof -
  have "cb \<notin> registered s" using register_old [OF assms(1,2)] assms(3) by auto
  from register_new [OF assms(1,4,2) this] show ?thesis using assms(2,3) register_old [of s' cb] by auto
qed

lemma register_unregister:
  assumes "inv s" and "cb \<noteq> NULL" and "register s cb = Some (KERR_SUCCESS, s')" and "room s"
  obtains s'' where "unregister s' cb = (KERR_SUCCESS, s'')" and "inv s''" and "registered s'' = registered s"
proof -
  have new: "cb \<notin> registered s" using register_old [OF assms(1,2)] assms(3) by auto
  have s': "inv s'" "registered s' = insert cb (registered s)"
    using register_new [OF assms(1,4,2) new] assms(3) by auto
  from unregister_old [OF s'(1) assms(2)] s'(2) new that show thesis by auto
qed

lemma unregister_twice:
  assumes "inv s" and "cb \<noteq> NULL" and "unregister s cb = (KERR_SUCCESS, s')"
  shows "unregister s' cb = (KERR_NO_EXIST, s') \<and> room s'"
proof -
  have "cb \<in> registered s" using unregister_new [OF assms(1,2)] assms(3) by auto
  from unregister_old [OF assms(1,2) this] assms(2,3) unregister_new [of s' cb] show ?thesis by auto
qed

end

text \<open>The table satisfies it: eight slots, and no callback in two of them.\<close>

definition table_ok :: "'z console_scheme \<Rightarrow> bool" where
  "table_ok s \<longleftrightarrow> length (early_putchar_array s) = EARLY_OUTPUT_MAX_PUTCHAR \<and> distinct (active s)"

definition table_room :: "'z console_scheme \<Rightarrow> bool" where
  "table_room s \<longleftrightarrow> NULL \<in> set (early_putchar_array s)"

lemma register_loop_None: "cb \<noteq> NULL \<Longrightarrow> register_loop cbs cb i j = None \<longleftrightarrow> cb \<in> set cbs"
  by (induction cbs arbitrary: i j) auto

lemma register_loop_Some:
  "register_loop cbs cb i j = Some k \<Longrightarrow>
    (if NULL \<in> set cbs then \<exists>n < length cbs. cbs ! n = NULL \<and> k = of_nat (i + n) else k = j)"
proof (induction cbs arbitrary: i j)
  case (Cons c cbs)
  show ?case
  proof (cases "NULL \<in> set cbs")
    case True
    obtain j' where "register_loop cbs cb (Suc i) j' = Some k" using Cons.prems by (auto split: if_splits)
    from Cons.IH [OF this] obtain n where "n < length cbs" "cbs ! n = NULL" "k = of_nat (Suc i + n)"
      using True by auto
    then have "Suc n < length (c # cbs) \<and> (c # cbs) ! Suc n = NULL \<and> k = of_nat (i + Suc n)" by simp
    then show ?thesis using True by auto
  next
    case False
    then have "k = (if c = NULL then of_nat i else j)" using Cons by (fastforce split: if_splits)
    then show ?thesis using False by (auto intro!: exI [of _ 0])
  qed
qed simp

lemma register_loop_full: "\<forall>c \<in> set cbs. c \<noteq> NULL \<and> c \<noteq> cb \<Longrightarrow> register_loop cbs cb i j = Some j"
  by (induction cbs arbitrary: i) auto

lemma active_update:
  assumes "n < length xs" and "xs ! n = NULL" and "cb \<noteq> NULL"
  shows "set (filter (\<lambda>c. c \<noteq> NULL) (xs[n := cb])) = insert cb (set (filter (\<lambda>c. c \<noteq> NULL) xs))"
    and "distinct (filter (\<lambda>c. c \<noteq> NULL) xs) \<Longrightarrow> cb \<notin> set xs \<Longrightarrow> distinct (filter (\<lambda>c. c \<noteq> NULL) (xs[n := cb]))"
proof -
  have xs: "xs = take n xs @ NULL # drop (Suc n) xs" using assms id_take_nth_drop by metis
  have up: "xs[n := cb] = take n xs @ cb # drop (Suc n) xs" using assms(1) by (rule upd_conv_take_nth_drop)
  have f: "filter (\<lambda>c. c \<noteq> NULL) xs = filter (\<lambda>c. c \<noteq> NULL) (take n xs) @ filter (\<lambda>c. c \<noteq> NULL) (drop (Suc n) xs)"
    by (subst xs) simp
  show "set (filter (\<lambda>c. c \<noteq> NULL) (xs[n := cb])) = insert cb (set (filter (\<lambda>c. c \<noteq> NULL) xs))"
    unfolding up f using assms(3) by auto
  show "distinct (filter (\<lambda>c. c \<noteq> NULL) (xs[n := cb]))" if "distinct (filter (\<lambda>c. c \<noteq> NULL) xs)" "cb \<notin> set xs"
    using that assms(3) unfolding up f by (auto dest: in_set_takeD in_set_dropD)
qed

lemma unregister_loop_eq:
  "unregister_loop cbs cb = (if cb \<in> set cbs then Some ((takeWhile (\<lambda>c. c \<noteq> cb) cbs) @ NULL # tl (dropWhile (\<lambda>c. c \<noteq> cb) cbs)) else None)"
  by (induction cbs) auto

lemma unregister_loop_Some:
  assumes "unregister_loop cbs cb = Some cbs'" and "cb \<noteq> NULL"
  shows "length cbs' = length cbs" and "NULL \<in> set cbs'"
    and "distinct (filter (\<lambda>c. c \<noteq> NULL) cbs) \<Longrightarrow> distinct (filter (\<lambda>c. c \<noteq> NULL) cbs') \<and>
      set (filter (\<lambda>c. c \<noteq> NULL) cbs') = set (filter (\<lambda>c. c \<noteq> NULL) cbs) - {cb}"
  using assms by (induction cbs arbitrary: cbs') (auto split: if_splits)

interpretation early_registry: callback_registry
    table_ok table_room "\<lambda>s. set (active s)" register_early_putchar unregister_early_putchar
proof
  fix s :: "'z console_scheme" and cb
  let ?t = "early_putchar_array s"
  assume ok: "table_ok s" and cb: "cb \<noteq> NULL"
  { assume room: "table_room s" and new: "cb \<notin> set (active s)"
    from new cb have "cb \<notin> set ?t" by (auto simp: active_def)
    then obtain k where k: "register_loop ?t cb 0 (- 1) = Some k" using register_loop_None [OF cb] by blast
    then obtain n where n: "n < length ?t" "?t ! n = NULL" "k = of_nat n"
      using register_loop_Some [OF k] room by (auto simp: table_room_def)
    have "unat k = n" using n ok by (simp add: table_ok_def EARLY_OUTPUT_MAX_PUTCHAR_def unat_of_nat)
    then show "\<exists>s'. register_early_putchar s cb = Some (KERR_SUCCESS, s') \<and> table_ok s' \<and>
        set (active s') = insert cb (set (active s))"
      using k n ok cb \<open>cb \<notin> set ?t\<close> active_update [OF n(1,2) cb]
      by (simp add: register_early_putchar_def table_ok_def active_def) }
  { assume "cb \<in> set (active s)"
    then have "cb \<in> set ?t" by (auto simp: active_def)
    then show "register_early_putchar s cb = Some (KERR_EXIST, s)"
      using register_loop_None [OF cb, THEN iffD2] by (simp add: register_early_putchar_def) }
  { assume "cb \<in> set (active s)"
    then obtain cbs where "unregister_loop ?t cb = Some cbs" by (auto simp: active_def unregister_loop_eq)
    then show "\<exists>s'. unregister_early_putchar s cb = (KERR_SUCCESS, s') \<and> table_ok s' \<and> table_room s' \<and>
        set (active s') = set (active s) - {cb}"
      using unregister_loop_Some [OF _ cb] ok
      by (auto simp: unregister_early_putchar_def table_ok_def table_room_def active_def) }
  { assume "cb \<notin> set (active s)"
    then have "cb \<notin> set ?t" using cb by (auto simp: active_def)
    then show "unregister_early_putchar s cb = (KERR_NO_EXIST, s)"
      by (simp add: unregister_early_putchar_def unregister_loop_eq) }
qed

section \<open>Properties\<close>

text \<open>\<^verbatim>\<open>early_puts\<close> of a terminated string delivers exactly its characters, in order, to every registered callback,
  and changes nothing else.\<close>

theorem early_puts_correct:
  assumes "cstr s p cs" and "table_ok s"
  shows "\<exists>s'. early_puts s p = Some s' \<and> (\<forall>cb \<in> set (active s). sent_to cb s' = sent_to cb s @ cs) \<and>
    s'\<lparr>console_log := console_log s\<rparr> = s"
  using early_puts_cstr [OF assms(1)] sent_to_emit [of s _ cs] assms(2) by (auto simp: table_ok_def emit_def)

text \<open>A machine with one registered callback, for concrete instances.\<close>

definition demo_console :: console where
  "demo_console = \<lparr>mem = (\<lambda>_. 0), byte_order = Little, config = CONFIG_VARIABLE_ENDIAN,
     early_putchar_array = [0x80000100, 0, 0, 0, 0, 0, 0, 0], console_log = []\<rparr>"

lemma demo_console_ok: "table_ok demo_console" "active demo_console = [0x80000100]" "table_room demo_console"
  by (simp_all add: table_ok_def demo_console_def active_def table_room_def EARLY_OUTPUT_MAX_PUTCHAR_def)

theorem early_puts_correct_witness:
  "\<exists>s'. early_puts demo_console (Lit [72, 105]) = Some s' \<and> sent_to 0x80000100 s' = [72, 105]"
  using early_puts_correct [of demo_console "Lit [72, 105]" "[72, 105]"]
  by (auto simp: cstr_def demo_console_ok) (auto simp: demo_console_def sent_to_def)

text \<open>C28. While a slot of the table is free, registering a callback that is not in the table succeeds, adds exactly it,
  keeps the table well-formed, and makes a second registration report \<^verbatim>\<open>KERR_EXIST\<close>; unregistering it then succeeds
  and leaves the set of callbacks as it was before, and unregistering it again reports \<^verbatim>\<open>KERR_NO_EXIST\<close>.\<close>

theorem register_early_putchar_correct:
  assumes "table_ok s" and "table_room s" and "cb \<noteq> NULL" and "cb \<notin> set (active s)"
  shows "\<exists>s' s''. register_early_putchar s cb = Some (KERR_SUCCESS, s') \<and> table_ok s' \<and>
    set (active s') = insert cb (set (active s)) \<and> register_early_putchar s' cb = Some (KERR_EXIST, s') \<and>
    unregister_early_putchar s' cb = (KERR_SUCCESS, s'') \<and> table_ok s'' \<and> set (active s'') = set (active s) \<and>
    unregister_early_putchar s'' cb = (KERR_NO_EXIST, s'')"
proof -
  obtain s' where s': "register_early_putchar s cb = Some (KERR_SUCCESS, s')" "table_ok s'"
    "set (active s') = insert cb (set (active s))"
    using early_registry.register_new [OF assms] by blast
  obtain s'' where "unregister_early_putchar s' cb = (KERR_SUCCESS, s'')" "table_ok s''"
    "set (active s'') = set (active s)"
    by (rule early_registry.register_unregister [OF assms(1,3) s'(1) assms(2)])
  then show ?thesis
    using s' early_registry.register_twice [OF assms(1,3) s'(1) assms(2)]
      early_registry.unregister_twice [OF s'(2) assms(3)] by blast
qed

theorem register_early_putchar_correct_witness:
  "\<exists>s'. register_early_putchar demo_console 0x80000200 = Some (KERR_SUCCESS, s') \<and>
     set (active s') = {0x80000200, 0x80000100}"
  using register_early_putchar_correct [of demo_console "0x80000200"] by (auto simp: demo_console_ok)

text \<open>C36. \<^verbatim>\<open>register_early_putchar\<close> never reports \<^verbatim>\<open>KERR_FULL\<close>: when all eight slots are taken, a new callback is stored
  at index \<^verbatim>\<open>SIZE_MAX\<close>, outside the table.\<close>

theorem register_early_putchar_full:
  fixes s :: "'z console_scheme"
  assumes "table_ok s" and "\<not> table_room s" and "cb \<notin> set (active s)"
  shows "register_loop (early_putchar_array s) cb 0 (- 1) = Some (- 1) \<and> register_early_putchar s cb = None \<and>
    (\<forall>(t :: 'z console_scheme) cb' r t'. register_early_putchar t cb' = Some (r, t') \<longrightarrow> r \<noteq> KERR_FULL)"
proof (intro conjI allI impI)
  have all: "\<forall>c \<in> set (early_putchar_array s). c \<noteq> NULL" using assms(2) by (auto simp: table_room_def)
  then have "cb \<notin> set (early_putchar_array s)" using assms(3) by (auto simp: active_def)
  with all show "register_loop (early_putchar_array s) cb 0 (- 1) = Some (- 1)"
    by (intro register_loop_full) auto
  then show "register_early_putchar s cb = None"
    using assms(1)
    by (simp add: register_early_putchar_def table_ok_def EARLY_OUTPUT_MAX_PUTCHAR_def
        unsigned_minus_1_eq_mask mask_eq_exp_minus_1)
next
  fix t :: "'z console_scheme" and cb' r t' assume "register_early_putchar t cb' = Some (r, t')"
  then show "r \<noteq> KERR_FULL"
    by (auto simp: register_early_putchar_def split: option.splits if_splits)
qed

theorem register_early_putchar_full_witness:
  "register_early_putchar (demo_console\<lparr>early_putchar_array := [1, 2, 3, 4, 5, 6, 7, 8]\<rparr>) 9 = None"
proof -
  let ?s = "demo_console\<lparr>early_putchar_array := [1, 2, 3, 4, 5, 6, 7, 8]\<rparr>"
  have "table_ok ?s" "\<not> table_room ?s" "9 \<notin> set (active ?s)"
    by (simp_all add: table_ok_def table_room_def active_def EARLY_OUTPUT_MAX_PUTCHAR_def)
  from register_early_putchar_full [OF this] show ?thesis by blast
qed

end
