(* ===== verification/Printf.thy ===== *)
theory Printf
  imports Early_Output Fdt
begin

text \<open>
  \<^verbatim>\<open>libc/src/stdio/printf.c\<close> and \<^verbatim>\<open>libc/src/stdlib/abort.c\<close>: formatted output.  \<^verbatim>\<open>formatted_print\<close> is given the
  function that outputs a string; in the kernel it is \<^verbatim>\<open>early_puts\<close>.  The variable arguments are a list of values
  tagged with the type they were passed with; reading one that is missing or of another type has no defined result.
  The counter of characters is a 32-bit word.
\<close>

section \<open>Definitions\<close>

datatype varg = VInt u32 | VStr cptr | VPtr addr

type_synonym 'z puts = "'z machine_scheme \<Rightarrow> cptr \<Rightarrow> 'z machine_scheme option"

definition hex_char :: "byte \<Rightarrow> byte" where
  "hex_char digit = (if digit < 10 then digit + 48 else digit - 10 + 65)"

text \<open>The loop fills the buffer from the end: \<^term>\<open>n\<close> characters are left to write.\<close>

fun pointer_loop :: "nat \<Rightarrow> addr \<Rightarrow> byte list \<Rightarrow> byte list" where
  "pointer_loop 0 ip buf = buf"
| "pointer_loop (Suc n) ip buf =
     (if ip > 0 then pointer_loop n (drop_bit 4 ip) (hex_char (ucast (ip AND 0xF)) # buf)
      else pointer_loop n ip (48 # buf))"

definition pointer_print :: "'z puts \<Rightarrow> 'z machine_scheme \<Rightarrow> addr \<Rightarrow> ('z machine_scheme \<times> u32) option" where
  "pointer_print puts s p = do { s' \<leftarrow> puts s (Lit (bytes_of ''0x'' @ pointer_loop 16 p [])); Some (s', 18) }"

text \<open>What the function keeps between characters: the state, \<^verbatim>\<open>escaped\<close>, the filled part of \<^verbatim>\<open>buf\<close>, \<^verbatim>\<open>num_chars\<close> and
  the arguments not yet read.\<close>

type_synonym 'z pstate = "'z machine_scheme \<times> bool \<times> byte list \<times> u32 \<times> varg list"

definition BUF_LEN :: nat where
  "BUF_LEN = 32"

definition flush_buf :: "'z puts \<Rightarrow> 'z machine_scheme \<Rightarrow> byte list \<Rightarrow> u32 \<Rightarrow> ('z machine_scheme \<times> u32) option" where
  "flush_buf puts s buf num_chars =
     (if buf \<noteq> [] then do { s' \<leftarrow> puts s (Lit buf); Some (s', num_chars + of_nat (length buf)) }
      else Some (s, num_chars))"

abbreviation percent :: byte where
  "percent \<equiv> 37"

text \<open>The switch on the character after a \<^verbatim>\<open>%\<close>.\<close>

definition print_spec ::
  "'z puts \<Rightarrow> byte \<Rightarrow> 'z machine_scheme \<Rightarrow> u32 \<Rightarrow> varg list \<Rightarrow> ('z machine_scheme \<times> u32 \<times> varg list) option" where
  "print_spec puts c s num_chars args =
     (if c = 0 \<or> c = percent then do { s' \<leftarrow> puts s (Lit [percent]); Some (s', num_chars + 1, args) }
      else if c = of_char CHR ''c'' then
        (case args of
           VInt n # args' \<Rightarrow> do { s' \<leftarrow> puts s (Lit [ucast n]); Some (s', num_chars + 1, args') }
         | _ \<Rightarrow> None)
      else if c = of_char CHR ''s'' then
        (case args of
           VStr str # args' \<Rightarrow>
             do { s' \<leftarrow> puts s str; len \<leftarrow> strlen s' str; Some (s', num_chars + ucast len, args') }
         | _ \<Rightarrow> None)
      else if c = of_char CHR ''p'' then
        (case args of
           VPtr p # args' \<Rightarrow> do { (s', n) \<leftarrow> pointer_print puts s p; Some (s', num_chars + n, args') }
         | _ \<Rightarrow> None)
      else do { s' \<leftarrow> puts s (Lit [percent, c]); Some (s', num_chars + 2, args) })"

definition print_char :: "'z puts \<Rightarrow> byte \<Rightarrow> 'z pstate \<Rightarrow> 'z pstate option" where
  "print_char puts c = (\<lambda>(s, escaped, buf, num_chars, args).
     if escaped then
       do {
         (s1, n1) \<leftarrow> flush_buf puts s buf num_chars;
         (s2, n2, args') \<leftarrow> print_spec puts c s1 n1 args;
         Some (s2, False, [], n2, args')
       }
     else if c \<noteq> 0 then
       if c = percent then Some (s, True, buf, num_chars, args)
       else if length (buf @ [c]) = BUF_LEN then
         do { s' \<leftarrow> puts s (Lit (buf @ [c])); Some (s', False, [], num_chars + of_nat BUF_LEN, args) }
       else Some (s, False, buf @ [c], num_chars, args)
     else Some (s, escaped, buf, num_chars, args))"

text \<open>The \<^verbatim>\<open>do ... while\<close> loop looks at the character after the current one to decide whether to go on.\<close>

partial_function (option) print_loop ::
  "'z puts \<Rightarrow> cptr \<Rightarrow> size_t \<Rightarrow> 'z pstate \<Rightarrow> 'z pstate option" where
  "print_loop puts fmt i st =
     do {
       st' \<leftarrow> print_char puts (char_at (fst st) fmt i) st;
       (if char_at (fst st') fmt (i + 1) \<noteq> 0 then print_loop puts fmt (i + 1) st' else Some st')
     }"

definition formatted_print ::
  "'z puts \<Rightarrow> 'z machine_scheme \<Rightarrow> cptr \<Rightarrow> varg list \<Rightarrow> ('z machine_scheme \<times> u32) option" where
  "formatted_print puts s fmt args =
     do {
       (s', escaped, buf, num_chars, args') \<leftarrow> print_loop puts fmt 0 (s, False, [], 0, args);
       flush_buf puts s' buf num_chars
     }"

text \<open>Outside the kernel \<^verbatim>\<open>printf_puts\<close> calls \<^verbatim>\<open>abort\<close>; in the kernel \<^verbatim>\<open>printf\<close>, alias \<^verbatim>\<open>printk\<close>, uses \<^verbatim>\<open>early_puts\<close>.\<close>

definition printf_puts :: "'z puts" where
  "printf_puts s str = None"

definition printk_puts :: "'z console_scheme \<Rightarrow> cptr \<Rightarrow> 'z console_scheme option" where
  "printk_puts s str = early_puts s str"

definition printk :: "'z console_scheme \<Rightarrow> cptr \<Rightarrow> varg list \<Rightarrow> ('z console_scheme \<times> u32) option" where
  "printk s fmt args = formatted_print printk_puts s fmt args"

text \<open>\<^verbatim>\<open>abort\<close> prints its message and then loops for ever: the state it loops in.\<close>

definition abort :: "'z console_scheme \<Rightarrow> 'z console_scheme option" where
  "abort s = map_option fst (printk s (Lit (bytes_of ''KERNEL PANIC\<newline>'')) [])"

section \<open>Hexadecimal numbers\<close>

definition hex_val :: "byte \<Rightarrow> addr" where
  "hex_val c = (if c < 58 then ucast (c - 48) else ucast (c - 65 + 10))"

definition hex_value :: "byte list \<Rightarrow> addr" where
  "hex_value cs = foldl (\<lambda>n c. 16 * n + hex_val c) 0 cs"

lemma length_pointer_loop: "length (pointer_loop n ip buf) = n + length buf"
  by (induction n ip buf rule: pointer_loop.induct) auto

lemma nibble: "ip AND 0xF = take_bit 4 (ip :: addr)"
  by (simp add: take_bit_eq_mask mask_eq_exp_minus_1)

lemma pointer_loop_Suc:
  "pointer_loop (Suc n) ip buf = pointer_loop n (drop_bit 4 ip) (hex_char (ucast (take_bit 4 ip)) # buf)"
  by (cases "ip = 0") (auto simp: nibble hex_char_def word_gt_0)

lemma hex_char_cases:
  fixes d :: byte
  assumes "d < 16"
  shows "hex_val (hex_char d) = ucast d" and "hex_char d \<noteq> 0"
proof -
  have "d \<in> set (map of_nat [0..<16])"
    using assms by (auto simp: word_less_nat_alt intro!: rev_image_eqI [of "unat d"])
  then have "hex_val (hex_char d) = ucast d \<and> hex_char d \<noteq> 0"
    by (auto simp: upt_rec hex_char_def hex_val_def)
  then show "hex_val (hex_char d) = ucast d" and "hex_char d \<noteq> 0" by simp_all
qed

lemma nibble_less: "ucast (take_bit 4 (ip :: addr)) < (16 :: byte)"
proof -
  have "unat (take_bit 4 ip) < 16" using take_bit_nat_less_exp [of 4 "unat ip"] by (simp add: unsigned_take_bit_eq)
  then show ?thesis by (simp add: word_less_nat_alt unsigned_ucast_eq take_bit_nat_eq_self)
qed

lemma take_bit_nibble:
  "take_bit (4 * Suc n) ip = 16 * take_bit (4 * n) (drop_bit 4 ip) + take_bit 4 (ip :: addr)"
proof -
  have "take_bit (4 * Suc n) ip =
      push_bit 4 (drop_bit 4 (take_bit (4 * Suc n) ip)) + take_bit 4 (take_bit (4 * Suc n) ip)"
    by (rule bits_ident [symmetric])
  also have "drop_bit 4 (take_bit (4 * Suc n) ip) = take_bit (4 * n) (drop_bit 4 ip)"
    by (simp add: take_bit_drop_bit add.commute)
  also have "take_bit 4 (take_bit (4 * Suc n) ip) = take_bit 4 ip" by simp
  finally show ?thesis by (simp add: push_bit_eq_mult)
qed

lemma ucast_nibble: "ucast (ucast (take_bit 4 ip) :: byte) = take_bit 4 (ip :: addr)"
  by (rule bit_word_eqI) (auto simp: bit_simps)

lemma foldl_pointer_loop:
  "foldl (\<lambda>n c. 16 * n + hex_val c) a (pointer_loop n ip buf) =
    foldl (\<lambda>n c. 16 * n + hex_val c) (16 ^ n * a + take_bit (4 * n) ip) buf"
proof (induction n arbitrary: ip buf)
  case (Suc n)
  have "hex_val (hex_char (ucast (take_bit 4 ip))) = take_bit 4 ip"
    using hex_char_cases(1) [OF nibble_less [of ip]] by (simp add: ucast_nibble)
  then show ?case
    by (simp only: pointer_loop_Suc Suc foldl.simps take_bit_nibble) (simp add: algebra_simps)
qed simp

lemma hex_value_pointer: "hex_value (pointer_loop 16 p []) = p"
  by (simp add: hex_value_def foldl_pointer_loop take_bit_word_eq_self)

lemma pointer_loop_not_0: "0 \<notin> set buf \<Longrightarrow> 0 \<notin> set (pointer_loop n ip buf)"
proof (induction n arbitrary: ip buf)
  case (Suc n)
  have "0 \<notin> set (hex_char (ucast (take_bit 4 ip)) # buf)"
    using Suc.prems hex_char_cases(2) [OF nibble_less [of ip]] by auto
  then show ?case unfolding pointer_loop_Suc by (rule Suc.IH)
qed simp

section \<open>What a format prints\<close>

text \<open>The output for a format, given the contents of the strings the arguments point to.  The flag says whether the
  character before was a \<^verbatim>\<open>%\<close>; a final \<^verbatim>\<open>%\<close> prints nothing.  \<^const>\<open>None\<close> means that the arguments do not fit.\<close>

fun render :: "(cptr \<Rightarrow> byte list) \<Rightarrow> bool \<Rightarrow> byte list \<Rightarrow> varg list \<Rightarrow> byte list option" where
  "render str esc [] args = Some []"
| "render str False (c # cs) args =
     (if c = percent then render str True cs args else map_option ((#) c) (render str False cs args))"
| "render str True (c # cs) args =
     (if c = percent then map_option ((#) percent) (render str False cs args)
      else if c = of_char CHR ''c'' then
        (case args of VInt n # args' \<Rightarrow> map_option ((#) (ucast n)) (render str False cs args') | _ \<Rightarrow> None)
      else if c = of_char CHR ''s'' then
        (case args of VStr p # args' \<Rightarrow> map_option ((@) (str p)) (render str False cs args') | _ \<Rightarrow> None)
      else if c = of_char CHR ''p'' then
        (case args of
           VPtr p # args' \<Rightarrow>
             map_option ((@) (bytes_of ''0x'' @ pointer_loop 16 p [])) (render str False cs args')
         | _ \<Rightarrow> None)
      else map_option ((@) [percent, c]) (render str False cs args))"

text \<open>String arguments are terminated strings with these contents, and no character argument is the null character.\<close>

fun arg_ok :: "'z machine_scheme \<Rightarrow> (cptr \<Rightarrow> byte list) \<Rightarrow> varg \<Rightarrow> bool" where
  "arg_ok s str (VInt n) \<longleftrightarrow> ucast n \<noteq> (0 :: byte)"
| "arg_ok s str (VStr p) \<longleftrightarrow> cstr s p (str p)"
| "arg_ok s str (VPtr p) \<longleftrightarrow> True"

lemma cstr_mem:
  assumes "mem s = mem t"
  shows "cstr s p cs = cstr t p cs"
  using holds_cong [OF assms] assms by (simp add: cstr_def split: cptr.splits)

lemma arg_ok_mem:
  assumes "mem s = mem t"
  shows "arg_ok s str a = arg_ok t str a"
  by (cases a) (simp_all add: cstr_mem [OF assms])

lemma ucast_len: "ucast (of_nat n :: size_t) = (of_nat n :: u32)"
  by (rule bit_word_eqI) (auto simp: bit_simps)

lemma length_bytes_of: "length (bytes_of cs) = length cs"
  by (simp add: bytes_of_def)

text \<open>What \<^verbatim>\<open>formatted_print\<close> needs of the function that outputs a string: it emits the characters of a terminated string,
  and emitting does not change memory.\<close>

locale puts_sink =
  fixes puts :: "'z puts"
    and out :: "'z machine_scheme \<Rightarrow> byte list \<Rightarrow> 'z machine_scheme"
  assumes puts_cstr: "cstr s p cs \<Longrightarrow> puts s p = Some (out s cs)"
    and out_Nil [simp]: "out s [] = s"
    and out_append [simp]: "out (out s as) bs = out s (as @ bs)"
    and mem_out [simp]: "mem (out s cs) = mem s"
begin

lemma puts_Lit: "0 \<notin> set cs \<Longrightarrow> length cs < 2 ^ 64 \<Longrightarrow> puts s (Lit cs) = Some (out s cs)"
  by (intro puts_cstr) (simp add: cstr_def)

lemma flush_eq:
  "0 \<notin> set buf \<Longrightarrow> length buf < BUF_LEN \<Longrightarrow>
    flush_buf puts s buf n = Some (out s buf, n + of_nat (length buf))"
  by (simp add: flush_buf_def puts_Lit BUF_LEN_def)

lemma pointer_print_eq:
  "pointer_print puts s p = Some (out s (bytes_of ''0x'' @ pointer_loop 16 p []), 18)"
  using pointer_loop_not_0 [of "[]" 16 p]
  by (simp add: pointer_print_def puts_Lit length_pointer_loop bytes_of_def)

lemma cstr_out [simp]: "cstr (out s as) p cs = cstr s p cs" "arg_ok (out s as) str = arg_ok s str"
  by (rule cstr_mem, simp) (rule ext, rule arg_ok_mem, simp)

lemma strlen_out: "cstr s p cs \<Longrightarrow> strlen (out s as) p = Some (of_nat (length cs))"
  by (rule strlen_cstr) simp

lemma print_spec_eq:
  assumes "render str True (c # cs) args = Some os" and "list_all (arg_ok s str) args" and "c \<noteq> 0"
  shows "\<exists>as os' args'. print_spec puts c s n args = Some (out s as, n + of_nat (length as), args') \<and>
    os = as @ os' \<and> render str False cs args' = Some os' \<and> list_all (arg_ok s str) args'"
  using assms
  by (auto simp: print_spec_def puts_Lit pointer_print_eq length_pointer_loop length_bytes_of
      puts_cstr strlen_out ucast_len split: if_splits list.splits varg.splits)

lemma print_char_eq:
  assumes "render str esc (c # cs) args = Some os" and "list_all (arg_ok s str) args" and "c \<noteq> 0"
    and "0 \<notin> set buf" and "length buf < BUF_LEN"
  shows "\<exists>as esc' buf' args' os'.
    print_char puts c (s, esc, buf, n, args) = Some (out s as, esc', buf', n + of_nat (length as), args') \<and>
    buf @ os = as @ buf' @ os' \<and> render str esc' cs args' = Some os' \<and> list_all (arg_ok s str) args' \<and>
    0 \<notin> set buf' \<and> length buf' < BUF_LEN"
proof (cases esc)
  case True
  have "render str True (c # cs) args = Some os" "list_all (arg_ok (out s buf) str) args"
    using assms(1,2) True by simp_all
  from print_spec_eq [OF this assms(3), of "n + of_nat (length buf)"]
  obtain as os' args' where ps:
    "print_spec puts c (out s buf) (n + of_nat (length buf)) args =
       Some (out s (buf @ as), n + of_nat (length buf) + of_nat (length as), args')"
    "os = as @ os'" "render str False cs args' = Some os'" "list_all (arg_ok s str) args'" by auto
  then show ?thesis
    using True flush_eq [OF assms(4,5)]
    by (intro exI [of _ "buf @ as"] exI [of _ False] exI [of _ "[]"] exI [of _ args'] exI [of _ os'])
      (simp add: print_char_def add.assoc BUF_LEN_def)
next
  case False
  show ?thesis
  proof (cases "c = percent")
    case True
    then show ?thesis using assms False
      by (intro exI [of _ "[]"] exI [of _ True] exI [of _ buf] exI [of _ args] exI [of _ os])
        (simp add: print_char_def)
  next
    case lit: False
    then obtain os' where os: "os = c # os'" "render str False cs args = Some os'"
      using assms(1) False by auto
    show ?thesis
    proof (cases "length (buf @ [c]) = BUF_LEN")
      case True
      then show ?thesis using assms False lit os puts_Lit [of "buf @ [c]" s]
        by (intro exI [of _ "buf @ [c]"] exI [of _ False] exI [of _ "[]"] exI [of _ args] exI [of _ os'])
          (simp add: print_char_def BUF_LEN_def)
    next
      case short: False
      then show ?thesis using assms False lit os
        by (intro exI [of _ "[]"] exI [of _ False] exI [of _ "buf @ [c]"] exI [of _ args] exI [of _ os'])
          (auto simp: print_char_def)
    qed
  qed
qed

lemma print_loop_eq:
  assumes "cstr s fmt cs" and "i < length cs" and "render str esc (drop i cs) args = Some os"
    and "list_all (arg_ok s str) args" and "0 \<notin> set buf" and "length buf < BUF_LEN"
  shows "\<exists>as esc' buf' args'.
    print_loop puts fmt (of_nat i) (s, esc, buf, n, args) =
      Some (out s as, esc', buf', n + of_nat (length as), args') \<and>
    buf @ os = as @ buf' \<and> 0 \<notin> set buf' \<and> length buf' < BUF_LEN"
  using assms
proof (induction "length cs - i" arbitrary: i s esc buf n args os rule: less_induct)
  case less
  have d: "drop i cs = cs ! i # drop (Suc i) cs" using less.prems(2) by (simp add: Cons_nth_drop_Suc)
  have c: "char_at s fmt (of_nat i) = cs ! i" "char_at s fmt (of_nat i + 1) = (cs @ [0]) ! Suc i"
    using char_at_cstr [OF less.prems(1), of i] char_at_cstr [OF less.prems(1), of "Suc i"] less.prems(2)
    by (simp_all add: nth_append add.commute)
  have nz: "cs ! j \<noteq> 0" if "j < length cs" for j using less.prems(1) that by (metis cstr_def nth_mem)
  from print_char_eq [OF less.prems(3) [unfolded d] less.prems(4) nz [OF less.prems(2)] less.prems(5,6), of n]
  obtain as esc' buf' args' os' where st:
    "print_char puts (cs ! i) (s, esc, buf, n, args) = Some (out s as, esc', buf', n + of_nat (length as), args')"
    "buf @ os = as @ buf' @ os'" "render str esc' (drop (Suc i) cs) args' = Some os'"
    "list_all (arg_ok s str) args'" "0 \<notin> set buf'" "length buf' < BUF_LEN" by blast
  have next_c: "char_at (out s as) fmt (of_nat i + 1) = (cs @ [0]) ! Suc i"
    using c(2) char_at_mem [of "out s as" s] by simp
  show ?case
  proof (cases "Suc i < length cs")
    case True
    have "\<exists>bs esc'' buf'' args''.
        print_loop puts fmt (of_nat (Suc i)) (out s as, esc', buf', n + of_nat (length as), args') =
          Some (out (out s as) bs, esc'', buf'', n + of_nat (length as) + of_nat (length bs), args'') \<and>
        buf' @ os' = bs @ buf'' \<and> 0 \<notin> set buf'' \<and> length buf'' < BUF_LEN"
      using True less.prems st by (intro less.hyps) auto
    then obtain bs esc'' buf'' args'' where
      "print_loop puts fmt (of_nat i + 1) (out s as, esc', buf', n + of_nat (length as), args') =
         Some (out s (as @ bs), esc'', buf'', n + of_nat (length (as @ bs)), args'')"
      "buf' @ os' = bs @ buf''" "0 \<notin> set buf''" "length buf'' < BUF_LEN"
      by (auto simp: add.assoc add.commute [of 1])
    then show ?thesis using st c next_c True nz [OF True]
      by (intro exI [of _ "as @ bs"] exI [of _ esc''] exI [of _ buf''] exI [of _ args''])
        (subst print_loop.simps, simp add: nth_append)
  next
    case False
    then have "drop (Suc i) cs = []" "(cs @ [0]) ! Suc i = 0" using less.prems(2) by (auto simp: nth_append)
    then show ?thesis using st c next_c
      by (intro exI [of _ as] exI [of _ esc'] exI [of _ buf'] exI [of _ args']) (subst print_loop.simps, simp)
  qed
qed

lemma formatted_print_eq:
  assumes "cstr s fmt cs" and "cs \<noteq> []" and "render str False cs args = Some os" and "list_all (arg_ok s str) args"
  shows "formatted_print puts s fmt args = Some (out s os, of_nat (length os))"
proof -
  obtain as esc' buf' args' where
    "print_loop puts fmt 0 (s, False, [], 0, args) = Some (out s as, esc', buf', of_nat (length as), args')"
    "os = as @ buf'" "0 \<notin> set buf'" "length buf' < BUF_LEN"
    using print_loop_eq [OF assms(1), of 0 str False args os "[]" 0] assms by (auto simp: BUF_LEN_def)
  then show ?thesis using flush_eq [of buf' "out s as" "of_nat (length as)"]
    by (simp add: formatted_print_def)
qed

end

interpretation early_sink: puts_sink printk_puts emit
  by unfold_locales (simp_all add: printk_puts_def early_puts_cstr)

text \<open>Literals without conversions, and literals whose arguments are pointers.\<close>

lemma printk_Lit:
  assumes "cs \<noteq> []" and "0 \<notin> set cs" and "length cs < 2 ^ 64" and "render (\<lambda>_. []) False cs args = Some os"
    and "\<And>a. a \<in> set args \<Longrightarrow> \<exists>p. a = VPtr p"
  shows "printk s (Lit cs) args = Some (emit s os, of_nat (length os))"
  unfolding printk_def
proof (rule early_sink.formatted_print_eq [where cs = cs and str = "\<lambda>_. []"])
  show "list_all (arg_ok s (\<lambda>_. [])) args" using assms(5) by (fastforce simp: list_all_iff)
qed (use assms in \<open>auto simp: cstr_def\<close>)

lemma render_plain: "percent \<notin> set cs \<Longrightarrow> render str False cs args = Some cs"
  by (induction cs) auto

lemma printk_plain:
  "cs \<noteq> [] \<Longrightarrow> 0 \<notin> set cs \<Longrightarrow> percent \<notin> set cs \<Longrightarrow> length cs < 2 ^ 64 \<Longrightarrow>
    printk s (Lit cs) [] = Some (emit s cs, of_nat (length cs))"
  by (rule printk_Lit) (simp_all add: render_plain)

lemma printk_then:
  assumes "cs \<noteq> []" and "0 \<notin> set cs" and "length cs < 2 ^ 64" and "render (\<lambda>_. []) False cs args = Some os"
    and "\<And>a. a \<in> set args \<Longrightarrow> \<exists>p. a = VPtr p"
  shows "do { (s', _) \<leftarrow> printk s (Lit cs) args; f s' } = f (emit s os)"
  by (simp add: printk_Lit [OF assms])

section \<open>Properties\<close>

text \<open>C15. \<^verbatim>\<open>printk\<close> of a non-empty format sends to the registered callbacks exactly the characters the format and its
  arguments describe, whatever the length of the format (the 32-byte buffer is flushed as often as needed), changes
  nothing else, and returns their number.  A single \<^verbatim>\<open>%\<close> at the end of the format prints nothing.\<close>

theorem printk_correct:
  assumes "cstr s fmt cs" and "cs \<noteq> []" and "render str False cs args = Some os" and "list_all (arg_ok s str) args"
  shows "printk s fmt args = Some (emit s os, of_nat (length os))"
  unfolding printk_def using assms by (rule early_sink.formatted_print_eq)

theorem printk_correct_witness:
  "printk demo_console (Lit (bytes_of ''err=%c%%'')) [VInt 55] = Some (emit demo_console (bytes_of ''err=7%''), 6) \<and>
   printk demo_console (Lit (bytes_of ''50%'')) [] = Some (emit demo_console (bytes_of ''50''), 2)"
  using printk_correct [of demo_console "Lit (bytes_of ''err=%c%%'')" "bytes_of ''err=%c%%''" "\<lambda>_. []" "[VInt 55]"
      "bytes_of ''err=7%''"]
    printk_correct [of demo_console "Lit (bytes_of ''50%'')" "bytes_of ''50%''" "\<lambda>_. []" "[]" "bytes_of ''50''"]
  by (simp add: cstr_def) (simp add: bytes_of_def)

text \<open>C31. \<^verbatim>\<open>%p\<close> prints \<^verbatim>\<open>0x\<close> and sixteen hexadecimal digits from which the pointer can be read back, and counts eighteen
  characters.\<close>

theorem pointer_print_roundtrip:
  "\<exists>ds. pointer_print printk_puts s p = Some (emit s (bytes_of ''0x'' @ ds), 18) \<and> length ds = 16 \<and> hex_value ds = p"
  using early_sink.pointer_print_eq [of s p] hex_value_pointer [of p]
  by (intro exI [of _ "pointer_loop 16 p []"]) (simp add: length_pointer_loop)

text \<open>A format that ends in a single \<^verbatim>\<open>%\<close> prints nothing for it, although a branch of the switch is meant to print it.\<close>

theorem printk_final_percent:
  assumes "cstr s fmt (cs @ [percent])" and "percent \<notin> set cs"
  shows "printk s fmt [] = Some (emit s cs, of_nat (length cs))"
proof -
  have "render (\<lambda>_. []) False (cs @ [percent]) [] = Some cs" using assms(2) by (induction cs) auto
  then show ?thesis
    unfolding printk_def using assms(1) by (intro early_sink.formatted_print_eq) auto
qed

theorem printk_final_percent_witness:
  "printk demo_console (Lit (bytes_of ''100%'')) [] = Some (emit demo_console (bytes_of ''100''), 3)"
  using printk_final_percent [of demo_console "Lit (bytes_of ''100%'')" "bytes_of ''100''"]
  by (simp add: cstr_def) (simp add: bytes_of_def)

end
