(* ===== verification/Free_List.thy ===== *)
theory Free_List
  imports Printf
begin

text \<open>
  \<^verbatim>\<open>kernel/mem/boot/free_list.c\<close>: the boot-time memory allocator, a doubly linked list of free regions kept in the
  free memory itself.  Each region starts with a \<^verbatim>\<open>struct boot_free_region\<close>: the pointers \<^verbatim>\<open>next\<close> and \<^verbatim>\<open>prev\<close> and the
  size of the region, at the offsets 0, 8 and 16.  The state adds the static variable \<^verbatim>\<open>boot_free_list\<close>.

  \<^const>\<open>None\<close> is a call without a defined result: an endless loop, a failed assertion, or a store through a null
  pointer.  A \<^verbatim>\<open>ssize_t\<close> is a word read with \<^const>\<open>sint\<close>.
\<close>

section \<open>Definitions\<close>

record boot = console +
  boot_free_list :: addr

definition region_struct_size :: size_t where
  "region_struct_size = 24"

definition region_next :: "'z machine_scheme \<Rightarrow> addr \<Rightarrow> addr" where
  "region_next s region = load64 s region"

definition region_prev :: "'z machine_scheme \<Rightarrow> addr \<Rightarrow> addr" where
  "region_prev s region = load64 s (region + 8)"

definition region_size :: "'z machine_scheme \<Rightarrow> addr \<Rightarrow> size_t" where
  "region_size s region = load64 s (region + 16)"

definition set_next :: "'z machine_scheme \<Rightarrow> addr \<Rightarrow> addr \<Rightarrow> 'z machine_scheme" where
  "set_next s region p = store64 s region p"

definition set_prev :: "'z machine_scheme \<Rightarrow> addr \<Rightarrow> addr \<Rightarrow> 'z machine_scheme" where
  "set_prev s region p = store64 s (region + 8) p"

definition set_size :: "'z machine_scheme \<Rightarrow> addr \<Rightarrow> size_t \<Rightarrow> 'z machine_scheme" where
  "set_size s region n = store64 s (region + 16) n"

definition boot_free_list_begin :: "'z boot_scheme \<Rightarrow> addr" where
  "boot_free_list_begin s = boot_free_list s"

definition boot_free_list_next :: "'z boot_scheme \<Rightarrow> addr \<Rightarrow> addr" where
  "boot_free_list_next s region = region_next s region"

definition alloc_after_unalignment :: "'z boot_scheme \<Rightarrow> addr \<Rightarrow> size_t \<Rightarrow> size_t \<Rightarrow> size_t" where
  "alloc_after_unalignment s region sz alignment =
     (region + region_size s region - sz) AND (push_bit (unat alignment) 1 - 1)"

definition alloc_before_unalignment :: "addr \<Rightarrow> size_t \<Rightarrow> size_t" where
  "alloc_before_unalignment region alignment =
     push_bit (unat alignment) 1 - (region AND (push_bit (unat alignment) 1 - 1))"

definition region_size_alloc_after :: "'z boot_scheme \<Rightarrow> addr \<Rightarrow> size_t \<Rightarrow> size_t \<Rightarrow> size_t" where
  "region_size_alloc_after s region sz alignment =
     region_size s region - (sz + alloc_after_unalignment s region sz alignment)"

definition region_size_alloc_before :: "'z boot_scheme \<Rightarrow> addr \<Rightarrow> size_t \<Rightarrow> size_t \<Rightarrow> size_t" where
  "region_size_alloc_before s region sz alignment =
     region_size s region - (sz + alloc_before_unalignment region alignment)"

text \<open>Removing a region from the list; \<^verbatim>\<open>alloc_after\<close> and \<^verbatim>\<open>alloc_before\<close> contain the same statements.\<close>

definition remove_region :: "'z boot_scheme \<Rightarrow> addr \<Rightarrow> 'z boot_scheme option" where
  "remove_region s region =
     do {
       s1 \<leftarrow> (if region_prev s region \<noteq> NULL then Some (set_next s (region_prev s region) (region_next s region))
              else if boot_free_list s = region then Some (s\<lparr>boot_free_list := region_next s region\<rparr>)
              else None);
       Some (if region_next s1 region \<noteq> NULL
             then set_prev s1 (region_next s1 region) (region_prev s1 region) else s1)
     }"

definition alloc_after :: "'z boot_scheme \<Rightarrow> addr \<Rightarrow> size_t \<Rightarrow> size_t \<Rightarrow> ('z boot_scheme \<times> addr) option" where
  "alloc_after s region sz alignment =
     (let unalignment = alloc_after_unalignment s region sz alignment;
          s1 = set_size s region (region_size s region - (sz + unalignment))
      in do {
        s2 \<leftarrow> (if region_size s1 region < region_struct_size then remove_region s1 region else Some s1);
        Some (s2, region + region_size s2 region)
      })"

definition alloc_before :: "'z boot_scheme \<Rightarrow> addr \<Rightarrow> size_t \<Rightarrow> size_t \<Rightarrow> ('z boot_scheme \<times> addr) option" where
  "alloc_before s region sz alignment =
     (let unalignment = alloc_before_unalignment region alignment;
          new_size = region_size s region - (sz + unalignment)
      in do {
        s' \<leftarrow>
          (if new_size < region_struct_size then remove_region s region
           else
             let prev = region_prev s region;
                 nxt = region_next s region;
                 new_region = region + (sz + unalignment);
                 s1 = set_next (set_prev (set_size s new_region new_size) new_region prev) new_region nxt
             in do {
               s2 \<leftarrow> (if prev \<noteq> NULL then Some (set_next s1 prev new_region)
                      else if boot_free_list s1 = region then Some (s1\<lparr>boot_free_list := new_region\<rparr>)
                      else None);
               Some (if nxt \<noteq> NULL then set_prev s2 nxt new_region else s2)
             });
        Some (s', region + unalignment)
      })"

text \<open>The search of \<^verbatim>\<open>boot_alloc\<close>: the best region so far, what would remain of it, and from which end to allocate.\<close>

type_synonym fit = "addr \<times> size_t \<times> bool"

definition better_fit :: "'z boot_scheme \<Rightarrow> size_t \<Rightarrow> size_t \<Rightarrow> addr \<Rightarrow> fit \<Rightarrow> fit" where
  "better_fit s sz alignment cur = (\<lambda>(smallest_fitting, smallest_fit, should_alloc_before).
     let after = region_size_alloc_after s cur sz alignment;
         before = region_size_alloc_before s cur sz alignment;
         greater = (if sint after > sint before then after else before)
     in if sint greater \<ge> 0 \<and> smallest_fit > greater then (cur, greater, after \<noteq> greater)
        else (smallest_fitting, smallest_fit, should_alloc_before))"

partial_function (option) alloc_loop ::
  "'z boot_scheme \<Rightarrow> size_t \<Rightarrow> size_t \<Rightarrow> addr \<Rightarrow> fit \<Rightarrow> fit option" where
  "alloc_loop s sz alignment cur fit =
     (if cur = NULL then Some fit
      else alloc_loop s sz alignment (boot_free_list_next s cur) (better_fit s sz alignment cur fit))"

definition boot_alloc :: "'z boot_scheme \<Rightarrow> size_t \<Rightarrow> size_t \<Rightarrow> ('z boot_scheme \<times> addr) option" where
  "boot_alloc s sz alignment =
     do {
       (smallest_fitting, smallest_fit, should_alloc_before) \<leftarrow>
         alloc_loop s sz alignment (boot_free_list_begin s) (NULL, - 1, False);
       (if smallest_fitting = NULL then Some (s, NULL)
        else if should_alloc_before then alloc_before s smallest_fitting sz alignment
        else alloc_after s smallest_fitting sz alignment)
     }"

text \<open>Stores through a pointer that may be null, which has no defined result.\<close>

definition store_next :: "'z machine_scheme \<Rightarrow> addr \<Rightarrow> addr \<Rightarrow> 'z machine_scheme option" where
  "store_next s region p = (if region = NULL then None else Some (set_next s region p))"

definition store_prev :: "'z machine_scheme \<Rightarrow> addr \<Rightarrow> addr \<Rightarrow> 'z machine_scheme option" where
  "store_prev s region p = (if region = NULL then None else Some (set_prev s region p))"

definition store_size :: "'z machine_scheme \<Rightarrow> addr \<Rightarrow> size_t \<Rightarrow> 'z machine_scheme option" where
  "store_size s region n = (if region = NULL then None else Some (set_size s region n))"

text \<open>
  How the body of the loop of \<^verbatim>\<open>boot_free\<close> ends: it returns from the function, breaks out of the loop, or reaches its end,
  the last two with the values of \<^verbatim>\<open>fully_before\<close> and \<^verbatim>\<open>fully_after\<close>.  The last statement of the body is a \<^verbatim>\<open>return\<close>,
  so that no path reaches the end; and nothing in the loop assigns to \<^verbatim>\<open>curr\<close>.  The expression \<^verbatim>\<open>curr + curr->size\<close> is
  arithmetic on a pointer to the struct, in units of 24 bytes.
\<close>

datatype 's flow = Return kerror 's | Break addr addr | Next addr addr

definition free_body ::
  "'z boot_scheme \<Rightarrow> addr \<Rightarrow> size_t \<Rightarrow> addr \<Rightarrow> addr \<Rightarrow> addr \<Rightarrow> 'z boot_scheme flow" where
  "free_body s start sz cur fully_before fully_after =
     (let stop = start + sz; curr_end = cur + region_struct_size * region_size s cur in
      if curr_end = start then
        let nxt = boot_free_list_next s cur
        in if nxt \<noteq> NULL \<and> nxt = stop then
             let s1 = set_size s cur (region_size s cur + (sz + region_size s nxt));
                 s2 = set_next s1 cur (region_next s1 nxt)
             in Return KERR_SUCCESS
                  (if region_next s2 cur \<noteq> NULL
                   then set_prev s2 (region_next s2 cur) (region_prev s2 nxt) else s2)
           else if nxt = NULL \<or> nxt > stop then
             Return KERR_SUCCESS (set_size s cur (region_size s cur + sz))
           else Return KERR_EXIST s
      else
        let before = (if curr_end < start then cur else fully_before)
        in if \<not> curr_end < start \<and> cur > stop then Break before cur
           else Return KERR_EXIST s)"

partial_function (option) free_loop ::
  "'z boot_scheme \<Rightarrow> addr \<Rightarrow> size_t \<Rightarrow> addr \<Rightarrow> addr \<Rightarrow> addr \<Rightarrow> 'z boot_scheme flow option" where
  "free_loop s start sz cur fully_before fully_after =
     (if cur \<noteq> NULL then
        case free_body s start sz cur fully_before fully_after of
          Next before after \<Rightarrow> free_loop s start sz cur before after
        | r \<Rightarrow> Some r
      else Some (Break fully_before fully_after))"

text \<open>The format of the message is joined with the name of the file, as the missing comma has it.\<close>

definition boot_free :: "'z boot_scheme \<Rightarrow> addr \<Rightarrow> size_t \<Rightarrow> (kerror \<times> 'z boot_scheme) option" where
  "boot_free s start sz =
     (let region = start in
      if boot_free_list s = NULL then
        if sz < region_struct_size then Some (KERR_EMPTY, s)
        else do {
          s1 \<leftarrow> store_prev s region NULL;
          s2 \<leftarrow> store_next s1 region NULL;
          s3 \<leftarrow> store_size s2 region sz;
          Some (KERR_SUCCESS, s3\<lparr>boot_free_list := region\<rparr>)
        }
      else do {
        r \<leftarrow> free_loop s start sz (boot_free_list_begin s) NULL NULL;
        (case r of
           Return err s' \<Rightarrow> Some (err, s')
         | Break fully_before fully_after \<Rightarrow>
             if fully_before = NULL \<and> fully_after = NULL then do {
               (s', _) \<leftarrow> printk s (Lit (bytes_of (''This shouldn't happen: %s\<newline>'' @ ''src/kernel/mem/boot/free_list.c''))) [];
               Some (KERR_EXIST, s')
             }
             else do {
               s1 \<leftarrow> store_prev s region fully_before;
               s2 \<leftarrow> store_next s1 region fully_after;
               s3 \<leftarrow> store_prev s2 fully_after region;
               s4 \<leftarrow> store_next s3 fully_before region;
               s5 \<leftarrow> store_size s4 region sz;
               Some (KERR_SUCCESS, s5)
             }
         | Next _ _ \<Rightarrow> None)
      })"

partial_function (option) dump_loop :: "'z boot_scheme \<Rightarrow> addr \<Rightarrow> 'z boot_scheme option" where
  "dump_loop s cur =
     (if cur = NULL then Some s
      else do {
        (s', _) \<leftarrow> printk s (Lit (bytes_of ''[%p - %p] size = (%p bytes)\<newline>''))
          [VPtr cur, VPtr (cur + region_size s cur), VPtr (region_size s cur)];
        dump_loop s' (boot_free_list_next s' cur)
      })"

definition boot_mem_dump :: "'z boot_scheme \<Rightarrow> (kerror \<times> 'z boot_scheme) option" where
  "boot_mem_dump s =
     do {
       (s1, _) \<leftarrow> printk s (Lit (bytes_of ''--- BOOT ALLOC FREE REGIONS ---\<newline>'')) [];
       s2 \<leftarrow> dump_loop s1 (boot_free_list_begin s1);
       (s3, _) \<leftarrow> printk s2 (Lit (bytes_of ''-------------------------------\<newline>'')) [];
       Some (KERR_SUCCESS, s3)
     }"

section \<open>Fields of a region\<close>

lemmas region_defs = region_next_def region_prev_def region_size_def set_next_def set_prev_def set_size_def

lemma boot_frame [simp]:
  "boot_free_list (set_next s a w) = boot_free_list s" "boot_free_list (set_prev s a w) = boot_free_list s"
  "boot_free_list (set_size s a w) = boot_free_list s" "boot_free_list (emit s cs) = boot_free_list s"
  for s :: "'z boot_scheme"
  by (simp_all add: region_defs store64_def write_bytes_def emit_def)

lemma region_upd [simp]:
  "region_next (s\<lparr>boot_free_list := p\<rparr>) a = region_next s a"
  "region_prev (s\<lparr>boot_free_list := p\<rparr>) a = region_prev s a"
  "region_size (s\<lparr>boot_free_list := p\<rparr>) a = region_size s a"
  by (simp_all add: region_defs load64_def read_bytes_def host_join_def)

text \<open>The bytes of the structs at two addresses do not overlap.\<close>

definition apart :: "addr \<Rightarrow> addr \<Rightarrow> bool" where
  "apart a b \<longleftrightarrow> unat a + 24 < 2 ^ 64 \<and> unat b + 24 < 2 ^ 64 \<and> (unat a + 24 \<le> unat b \<or> unat b + 24 \<le> unat a)"

lemma apart_sym: "apart a b \<longleftrightarrow> apart b a"
  by (auto simp: apart_def)

lemma unat_plus_const:
  "unat (a :: addr) + 24 < 2 ^ 64 \<Longrightarrow> unat (a + 8) = unat a + 8"
  "unat (a :: addr) + 24 < 2 ^ 64 \<Longrightarrow> unat (a + 16) = unat a + 16"
  using unat_add_nowrap [of a 8] unat_add_nowrap [of a 16] by simp_all

lemma region_other [simp]:
  assumes "apart a b"
  shows "region_next (set_next s a w) b = region_next s b" "region_next (set_prev s a w) b = region_next s b"
    "region_next (set_size s a w) b = region_next s b" "region_prev (set_next s a w) b = region_prev s b"
    "region_prev (set_prev s a w) b = region_prev s b" "region_prev (set_size s a w) b = region_prev s b"
    "region_size (set_next s a w) b = region_size s b" "region_size (set_prev s a w) b = region_size s b"
    "region_size (set_size s a w) b = region_size s b"
  using assms
  by (auto simp: region_defs apart_def disjoint_def unat_plus_const intro!: load64_store64_other)

lemma region_same [simp]:
  "region_next (set_next s a w) a = w" "region_prev (set_prev s a w) a = w" "region_size (set_size s a w) a = w"
  by (simp_all add: region_defs mem_simps)

lemma region_own [simp]:
  assumes "unat a + 24 < 2 ^ 64"
  shows "region_next (set_prev s a w) a = region_next s a" "region_next (set_size s a w) a = region_next s a"
    "region_prev (set_next s a w) a = region_prev s a" "region_prev (set_size s a w) a = region_prev s a"
    "region_size (set_next s a w) a = region_size s a" "region_size (set_prev s a w) a = region_size s a"
  using assms
  by (auto simp: region_defs disjoint_def unat_plus_const intro!: load64_store64_other)

section \<open>The list of regions\<close>

text \<open>A doubly linked segment: the regions \<^term>\<open>rs\<close> from \<^term>\<open>p\<close> on, the one before them being \<^term>\<open>prev\<close>; \<^term>\<open>e\<close> is
  the last of them and \<^term>\<open>q\<close> what follows it.\<close>

fun seg :: "'z machine_scheme \<Rightarrow> addr \<Rightarrow> addr \<Rightarrow> (addr \<times> size_t) list \<Rightarrow> addr \<Rightarrow> addr \<Rightarrow> bool" where
  "seg s prev p [] e q \<longleftrightarrow> e = prev \<and> q = p"
| "seg s prev p ((a, n) # rs) e q \<longleftrightarrow>
     p = a \<and> a \<noteq> NULL \<and> region_prev s a = prev \<and> region_size s a = n \<and> seg s a (region_next s a) rs e q"

text \<open>The regions lie in order above \<^term>\<open>lo\<close>, do not overlap, and each holds its own struct.\<close>

fun ordered :: "nat \<Rightarrow> (addr \<times> size_t) list \<Rightarrow> bool" where
  "ordered lo [] \<longleftrightarrow> True"
| "ordered lo ((a, n) # rs) \<longleftrightarrow>
     lo \<le> unat a \<and> 24 \<le> unat n \<and> unat n < 2 ^ 63 \<and> unat a + unat n < 2 ^ 64 \<and> ordered (unat a + unat n) rs"

definition free_list_ok :: "'z boot_scheme \<Rightarrow> (addr \<times> size_t) list \<Rightarrow> bool" where
  "free_list_ok s rs \<longleftrightarrow> (\<exists>e. seg s NULL (boot_free_list s) rs e NULL) \<and> ordered 1 rs"

lemma ordered_mem:
  "ordered lo rs \<Longrightarrow> (a, n) \<in> set rs \<Longrightarrow>
    lo \<le> unat a \<and> 24 \<le> unat n \<and> unat n < 2 ^ 63 \<and> unat a + unat n < 2 ^ 64"
  by (induction lo rs rule: ordered.induct) auto

lemma ordered_apart: "ordered lo ((a, n) # rs) \<Longrightarrow> (b, m) \<in> set rs \<Longrightarrow> apart a b"
  using ordered_mem [of "unat a + unat n" rs b m] by (auto simp: apart_def)

lemma ordered_append:
  "ordered lo (xs @ ys) \<longleftrightarrow> ordered lo xs \<and> ordered (if xs = [] then lo else unat (fst (last xs)) + unat (snd (last xs))) ys"
  by (induction lo xs rule: ordered.induct) auto

lemma ordered_mono: "ordered lo rs \<Longrightarrow> lo' \<le> lo \<Longrightarrow> ordered lo' rs"
  by (cases rs) auto

lemma seg_append: "seg s prev p (xs @ ys) e q \<longleftrightarrow> (\<exists>e' q'. seg s prev p xs e' q' \<and> seg s e' q' ys e q)"
  by (induction s prev p xs e q rule: seg.induct) auto

lemma seg_frame:
  assumes "\<And>a n. (a, n) \<in> set rs \<Longrightarrow>
    region_next t a = region_next s a \<and> region_prev t a = region_prev s a \<and> region_size t a = region_size s a"
  shows "seg t prev p rs e q = seg s prev p rs e q"
  using assms
proof (induction rs arbitrary: prev p)
  case (Cons r rs)
  obtain a n where r: "r = (a, n)" by force
  have "seg t prev' p' rs e q = seg s prev' p' rs e q" for prev' p' using Cons by auto
  then show ?case using Cons.prems [of a n] by (simp add: r)
qed simp

lemma seg_end: "seg s prev p rs e q \<Longrightarrow> rs \<noteq> [] \<Longrightarrow> e = fst (last rs)"
  by (induction s prev p rs e q rule: seg.induct) (auto split: if_splits)

lemma seg_end_not_null: "seg s prev p rs e q \<Longrightarrow> rs \<noteq> [] \<Longrightarrow> e \<noteq> NULL"
  by (induction s prev p rs e q rule: seg.induct) (auto split: if_splits elim: seg.elims)

lemma seg_begin: "seg s prev p ((a, n) # rs) e q \<Longrightarrow> p = a"
  by simp

text \<open>The two stores that link a region to its neighbours: into the one before (or the list head), and into the one after.\<close>

definition set_left :: "'z boot_scheme \<Rightarrow> addr \<Rightarrow> addr \<Rightarrow> 'z boot_scheme" where
  "set_left s e q = (if e \<noteq> NULL then set_next s e q else s\<lparr>boot_free_list := q\<rparr>)"

definition set_right :: "'z boot_scheme \<Rightarrow> addr \<Rightarrow> addr \<Rightarrow> 'z boot_scheme" where
  "set_right s q e = (if q \<noteq> NULL then set_prev s q e else s)"

lemma seg_set_next:
  assumes "seg s prev p rs e q" and "ordered lo rs" and "rs \<noteq> []"
  shows "seg (set_next s e q') prev p rs e q'"
  using assms
proof (induction rs arbitrary: prev p lo)
  case (Cons r rs)
  obtain a n where r: "r = (a, n)" by force
  have b: "unat a + 24 < 2 ^ 64" using Cons.prems(2) by (auto simp: r)
  show ?case
  proof (cases "rs = []")
    case True
    then show ?thesis using Cons.prems b by (auto simp: r)
  next
    case False
    have "e = fst (last rs)" using seg_end [of s a "region_next s a" rs e q] Cons.prems False by (simp add: r)
    then have "(e, snd (last rs)) \<in> set rs" using False by simp
    then have "apart e a" using ordered_apart [of lo a n rs e] Cons.prems(2) by (simp add: r apart_sym)
    then show ?thesis using Cons.prems Cons.IH [of a "region_next s a"] False by (auto simp: r)
  qed
qed simp

lemma set_left_seg:
  assumes "seg s NULL (boot_free_list s) rs e q" and "ordered lo rs"
  shows "seg (set_left s e q') NULL (boot_free_list (set_left s e q')) rs e q'"
proof (cases "rs = []")
  case True
  then show ?thesis using assms by (simp add: set_left_def)
next
  case False
  then show ?thesis using seg_set_next [OF assms False] seg_end_not_null [OF assms(1) False]
    by (simp add: set_left_def)
qed

lemma set_right_seg:
  assumes "seg s b q rs e NULL" and "ordered lo rs"
  shows "\<exists>e'. seg (set_right s q b') b' q rs e' NULL"
proof (cases rs)
  case Nil
  then show ?thesis using assms by (simp add: set_right_def)
next
  case (Cons r rs')
  obtain a n where r: "r = (a, n)" by force
  have a: "q = a" "a \<noteq> NULL" "unat a + 24 < 2 ^ 64" using assms by (auto simp: Cons r)
  have "seg (set_prev s a b') a (region_next s a) rs' e NULL = seg s a (region_next s a) rs' e NULL"
    using assms(2) ordered_apart [of lo a n rs'] by (intro seg_frame) (auto simp: Cons r)
  then show ?thesis using assms(1) a by (auto simp: Cons r set_right_def)
qed

lemma set_left_right_other:
  assumes "e \<noteq> NULL \<Longrightarrow> apart e b"
  shows "region_next (set_left s e w) b = region_next s b" "region_prev (set_left s e w) b = region_prev s b"
    "region_size (set_left s e w) b = region_size s b" "region_next (set_right s e w) b = region_next s b"
    "region_prev (set_right s e w) b = region_prev s b" "region_size (set_right s e w) b = region_size s b"
  using assms by (auto simp: set_left_def set_right_def)

lemma set_right_head [simp]: "boot_free_list (set_right s q e) = boot_free_list s"
  by (simp add: set_right_def)

text \<open>Free memory, and states that differ only there.\<close>

definition free_bytes :: "(addr \<times> size_t) list \<Rightarrow> nat set" where
  "free_bytes rs = (\<Union>(a, n) \<in> set rs. {unat a ..< unat a + unat n})"

definition writes_only :: "nat set \<Rightarrow> 'z machine_scheme \<Rightarrow> 'z machine_scheme \<Rightarrow> bool" where
  "writes_only R s s' \<longleftrightarrow> (\<forall>x. mem s' x \<noteq> mem s x \<longrightarrow> unat x \<in> R)"

lemma writes_only_refl [simp]: "writes_only R s s"
  by (simp add: writes_only_def)

lemma writes_only_trans: "writes_only R s s' \<Longrightarrow> writes_only R s' s'' \<Longrightarrow> writes_only R s s''"
  unfolding writes_only_def by metis

lemma writes_only_store64:
  assumes "{unat a ..< unat a + 8} \<subseteq> R" and "unat a + 8 < 2 ^ 64"
  shows "writes_only R s (store64 s a w)"
proof -
  have "unat x \<in> R" if "unat (x - a) < 8" for x
  proof -
    have "x = a + of_nat (unat (x - a))" by simp
    then have "unat x = unat a + unat (x - a)" using unat_add_nowrap [of a "unat (x - a)"] that assms(2) by simp
    then show ?thesis using assms(1) that by auto
  qed
  then show ?thesis by (auto simp: writes_only_def store64_def mem_write_bytes)
qed

lemma writes_only_region:
  assumes "{unat a ..< unat a + 24} \<subseteq> R" and "unat a + 24 < 2 ^ 64"
  shows "writes_only R s (set_next s a w)" "writes_only R s (set_prev s a w)" "writes_only R s (set_size s a w)"
  unfolding region_defs using assms by (auto intro!: writes_only_store64 simp: unat_plus_const subset_eq)

lemma region_in_free:
  assumes "(a, n) \<in> set rs" and "ordered lo rs"
  shows "{unat a ..< unat a + 24} \<subseteq> free_bytes rs" and "unat a + 24 < 2 ^ 64"
proof -
  note o = ordered_mem [OF assms(2,1)]
  then show "unat a + 24 < 2 ^ 64" by linarith
  have "{unat a ..< unat a + 24} \<subseteq> {unat a ..< unat a + unat n}" using o by auto
  then show "{unat a ..< unat a + 24} \<subseteq> free_bytes rs" using assms(1) by (auto simp: free_bytes_def)
qed

section \<open>Removing a region\<close>

text \<open>A region at \<^term>\<open>a\<close> linked between the regions \<^term>\<open>xs\<close> and \<^term>\<open>ys\<close>, whatever its size field says.\<close>

definition located ::
  "'z boot_scheme \<Rightarrow> (addr \<times> size_t) list \<Rightarrow> addr \<Rightarrow> size_t \<Rightarrow> (addr \<times> size_t) list \<Rightarrow> addr \<Rightarrow> addr \<Rightarrow> bool" where
  "located s xs a n ys e q \<longleftrightarrow>
     ordered 1 (xs @ (a, n) # ys) \<and> seg s NULL (boot_free_list s) xs e a \<and> a \<noteq> NULL \<and>
     region_prev s a = e \<and> region_next s a = q \<and> (\<exists>e'. seg s a q ys e' NULL)"

lemma free_list_located:
  assumes "free_list_ok s (xs @ (a, n) # ys)"
  obtains e q where "located s xs a n ys e q" and "region_size s a = n"
  using assms by (auto simp: free_list_ok_def located_def seg_append)

lemma locatedD:
  assumes "located s xs a n ys e q"
  shows "ordered 1 xs" and "ordered (unat a + unat n) ys" and "ordered 1 (xs @ ys)"
    and "\<And>b m. (b, m) \<in> set (xs @ ys) \<Longrightarrow> apart a b"
    and "\<And>b m c k. (b, m) \<in> set xs \<Longrightarrow> (c, k) \<in> set ys \<Longrightarrow> apart b c"
    and "unat a + 24 < 2 ^ 64" and "24 \<le> unat n" and "1 \<le> unat a" and "unat a + unat n < 2 ^ 64" and "unat n < 2 ^ 63"
proof -
  have o: "ordered 1 (xs @ (a, n) # ys)" using assms by (simp add: located_def)
  show a: "24 \<le> unat n" "1 \<le> unat a" "unat a + unat n < 2 ^ 64" "unat n < 2 ^ 63"
    using ordered_mem [OF o, of a n] by auto
  then show "unat a + 24 < 2 ^ 64" by linarith
  show "ordered 1 xs" "ordered (unat a + unat n) ys" "ordered 1 (xs @ ys)"
    using o by (auto simp: ordered_append split: if_splits elim!: ordered_mono)
  have sep: "ordered lo (us @ (b, m) # vs) \<Longrightarrow> (c, k) \<in> set vs \<Longrightarrow> apart b c" for lo us b m vs c k
    using ordered_apart [of _ b m vs c k] by (auto simp: ordered_append)
  have le: "apart b c" if "(b, m) \<in> set xs" "(c, k) \<in> set ((a, n) # ys)" for b m c k
  proof -
    obtain us vs where "xs = us @ (b, m) # vs" using \<open>(b, m) \<in> set xs\<close> by (meson split_list)
    then show ?thesis using sep [of 1 us b m "vs @ (a, n) # ys" c k] o that(2) by auto
  qed
  then show "\<And>b m c k. (b, m) \<in> set xs \<Longrightarrow> (c, k) \<in> set ys \<Longrightarrow> apart b c" by auto
  show "apart a b" if "(b, m) \<in> set (xs @ ys)" for b m
    using that le [of b m a n] sep [OF o, of b m] by (auto simp: apart_sym)
qed

lemma located_left:
  assumes "located s xs a n ys e q"
  shows "e = NULL \<longleftrightarrow> xs = []" and "xs \<noteq> [] \<Longrightarrow> (e, snd (last xs)) \<in> set xs" and "xs = [] \<Longrightarrow> boot_free_list s = a"
  using assms seg_end [of s NULL "boot_free_list s" xs e a] seg_end_not_null [of s NULL "boot_free_list s" xs e a]
  by (cases "xs = []"; auto simp: located_def)+

lemma located_right:
  assumes "located s xs a n ys e q"
  shows "q = NULL \<longleftrightarrow> ys = []" and "ys \<noteq> [] \<Longrightarrow> (q, snd (hd ys)) \<in> set ys"
  using assms by (cases ys; auto simp: located_def)+

text \<open>Linking what is left of \<^term>\<open>a\<close> and what is right of it: together with \<^term>\<open>zs\<close> in between, the list is
  complete again.\<close>

lemma relink:
  assumes "located s xs a n ys e q" and "seg t NULL (boot_free_list t) xs e a" and "seg t a q ys e' NULL"
  shows "\<exists>e'. seg (set_right (set_left t e p) q b) NULL (boot_free_list (set_right (set_left t e p) q b)) xs e p \<and>
    seg (set_right (set_left t e p) q b) b q ys e' NULL"
proof -
  let ?s1 = "set_left t e p" and ?s2 = "set_right (set_left t e p) q b"
  note d = locatedD [OF assms(1)] and l = located_left [OF assms(1)] and r = located_right [OF assms(1)]
  have eys: "e \<noteq> NULL \<Longrightarrow> (c, k) \<in> set ys \<Longrightarrow> apart e c" for c k using l d(5) by blast
  have qxs: "q \<noteq> NULL \<Longrightarrow> (c, k) \<in> set xs \<Longrightarrow> apart q c" for c k using r d(5) apart_sym by blast
  have left: "seg ?s1 NULL (boot_free_list ?s1) xs e p" by (rule set_left_seg [OF assms(2) d(1)])
  have "seg ?s1 a q ys e' NULL"
    using assms(3) eys by (subst seg_frame [where s = t]) (auto simp: set_left_right_other)
  from set_right_seg [OF this d(2)] obtain e'' where "seg ?s2 b q ys e'' NULL" by blast
  moreover have "seg ?s2 NULL (boot_free_list ?s2) xs e p"
    using left qxs by (subst seg_frame [where s = ?s1]) (auto simp: set_left_right_other)
  ultimately show ?thesis by blast
qed

lemma remove_region_eq:
  assumes "located s xs a n ys e q"
  shows "remove_region s a = Some (set_right (set_left s e q) q e)"
    and "free_list_ok (set_right (set_left s e q) q e) (xs @ ys)"
    and "region_size (set_right (set_left s e q) q e) a = region_size s a"
proof -
  note d = locatedD [OF assms] and l = located_left [OF assms] and r = located_right [OF assms]
  have ea: "e \<noteq> NULL \<Longrightarrow> apart e a" using l d(4) apart_sym by fastforce
  have qa: "q \<noteq> NULL \<Longrightarrow> apart q a" using r d(4) apart_sym by fastforce
  have f: "region_prev s a = e" "region_next s a = q" using assms by (simp_all add: located_def)
  have "region_next (set_left s e q) a = q" "region_prev (set_left s e q) a = e"
    using f by (simp_all add: set_left_right_other [OF ea])
  then show "remove_region s a = Some (set_right (set_left s e q) q e)"
    using f l by (auto simp: remove_region_def set_left_def set_right_def)
  obtain e' where "seg s NULL (boot_free_list s) xs e a" "seg s a q ys e' NULL"
    using assms by (auto simp: located_def)
  from relink [OF assms this, of q e] show "free_list_ok (set_right (set_left s e q) q e) (xs @ ys)"
    using d(3) by (auto simp: free_list_ok_def seg_append)
  show "region_size (set_right (set_left s e q) q e) a = region_size s a"
    by (simp add: set_left_right_other(6) [OF qa] set_left_right_other(3) [OF ea])
qed

lemma link_writes:
  assumes "located s xs a n ys e q"
  shows "writes_only (free_bytes (xs @ (a, n) # ys)) t (set_right (set_left t e p) q b)"
proof -
  note l = located_left [OF assms] and r = located_right [OF assms]
  have o: "ordered 1 (xs @ (a, n) # ys)" using assms by (simp add: located_def)
  have "writes_only (free_bytes (xs @ (a, n) # ys)) t (set_left t e p)"
    using l region_in_free [OF _ o, of e "snd (last xs)"] by (auto simp: set_left_def writes_only_region) (simp add: writes_only_def)
  moreover have "writes_only (free_bytes (xs @ (a, n) # ys)) t' (set_right t' q b)" for t'
    using r region_in_free [OF _ o, of q "snd (hd ys)"] by (auto simp: set_right_def writes_only_region)
  ultimately show ?thesis using writes_only_trans by blast
qed

lemma free_bytes_simps [simp]:
  "free_bytes [] = {}" "free_bytes ((a, n) # rs) = {unat a ..< unat a + unat n} \<union> free_bytes rs"
  "free_bytes (xs @ ys) = free_bytes xs \<union> free_bytes ys"
  by (auto simp: free_bytes_def)

lemma ordered_below: "ordered lo rs \<Longrightarrow> x \<in> free_bytes rs \<Longrightarrow> lo \<le> x"
  by (induction lo rs rule: ordered.induct) auto

lemma ordered_above:
  "ordered lo (xs @ (a, n) # ys) \<Longrightarrow> x \<in> free_bytes xs \<Longrightarrow> x < unat a"
proof (induction lo xs rule: ordered.induct)
  case (2 lo b m xs)
  then show ?case using ordered_mem [of "unat b + unat m" "xs @ (a, n) # ys" a n] by auto
qed simp

lemma ordered_disjoint:
  "ordered lo (xs @ (a, n) # ys) \<Longrightarrow> {unat a ..< unat a + unat n} \<inter> free_bytes (xs @ ys) = {}"
  using ordered_above [of lo xs a n ys] ordered_below [of "unat a + unat n" ys]
  by (fastforce simp: ordered_append)

section \<open>Alignment and sizes\<close>

text \<open>An aligned block of \<^term>\<open>z\<close> bytes fits into the region of \<^term>\<open>n\<close> bytes at \<^term>\<open>a\<close>.\<close>

definition fits :: "nat \<Rightarrow> nat \<Rightarrow> nat \<Rightarrow> nat \<Rightarrow> bool" where
  "fits a n z k \<longleftrightarrow> (\<exists>p. 2 ^ k dvd p \<and> a \<le> p \<and> p + z \<le> a + n)"

lemma and_align_mask: "x AND (2 ^ k - 1) = take_bit k (x :: addr)"
  by (simp add: take_bit_eq_mask mask_eq_exp_minus_1 push_bit_eq_mult)

lemma unat_take_bit64: "unat (take_bit k (x :: addr)) = unat x mod 2 ^ k"
  by (simp only: unsigned_take_bit_eq) (simp add: take_bit_eq_mod)

lemma uint_less63:
  assumes "unat (x :: size_t) < 2 ^ 63"
  shows "uint x < 2 ^ 63"
proof -
  have "int (unat x) < int (2 ^ 63)" using assms by (simp only: of_nat_less_iff)
  then show ?thesis by (simp only: uint_nat of_nat_power of_nat_numeral)
qed

lemma sint_diff64:
  fixes x y :: size_t
  assumes "unat x < 2 ^ 63" and "unat y < 2 ^ 63"
  shows "sint (x - y) = int (unat x) - int (unat y)"
proof -
  have b: "uint x < 2 ^ 63" "uint y < 2 ^ 63" "0 \<le> uint x" "0 \<le> uint y"
    using uint_less63 [OF assms(1)] uint_less63 [OF assms(2)] by simp_all
  have "sint (x - y) = signed_take_bit 63 (uint x - uint y)"
    by (simp add: sint_uint uint_word_arith_bintrs(2) signed_take_bit_take_bit)
  also have "\<dots> = uint x - uint y"
  proof (rule signed_take_bit_int_eq_self)
    show "- (2 ^ 63) \<le> uint x - uint y" "uint x - uint y < 2 ^ 63" using b by linarith+
  qed
  finally show ?thesis by (simp only: uint_nat)
qed

text \<open>The values the code computes for a region, under the bounds that keep them below \<^term>\<open>2 ^ 63\<close>.\<close>

definition request_ok :: "size_t \<Rightarrow> size_t \<Rightarrow> bool" where
  "request_ok sz al \<longleftrightarrow> unat sz < 2 ^ 62 \<and> unat al < 62"

lemma unat_add64: "unat a + unat b < 2 ^ 64 \<Longrightarrow> unat (a + b :: addr) = unat a + unat b"
  using unat_add_nowrap [of a "unat b"] by simp

lemma exp_small: "k < 62 \<Longrightarrow> (2 :: nat) ^ k < 2 ^ 62"
  by (simp only: power_strict_increasing_iff)

lemma unat_exp64:
  assumes "k < 62"
  shows "unat ((2 :: addr) ^ k) = 2 ^ k"
proof -
  have "(2 :: nat) ^ k < 2 ^ 64" using assms by (intro power_strict_increasing) auto
  then have "unat (of_nat (2 ^ k) :: addr) = 2 ^ k" by (simp only: unat_of_nat) simp
  then show ?thesis by simp
qed

lemma unalignment_bounds:
  assumes "request_ok sz al"
  shows "unat (alloc_after_unalignment s a sz al) = unat (a + region_size s a - sz) mod 2 ^ unat al"
    and "unat (alloc_before_unalignment a al) = 2 ^ unat al - unat a mod 2 ^ unat al"
    and "unat (alloc_after_unalignment s a sz al) < 2 ^ 62" and "unat (alloc_before_unalignment a al) \<le> 2 ^ 62"
    and "0 < unat (alloc_before_unalignment a al)"
proof -
  let ?k = "unat al"
  have k: "?k < 62" "(2 :: nat) ^ ?k < 2 ^ 62" using assms exp_small by (auto simp: request_ok_def)
  show a: "unat (alloc_after_unalignment s a sz al) = unat (a + region_size s a - sz) mod 2 ^ ?k"
    by (simp add: alloc_after_unalignment_def and_align_mask unat_take_bit64)
  have le: "unat a mod 2 ^ ?k < 2 ^ ?k" by simp
  then have "take_bit ?k a \<le> 2 ^ ?k" by (simp add: word_le_nat_alt unat_take_bit64 unat_exp64 k)
  then show b: "unat (alloc_before_unalignment a al) = 2 ^ ?k - unat a mod 2 ^ ?k"
    by (simp add: alloc_before_unalignment_def and_align_mask unat_sub unat_take_bit64 unat_exp64 k)
  have "unat (a + region_size s a - sz) mod 2 ^ ?k < 2 ^ ?k" by simp
  then show "unat (alloc_after_unalignment s a sz al) < 2 ^ 62" unfolding a using k(2) by (rule less_trans)
  show "unat (alloc_before_unalignment a al) \<le> 2 ^ 62" "0 < unat (alloc_before_unalignment a al)"
    using b k(2) le by simp_all
qed

lemma remainder:
  fixes n sz u :: size_t
  assumes "unat n < 2 ^ 63" and "unat sz < 2 ^ 62" and "unat u \<le> 2 ^ 62"
  shows "unat (sz + u) = unat sz + unat u" and "sint (n - (sz + u)) = int (unat n) - int (unat sz + unat u)"
    and "unat sz + unat u \<le> unat n \<Longrightarrow> unat (n - (sz + u)) = unat n - (unat sz + unat u)"
    and "0 \<le> sint (n - (sz + u)) \<longleftrightarrow> unat sz + unat u \<le> unat n"
proof -
  show u: "unat (sz + u) = unat sz + unat u"
    using unat_add_nowrap [of sz "unat u"] assms by simp
  then have "unat (sz + u) < 2 ^ 63" using assms by simp
  then show i: "sint (n - (sz + u)) = int (unat n) - int (unat sz + unat u)"
    using sint_diff64 [of n "sz + u"] assms(1) u by simp
  show "unat (n - (sz + u)) = unat n - (unat sz + unat u)" if "unat sz + unat u \<le> unat n"
    using that u by (simp add: unat_sub word_le_nat_alt)
  show "0 \<le> sint (n - (sz + u)) \<longleftrightarrow> unat sz + unat u \<le> unat n" using i by linarith
qed

text \<open>Allocating at the end is possible exactly when an aligned block fits at all.\<close>

lemma after_fits:
  assumes "unat a + unat n < 2 ^ 64" and "unat n < 2 ^ 63" and "request_ok sz al"
    and u: "u = unat (a + n - sz) mod 2 ^ unat al"
  shows "unat sz + u \<le> unat n \<longleftrightarrow> fits (unat a) (unat n) (unat sz) (unat al)"
    and "unat sz + u \<le> unat n \<Longrightarrow> 2 ^ unat al dvd unat a + (unat n - (unat sz + u))"
proof -
  let ?k = "unat al" and ?e = "unat a + unat n - unat sz"
  have an: "unat (a + n) = unat a + unat n" using unat_add_nowrap [of a "unat n"] assms(1) by simp
  have e: "unat (a + n - sz) = ?e" if "unat sz \<le> unat a + unat n"
    using that an by (simp add: unat_sub word_le_nat_alt)
  show al: "2 ^ ?k dvd unat a + (unat n - (unat sz + u))" if "unat sz + u \<le> unat n"
  proof -
    have "unat a + (unat n - (unat sz + u)) = ?e - ?e mod 2 ^ ?k" using that e u by simp
    then show ?thesis by (simp only: dvd_minus_mod)
  qed
  show "unat sz + u \<le> unat n \<longleftrightarrow> fits (unat a) (unat n) (unat sz) ?k"
  proof
    assume le: "unat sz + u \<le> unat n"
    then show "fits (unat a) (unat n) (unat sz) ?k"
      unfolding fits_def using al [OF le] by (intro exI [of _ "unat a + (unat n - (unat sz + u))"]) simp
  next
    assume "fits (unat a) (unat n) (unat sz) ?k"
    then obtain p where p: "2 ^ ?k dvd p" "unat a \<le> p" "p + unat sz \<le> unat a + unat n" by (auto simp: fits_def)
    then obtain j where j: "p = 2 ^ ?k * j" by (auto elim: dvdE)
    have "p \<le> ?e" using p by simp
    then have "p div 2 ^ ?k \<le> ?e div 2 ^ ?k" by (rule div_le_mono)
    then have "p \<le> 2 ^ ?k * (?e div 2 ^ ?k)" using j by simp
    moreover have "2 ^ ?k * (?e div 2 ^ ?k) + ?e mod 2 ^ ?k = ?e" by simp
    ultimately have "p + ?e mod 2 ^ ?k \<le> ?e" by linarith
    then show "unat sz + u \<le> unat n" using p(2,3) e u by simp
  qed
qed

lemma before_aligned: "2 ^ k dvd x + (2 ^ k - x mod 2 ^ k :: nat)"
proof -
  have "x mod 2 ^ k < 2 ^ k" by simp
  have "x + (2 ^ k - x mod 2 ^ k) = 2 ^ k * (x div 2 ^ k) + 2 ^ k"
    using mult_div_mod_eq [of "2 ^ k" x] \<open>x mod 2 ^ k < 2 ^ k\<close> by linarith
  then show ?thesis by simp
qed

section \<open>Allocating from a region\<close>

definition block :: "addr \<Rightarrow> size_t \<Rightarrow> nat set" where
  "block p sz = {unat p ..< unat p + unat sz}"

text \<open>What a successful allocation promises: an aligned block of free memory, a well-formed list of regions that
  no longer covers it, and no store outside free memory.\<close>

definition allocated ::
  "'z boot_scheme \<Rightarrow> (addr \<times> size_t) list \<Rightarrow> size_t \<Rightarrow> size_t \<Rightarrow> 'z boot_scheme \<Rightarrow> addr \<Rightarrow> (addr \<times> size_t) list \<Rightarrow> bool" where
  "allocated s rs sz al s' p rs' \<longleftrightarrow>
     free_list_ok s' rs' \<and> writes_only (free_bytes rs) s s' \<and> p \<noteq> NULL \<and> 2 ^ unat al dvd unat p \<and>
     (\<exists>(a, n) \<in> set rs. fits (unat a) (unat n) (unat sz) (unat al)) \<and>
     unat p + unat sz < 2 ^ 64 \<and> block p sz \<subseteq> free_bytes rs \<and> free_bytes rs' \<subseteq> free_bytes rs - block p sz"

lemma located_set_size:
  assumes "located s xs a n ys e q"
  shows "located (set_size s a m) xs a n ys e q"
proof -
  note d = locatedD [OF assms]
  have "seg (set_size s a m) p' h zs e' q' = seg s p' h zs e' q'" if "set zs \<subseteq> set (xs @ ys)" for p' h zs e' q'
  proof (rule seg_frame)
    fix c k assume "(c, k) \<in> set zs"
    then have "apart a c" using that d(4) by blast
    then show "region_next (set_size s a m) c = region_next s c \<and> region_prev (set_size s a m) c = region_prev s c \<and>
        region_size (set_size s a m) c = region_size s c" by simp
  qed
  then show ?thesis using assms d(6) by (simp add: located_def)
qed

lemma shrunk_ok:
  assumes "located s xs a n ys e q" and "region_size s a = m" and "24 \<le> unat m" and "unat m \<le> unat n"
  shows "free_list_ok s (xs @ (a, m) # ys)"
proof -
  note d = locatedD [OF assms(1)]
  have "ordered 1 (xs @ (a, m) # ys)"
    using assms d by (auto simp: located_def ordered_append split: if_splits elim: ordered_mono)
  then show ?thesis using assms by (auto simp: located_def free_list_ok_def seg_append)
qed

lemma alloc_after_eq:
  assumes loc: "located s xs a n ys e q" and size: "region_size s a = n" and req: "request_ok sz al"
    and fit: "unat sz + unat (alloc_after_unalignment s a sz al) \<le> unat n"
  defines "m \<equiv> n - (sz + alloc_after_unalignment s a sz al)"
  shows "\<exists>s'. alloc_after s a sz al = Some (s', a + m) \<and>
    allocated s (xs @ (a, n) # ys) sz al s' (a + m) (xs @ (if m < 24 then [] else [(a, m)]) @ ys)"
proof -
  let ?u = "alloc_after_unalignment s a sz al" and ?rs = "xs @ (a, n) # ys"
  let ?m = "n - (sz + ?u)"
  let ?s1 = "set_size s a ?m"
  note d = locatedD [OF loc] and ub = unalignment_bounds [OF req]
  have o: "ordered 1 ?rs" using loc by (simp add: located_def)
  have m: "unat ?m = unat n - (unat sz + unat ?u)"
    using remainder(3) [OF d(10) _ _ fit] req ub(3) [of s a] by (simp add: request_ok_def)
  have p: "unat (a + ?m) = unat a + (unat n - (unat sz + unat ?u))"
    using unat_add64 [of a ?m] m d(9) by simp
  have al: "2 ^ unat al dvd unat (a + ?m)"
    unfolding p using after_fits(2) [OF d(9,10) req] ub(1) [of s a] fit size by simp
  have sub: "block (a + ?m) sz \<subseteq> {unat a ..< unat a + unat n}" and top: "unat (a + ?m) + unat sz < 2 ^ 64"
    using p fit d(9) by (auto simp: block_def)
  have nn: "a + ?m \<noteq> NULL" using p d(8) by (metis One_nat_def add_is_0 not_one_le_zero unat_0)
  have disj: "block (a + ?m) sz \<inter> free_bytes (xs @ ys) = {}" using sub ordered_disjoint [OF o] by blast
  have ft: "fits (unat a) (unat n) (unat sz) (unat al)"
    using after_fits(1) [OF d(9,10) req] ub(1) [of s a] fit size by simp
  have loc1: "located ?s1 xs a n ys e q" by (rule located_set_size [OF loc])
  have w1: "writes_only (free_bytes ?rs) s ?s1"
    using region_in_free [of a n ?rs 1] o by (intro writes_only_region) auto
  show ?thesis
  proof (cases "?m < 24")
    case True
    note rm = remove_region_eq [OF loc1]
    have "alloc_after s a sz al = Some (set_right (set_left ?s1 e q) q e, a + ?m)"
      using True rm size by (simp add: alloc_after_def Let_def region_struct_size_def)
    moreover have "allocated s ?rs sz al (set_right (set_left ?s1 e q) q e) (a + ?m) (xs @ ys)"
      using rm(2) writes_only_trans [OF w1 link_writes [OF loc1]] nn al top sub disj ft
      by (auto simp: allocated_def)
    ultimately show ?thesis using True by (simp add: m_def)
  next
    case False
    then have "24 \<le> unat ?m" by (simp add: word_less_nat_alt not_less)
    then have "free_list_ok ?s1 (xs @ (a, ?m) # ys)" using m by (intro shrunk_ok [OF loc1]) auto
    moreover have "{unat a ..< unat a + unat ?m} \<inter> block (a + ?m) sz = {}" using p m by (auto simp: block_def)
    moreover have "{unat a ..< unat a + unat ?m} \<subseteq> {unat a ..< unat a + unat n}" using m by auto
    ultimately have "allocated s ?rs sz al ?s1 (a + ?m) (xs @ (a, ?m) # ys)"
      using w1 nn al top sub disj ft by (fastforce simp: allocated_def)
    moreover have "alloc_after s a sz al = Some (?s1, a + ?m)"
      using False size by (simp add: alloc_after_def Let_def region_struct_size_def)
    ultimately show ?thesis using False by (simp add: m_def)
  qed
qed

lemma intervals_apart: "0 < k \<Longrightarrow> {b ..< b + k} \<inter> {c ..< c + k} = {} \<Longrightarrow> b + k \<le> c \<or> c + k \<le> (b :: nat)"
  by (rule ccontr) (auto simp: disjoint_iff dest: spec [of _ "max b c"])

text \<open>The region moves up: its struct is written at \<^term>\<open>b\<close>, inside the old region, and linked to its neighbours.\<close>

lemma moved_ok:
  assumes loc: "located s xs a n ys e q" and b: "unat b = unat a + d" "d + unat m = unat n" and m: "24 \<le> unat m"
  defines "s1 \<equiv> set_next (set_prev (set_size s b m) b e) b q"
  shows "free_list_ok (set_right (set_left s1 e b) q b) (xs @ (b, m) # ys)"
    and "writes_only (free_bytes (xs @ (a, n) # ys)) s (set_right (set_left s1 e b) q b)"
proof -
  let ?rs = "xs @ (a, n) # ys" and ?s2 = "set_right (set_left s1 e b) q b"
  note d = locatedD [OF loc] and l = located_left [OF loc] and r = located_right [OF loc]
  have o: "ordered 1 ?rs" using loc by (simp add: located_def)
  have ends: "unat b + unat m = unat a + unat n" and b24: "unat b + 24 < 2 ^ 64" using b m d(9) by linarith+
  have o': "ordered 1 (xs @ (b, m) # ys)"
  proof -
    have "unat a \<le> unat b" "unat m < 2 ^ 63" using b d(10) by linarith+
    then show ?thesis using o ends m by (auto simp: ordered_append split: if_splits)
  qed
  have apart_b: "apart b c" if "(c, k) \<in> set (xs @ ys)" for c k
  proof -
    have "{unat c ..< unat c + 24} \<subseteq> free_bytes (xs @ ys)" "unat c + 24 < 2 ^ 64"
      using region_in_free [OF that d(3)] .
    moreover have "{unat b ..< unat b + unat m} \<inter> free_bytes (xs @ ys) = {}" by (rule ordered_disjoint [OF o'])
    moreover have "{unat b ..< unat b + 24} \<subseteq> {unat b ..< unat b + unat m}" using m by auto
    ultimately have "{unat b ..< unat b + 24} \<inter> {unat c ..< unat c + 24} = {}" by blast
    then show ?thesis using b24 \<open>unat c + 24 < 2 ^ 64\<close> intervals_apart [of 24] by (simp add: apart_def)
  qed
  have frame: "seg s1 p' h zs e' q' = seg s p' h zs e' q'" if "set zs \<subseteq> set (xs @ ys)" for p' h zs e' q'
  proof (rule seg_frame)
    fix c k assume "(c, k) \<in> set zs"
    then have "apart b c" using that apart_b by blast
    then show "region_next s1 c = region_next s c \<and> region_prev s1 c = region_prev s c \<and>
        region_size s1 c = region_size s c" by (simp add: s1_def)
  qed
  obtain e' where "seg s1 NULL (boot_free_list s1) xs e a" "seg s1 a q ys e' NULL"
    using loc frame by (auto simp: located_def s1_def)
  from relink [OF loc this, of b b] obtain e'' where
    segs: "seg ?s2 NULL (boot_free_list ?s2) xs e b" "seg ?s2 b q ys e'' NULL" by blast
  have "e \<noteq> NULL \<Longrightarrow> apart e b" "q \<noteq> NULL \<Longrightarrow> apart q b"
    using l r apart_b [of e "snd (last xs)"] apart_b [of q "snd (hd ys)"] by (auto simp: apart_sym)
  then have "region_next ?s2 b = q" "region_prev ?s2 b = e" "region_size ?s2 b = m"
    using b24 by (simp_all add: set_left_right_other s1_def)
  moreover have "b \<noteq> NULL" using b d(8) by (metis add_is_0 not_one_le_zero unat_0)
  ultimately show "free_list_ok ?s2 (xs @ (b, m) # ys)" using segs o' by (auto simp: free_list_ok_def seg_append)
  have "{unat b ..< unat b + 24} \<subseteq> free_bytes ?rs" using b ends m by auto
  then have "writes_only (free_bytes ?rs) t (set_size t b w)" "writes_only (free_bytes ?rs) t (set_prev t b w)"
    "writes_only (free_bytes ?rs) t (set_next t b w)" for t w
    using b24 by (simp_all add: writes_only_region)
  then have "writes_only (free_bytes ?rs) s s1" unfolding s1_def by (meson writes_only_trans)
  then show "writes_only (free_bytes ?rs) s ?s2" using link_writes [OF loc] writes_only_trans by blast
qed

lemma alloc_before_eq:
  assumes loc: "located s xs a n ys e q" and size: "region_size s a = n" and req: "request_ok sz al"
    and fit: "unat sz + unat (alloc_before_unalignment a al) \<le> unat n"
  defines "u \<equiv> alloc_before_unalignment a al"
  defines "m \<equiv> n - (sz + u)"
  shows "\<exists>s'. alloc_before s a sz al = Some (s', a + u) \<and>
    allocated s (xs @ (a, n) # ys) sz al s' (a + u) (xs @ (if m < 24 then [] else [(a + (sz + u), m)]) @ ys)"
proof -
  let ?u = "alloc_before_unalignment a al" and ?rs = "xs @ (a, n) # ys"
  let ?m = "n - (sz + ?u)" and ?b = "a + (sz + ?u)"
  note d = locatedD [OF loc] and ub = unalignment_bounds [OF req] and l = located_left [OF loc]
  have o: "ordered 1 ?rs" and f: "region_prev s a = e" "region_next s a = q" using loc by (simp_all add: located_def)
  have su: "unat (sz + ?u) = unat sz + unat ?u" and m: "unat ?m = unat n - (unat sz + unat ?u)"
    using remainder(1,3) [OF d(10) _ ub(4) [of a]] fit req by (auto simp: request_ok_def)
  have p: "unat (a + ?u) = unat a + unat ?u" and b: "unat ?b = unat a + (unat sz + unat ?u)"
    using unat_add64 [of a ?u] unat_add64 [of a "sz + ?u"] su fit d(9) by simp_all
  have al: "2 ^ unat al dvd unat (a + ?u)" unfolding p ub(2) by (rule before_aligned)
  have sub: "block (a + ?u) sz \<subseteq> {unat a ..< unat a + unat n}" and top: "unat (a + ?u) + unat sz < 2 ^ 64"
    using p fit d(9) by (auto simp: block_def)
  have ft: "fits (unat a) (unat n) (unat sz) (unat al)"
    unfolding fits_def using al p fit by (intro exI [of _ "unat (a + ?u)"]) simp
  have nn: "a + ?u \<noteq> NULL" using p d(8) by (metis add_is_0 not_one_le_zero unat_0)
  have disj: "block (a + ?u) sz \<inter> free_bytes (xs @ ys) = {}" using sub ordered_disjoint [OF o] by blast
  show ?thesis
  proof (cases "?m < 24")
    case True
    note rm = remove_region_eq [OF loc]
    have "alloc_before s a sz al = Some (set_right (set_left s e q) q e, a + ?u)"
      using True rm size by (simp add: alloc_before_def Let_def region_struct_size_def)
    moreover have "allocated s ?rs sz al (set_right (set_left s e q) q e) (a + ?u) (xs @ ys)"
      using rm(2) link_writes [OF loc] nn al top sub disj ft by (auto simp: allocated_def)
    ultimately show ?thesis using True by (simp add: m_def u_def)
  next
    case False
    then have m24: "24 \<le> unat ?m" by (simp add: word_less_nat_alt not_less)
    let ?s1 = "set_next (set_prev (set_size s ?b ?m) ?b e) ?b q"
    let ?s2 = "set_right (set_left ?s1 e ?b) q ?b"
    have "(unat sz + unat ?u) + unat ?m = unat n" using m fit by simp
    note mv = moved_ok [OF loc b this m24]
    have run: "alloc_before s a sz al = Some (?s2, a + ?u)"
      using False f size l
      by (auto simp: alloc_before_def Let_def region_struct_size_def set_left_def set_right_def)
    have "{unat ?b ..< unat ?b + unat ?m} \<inter> block (a + ?u) sz = {}" using p b by (auto simp: block_def)
    moreover have "{unat ?b ..< unat ?b + unat ?m} \<subseteq> {unat a ..< unat a + unat n}" using b m fit by auto
    ultimately have "allocated s ?rs sz al ?s2 (a + ?u) (xs @ (?b, ?m) # ys)"
      using mv nn al top sub disj ft by (fastforce simp: allocated_def)
    then show ?thesis using False run by (simp add: m_def u_def)
  qed
qed

section \<open>The search\<close>

definition greater_rest :: "'z boot_scheme \<Rightarrow> size_t \<Rightarrow> size_t \<Rightarrow> addr \<Rightarrow> size_t" where
  "greater_rest s sz al a =
     (let after = region_size_alloc_after s a sz al; before = region_size_alloc_before s a sz al
      in if sint after > sint before then after else before)"

lemma alloc_loop_eq:
  "seg s prev p rs e NULL \<Longrightarrow> alloc_loop s sz al p fit = Some (fold (\<lambda>(a, n). better_fit s sz al a) rs fit)"
proof (induction rs arbitrary: prev p fit)
  case Nil
  then show ?case by (simp add: alloc_loop.simps)
next
  case (Cons r rs)
  obtain a n where "r = (a, n)" by force
  then show ?case using Cons.IH [of a "region_next s a" "better_fit s sz al a fit"] Cons.prems
    by (subst alloc_loop.simps) (simp add: boot_free_list_next_def)
qed

lemma fold_better_fit:
  fixes rs :: "(addr \<times> size_t) list"
  assumes "fold (\<lambda>(a, n). better_fit s sz al a) rs (r0, f0, b0) = (r, f, b)"
  shows "f \<le> f0 \<and> (\<forall>(a, n) \<in> set rs. 0 \<le> sint (greater_rest s sz al a) \<longrightarrow> f \<le> greater_rest s sz al a) \<and>
    ((r, f, b) = (r0, f0, b0) \<or>
     (\<exists>n. (r, n) \<in> set rs) \<and> f = greater_rest s sz al r \<and> 0 \<le> sint f \<and>
       b = (region_size_alloc_after s r sz al \<noteq> greater_rest s sz al r))"
  using assms
proof (induction rs arbitrary: r0 f0 b0)
  case (Cons x rs)
  obtain a n where x: "x = (a, n)" by force
  let ?g = "greater_rest s sz al a"
  have step: "better_fit s sz al a (r0, f0, b0) =
      (if 0 \<le> sint ?g \<and> f0 > ?g then (a, ?g, region_size_alloc_after s a sz al \<noteq> ?g) else (r0, f0, b0))"
    by (simp add: better_fit_def greater_rest_def Let_def)
  show ?case
  proof (cases "0 \<le> sint ?g \<and> f0 > ?g")
    case True
    then have "fold (\<lambda>(a, n). better_fit s sz al a) rs (a, ?g, region_size_alloc_after s a sz al \<noteq> ?g) = (r, f, b)"
      using Cons.prems step by (simp add: x)
    from Cons.IH [OF this] show ?thesis using True x by auto
  next
    case False
    then have "fold (\<lambda>(a, n). better_fit s sz al a) rs (r0, f0, b0) = (r, f, b)"
      using Cons.prems step by (simp only: x fold_Cons prod.case comp_apply if_False)
    from Cons.IH [OF this] show ?thesis using False x by auto
  qed
qed simp

text \<open>The two ways the search can end: with no region, if the request fits nowhere; or with one that holds the block.\<close>

lemma no_fit:
  assumes ok: "free_list_ok s rs" and req: "request_ok sz al" and an: "(a, n) \<in> set rs"
    and fit: "fold (\<lambda>(a, n). better_fit s sz al a) rs (NULL, - 1, False) = (NULL, f, b)"
  shows "\<not> fits (unat a) (unat n) (unat sz) (unat al)"
proof
  assume fits: "fits (unat a) (unat n) (unat sz) (unat al)"
  have o: "ordered 1 rs" using ok by (simp add: free_list_ok_def)
  have sz: "unat sz < 2 ^ 62" using req by (simp add: request_ok_def)
  note mem = ordered_mem [OF o an] and ub = unalignment_bounds [OF req] and best = fold_better_fit [OF fit]
  obtain xs ys where "rs = xs @ (a, n) # ys" using an by (meson split_list)
  then obtain e q where "region_size s a = n" using free_list_located ok by blast
  then have "0 \<le> sint (region_size_alloc_after s a sz al)"
    using after_fits(1) [of a n sz al] fits mem req sz ub(1,3) [of s a] remainder(4) [of n sz "alloc_after_unalignment s a sz al"]
    by (simp add: region_size_alloc_after_def)
  then have "0 \<le> sint (greater_rest s sz al a)" by (auto simp: greater_rest_def Let_def)
  moreover from this have "f \<le> greater_rest s sz al a" "f = - 1" using best an o ordered_mem [OF o, of NULL] by auto
  ultimately show False by (simp add: word_order.extremum_unique)
qed

lemma alloc_chosen:
  assumes ok: "free_list_ok s rs" and req: "request_ok sz al" and r: "(r, n) \<in> set rs"
    and loop: "alloc_loop s sz al (boot_free_list_begin s) (NULL, - 1, False) = Some (r, f, b)" and "r \<noteq> NULL"
    and f: "f = greater_rest s sz al r" "0 \<le> sint f"
    and b: "b = (region_size_alloc_after s r sz al \<noteq> greater_rest s sz al r)"
  shows "\<exists>s' p rs'. boot_alloc s sz al = Some (s', p) \<and> allocated s rs sz al s' p rs'"
proof -
  obtain xs ys where rs: "rs = xs @ (r, n) # ys" using r by (meson split_list)
  obtain e q where loc: "located s xs r n ys e q" and size: "region_size s r = n"
    using free_list_located ok rs by blast
  have sz: "unat sz < 2 ^ 62" using req by (simp add: request_ok_def)
  note ub = unalignment_bounds [OF req] and d = locatedD [OF loc]
  show ?thesis
  proof (cases b)
    case True
    then have "0 \<le> sint (region_size_alloc_before s r sz al)"
      using f b by (auto simp: greater_rest_def Let_def split: if_splits)
    then have "unat sz + unat (alloc_before_unalignment r al) \<le> unat n"
      using remainder(4) [OF d(10) sz ub(4) [of r]] size by (simp add: region_size_alloc_before_def)
    from alloc_before_eq [OF loc size req this] show ?thesis
      using loop True \<open>r \<noteq> NULL\<close> rs by (auto simp: boot_alloc_def)
  next
    case after: False
    then have "0 \<le> sint (region_size_alloc_after s r sz al)" using f b by simp
    then have "unat sz + unat (alloc_after_unalignment s r sz al) \<le> unat n"
      using remainder(4) [OF d(10) sz less_imp_le [OF ub(3) [of s r]]] size by (simp add: region_size_alloc_after_def)
    from alloc_after_eq [OF loc size req this] show ?thesis
      using loop after \<open>r \<noteq> NULL\<close> rs by (auto simp: boot_alloc_def)
  qed
qed

lemma boot_alloc_eq:
  assumes ok: "free_list_ok s rs" and req: "request_ok sz al"
  shows "\<exists>s' p rs'. boot_alloc s sz al = Some (s', p) \<and>
    (if p = NULL then s' = s \<and> (\<forall>(a, n) \<in> set rs. \<not> fits (unat a) (unat n) (unat sz) (unat al))
     else allocated s rs sz al s' p rs')"
proof -
  obtain e where sg: "seg s NULL (boot_free_list s) rs e NULL" and o: "ordered 1 rs" using ok by (auto simp: free_list_ok_def)
  obtain r f b where fit: "fold (\<lambda>(a, n). better_fit s sz al a) rs (NULL, - 1, False) = (r, f, b)"
    by (metis prod_cases3)
  note best = fold_better_fit [OF fit]
  have loop: "alloc_loop s sz al (boot_free_list_begin s) (NULL, - 1, False) = Some (r, f, b)"
    using alloc_loop_eq [OF sg, of sz al "(NULL, - 1, False)"] fit by (simp add: boot_free_list_begin_def)
  show ?thesis
  proof (cases "r = NULL")
    case True
    then show ?thesis using no_fit [OF ok req _ fit [unfolded True]] loop by (auto simp: boot_alloc_def)
  next
    case False
    then obtain n where r: "(r, n) \<in> set rs" and f: "f = greater_rest s sz al r" "0 \<le> sint f"
      and b: "b = (region_size_alloc_after s r sz al \<noteq> greater_rest s sz al r)" using best by auto
    obtain s' p rs' where "boot_alloc s sz al = Some (s', p)" "allocated s rs sz al s' p rs'"
      using alloc_chosen [OF ok req r loop False f b] by blast
    moreover from this(2) have "p \<noteq> NULL" by (simp add: allocated_def)
    ultimately show ?thesis by auto
  qed
qed

section \<open>The contract of the boot allocator\<close>

text \<open>A sequence of requests, failed ones included, and the blocks obtained.\<close>

fun alloc_all ::
  "('s \<Rightarrow> size_t \<Rightarrow> size_t \<Rightarrow> ('s \<times> addr) option) \<Rightarrow> 's \<Rightarrow> (size_t \<times> size_t) list \<Rightarrow>
    ('s \<times> (addr \<times> size_t) list) option" where
  "alloc_all alloc s [] = Some (s, [])"
| "alloc_all alloc s ((sz, al) # reqs) =
     do {
       (s1, p) \<leftarrow> alloc s sz al;
       (s2, bs) \<leftarrow> alloc_all alloc s1 reqs;
       Some (s2, if p = NULL then bs else (p, sz) # bs)
     }"

text \<open>What \<^verbatim>\<open>include/kernel/mem/boot.h\<close> promises of \<^verbatim>\<open>boot_alloc\<close>, for any back end: a request either fails, when no free
  region can hold it, or takes an aligned block out of the free memory.\<close>

locale boot_allocator =
  fixes ok :: "'s \<Rightarrow> (addr \<times> size_t) list \<Rightarrow> bool"
    and alloc :: "'s \<Rightarrow> size_t \<Rightarrow> size_t \<Rightarrow> ('s \<times> addr) option"
  assumes alloc_total: "ok s rs \<Longrightarrow> request_ok sz al \<Longrightarrow> \<exists>s' p. alloc s sz al = Some (s', p)"
    and alloc_null: "ok s rs \<Longrightarrow> request_ok sz al \<Longrightarrow> alloc s sz al = Some (s', NULL) \<Longrightarrow>
      s' = s \<and> (\<forall>(a, n) \<in> set rs. \<not> fits (unat a) (unat n) (unat sz) (unat al))"
    and alloc_some: "ok s rs \<Longrightarrow> request_ok sz al \<Longrightarrow> alloc s sz al = Some (s', p) \<Longrightarrow> p \<noteq> NULL \<Longrightarrow>
      \<exists>rs'. ok s' rs' \<and> 2 ^ unat al dvd unat p \<and> block p sz \<subseteq> free_bytes rs \<and>
        free_bytes rs' \<subseteq> free_bytes rs - block p sz"
begin

lemma alloc_step:
  assumes "ok s rs" and "request_ok sz al" and "alloc s sz al = Some (s', p)"
  shows "\<exists>rs'. ok s' rs' \<and> free_bytes rs' \<subseteq> free_bytes rs \<and>
    (p \<noteq> NULL \<longrightarrow> 2 ^ unat al dvd unat p \<and> block p sz \<subseteq> free_bytes rs \<and> free_bytes rs' \<inter> block p sz = {})"
proof (cases "p = NULL")
  case True
  then show ?thesis using alloc_null [OF assms(1,2)] assms by auto
next
  case False
  then show ?thesis using alloc_some [OF assms] by blast
qed

lemma alloc_all_disjoint:
  assumes "ok s rs" and "list_all (\<lambda>(sz, al). request_ok sz al) reqs"
  shows "\<exists>s' bs rs'. alloc_all alloc s reqs = Some (s', bs) \<and> ok s' rs' \<and> free_bytes rs' \<subseteq> free_bytes rs \<and>
    (\<forall>(p, sz) \<in> set bs. block p sz \<subseteq> free_bytes rs - free_bytes rs') \<and>
    sorted_wrt (\<lambda>(p, sz) (q, sz'). block p sz \<inter> block q sz' = {}) bs"
  using assms
proof (induction reqs arbitrary: s rs)
  case Nil
  then show ?case by auto
next
  case (Cons req reqs)
  obtain sz al where req: "req = (sz, al)" by force
  have r: "request_ok sz al" "list_all (\<lambda>(sz, al). request_ok sz al) reqs" using Cons.prems by (auto simp: req)
  obtain s1 p where a: "alloc s sz al = Some (s1, p)" using alloc_total [OF Cons.prems(1) r(1)] by blast
  from alloc_step [OF Cons.prems(1) r(1) a] obtain rs1 where
    rs1: "ok s1 rs1" "free_bytes rs1 \<subseteq> free_bytes rs"
      "p \<noteq> NULL \<longrightarrow> block p sz \<subseteq> free_bytes rs \<and> free_bytes rs1 \<inter> block p sz = {}" by blast
  from Cons.IH [OF rs1(1) r(2)] obtain s2 bs rs2 where
    rest: "alloc_all alloc s1 reqs = Some (s2, bs)" "ok s2 rs2" "free_bytes rs2 \<subseteq> free_bytes rs1"
      "\<forall>(q, sz') \<in> set bs. block q sz' \<subseteq> free_bytes rs1 - free_bytes rs2"
      "sorted_wrt (\<lambda>(p, sz) (q, sz'). block p sz \<inter> block q sz' = {}) bs" by blast
  have "\<forall>(q, sz') \<in> set bs. block p sz \<inter> block q sz' = {}" if "p \<noteq> NULL" using rs1(3) rest(4) that by blast
  then show ?case
    using a rs1 rest
    by (intro exI [of _ s2] exI [of _ "if p = NULL then bs else (p, sz) # bs"] exI [of _ rs2])
      (auto simp: req, blast+)
qed

end

interpretation free_list_alloc: boot_allocator free_list_ok boot_alloc
proof
  fix s :: "'z boot_scheme" and rs sz al
  assume a: "free_list_ok s rs" "request_ok sz al"
  note eq = boot_alloc_eq [OF a]
  show "\<exists>s' p. boot_alloc s sz al = Some (s', p)" using eq by blast
  show "s' = s \<and> (\<forall>(a, n) \<in> set rs. \<not> fits (unat a) (unat n) (unat sz) (unat al))"
    if "boot_alloc s sz al = Some (s', NULL)" for s' using eq that by auto
  show "\<exists>rs'. free_list_ok s' rs' \<and> 2 ^ unat al dvd unat p \<and> block p sz \<subseteq> free_bytes rs \<and>
      free_bytes rs' \<subseteq> free_bytes rs - block p sz"
    if "boot_alloc s sz al = Some (s', p)" "p \<noteq> NULL" for s' p
    using eq that by (auto simp: allocated_def)
qed

lemma boot_alloc_writes:
  assumes "free_list_ok s rs" and "request_ok sz al" and "boot_alloc s sz al = Some (t, p)"
  shows "writes_only (free_bytes rs) s t"
  using boot_alloc_eq [OF assms(1,2)] assms(3) by (auto simp: allocated_def split: if_splits)

section \<open>Adding memory\<close>

text \<open>What the loop comes to: its body is run once, and what follows a \<^verbatim>\<open>break\<close> stores through the null pointer in
  \<^verbatim>\<open>fully_before\<close>.\<close>

lemma free_loop_once:
  assumes "cur \<noteq> NULL"
  shows "free_loop s start sz cur before after = Some (free_body s start sz cur before after)"
  using assms by (subst free_loop.simps) (simp add: free_body_def Let_def)

lemma free_body_break: "free_body s start sz cur NULL after = Break b a \<Longrightarrow> b = NULL \<and> a = cur"
  by (auto simp: free_body_def Let_def split: if_splits)

lemma free_body_ends: "free_body s start sz cur before after \<noteq> Next b a"
  by (simp add: free_body_def Let_def)

lemma boot_free_unfold:
  "boot_free s start sz =
     (if boot_free_list s = NULL then
        if sz < region_struct_size then Some (KERR_EMPTY, s)
        else if start = NULL then None
        else Some (KERR_SUCCESS, (set_size (set_next (set_prev s start NULL) start NULL) start sz)\<lparr>boot_free_list := start\<rparr>)
      else case free_body s start sz (boot_free_list s) NULL NULL of
        Return err t \<Rightarrow> Some (err, t) | _ \<Rightarrow> None)"
proof (cases "boot_free_list s = NULL")
  case False
  show ?thesis
  proof (cases "free_body s start sz (boot_free_list s) NULL NULL")
    case (Break b a)
    then have "b = NULL \<and> a = boot_free_list s" by (rule free_body_break)
    then show ?thesis using False Break
      by (simp add: boot_free_def boot_free_list_begin_def free_loop_once store_prev_def store_next_def Let_def)
  qed (use False in \<open>simp_all add: boot_free_def boot_free_list_begin_def free_loop_once\<close>)
qed (simp add: boot_free_def store_prev_def store_next_def store_size_def Let_def)

lemma boot_free_empty:
  assumes "boot_free_list s = NULL" and "start \<noteq> NULL" and "24 \<le> unat sz" and "unat sz < 2 ^ 63"
    and "unat start + unat sz < 2 ^ 64"
  shows "\<exists>s'. boot_free s start sz = Some (KERR_SUCCESS, s') \<and> free_list_ok s' [(start, sz)] \<and>
    writes_only (block start sz) s s'"
proof -
  have b: "unat start + 24 < 2 ^ 64" using assms by linarith
  let ?s = "(set_size (set_next (set_prev s start NULL) start NULL) start sz)\<lparr>boot_free_list := start\<rparr>"
  have "\<not> sz < region_struct_size" using assms(3) by (simp add: region_struct_size_def word_less_nat_alt)
  then have "boot_free s start sz = Some (KERR_SUCCESS, ?s)" using assms(1,2) by (simp add: boot_free_unfold free_body_def Let_def)
  moreover have "free_list_ok ?s [(start, sz)]"
    using assms b unat_gt_0 [of start] by (auto simp: free_list_ok_def Suc_le_eq)
  moreover have "writes_only (block start sz) s ?s"
  proof -
    have "{unat start ..< unat start + 24} \<subseteq> block start sz" using assms(3) by (auto simp: block_def)
    then have "writes_only (block start sz) t (set_size t start w)" "writes_only (block start sz) t (set_prev t start w)"
      "writes_only (block start sz) t (set_next t start w)" for t w
      using b by (simp_all add: writes_only_region)
    then have "writes_only (block start sz) s (set_size (set_next (set_prev s start NULL) start NULL) start sz)"
      by (meson writes_only_trans)
    then show ?thesis by (simp add: writes_only_def)
  qed
  ultimately show ?thesis by blast
qed

lemma boot_free_nonempty:
  assumes "free_list_ok s ((a, n) # rs)" and "a + 24 * n \<noteq> start"
  shows "boot_free s start sz = (if a + 24 * n < start then Some (KERR_EXIST, s)
    else if start + sz < a then None else Some (KERR_EXIST, s))"
  using assms by (auto simp: boot_free_unfold free_body_def Let_def free_list_ok_def boot_free_list_begin_def region_struct_size_def)

section \<open>What the allocator leaves alone\<close>

definition same_devices :: "'z console_scheme \<Rightarrow> 'z console_scheme \<Rightarrow> bool" where
  "same_devices s t \<longleftrightarrow> byte_order t = byte_order s \<and> config t = config s \<and>
     early_putchar_array t = early_putchar_array s \<and> console_log t = console_log s"

definition same_rest :: "'z boot_scheme \<Rightarrow> 'z boot_scheme \<Rightarrow> bool" where
  "same_rest s t \<longleftrightarrow> same_devices s t \<and> boot.more t = boot.more s"

lemma same_rest_simps [simp]:
  "same_rest s s" "same_rest s (set_next s' a w) = same_rest s s'" "same_rest s (set_prev s' a w) = same_rest s s'"
  "same_rest s (set_size s' a w) = same_rest s s'" "same_rest s (s'\<lparr>boot_free_list := p\<rparr>) = same_rest s s'"
  by (simp_all add: same_rest_def same_devices_def region_defs store64_def write_bytes_def)

lemma boot_free_same: "boot_free s start sz = Some (err, s') \<Longrightarrow> same_rest s s'"
  by (auto simp: boot_free_unfold free_body_def Let_def split: if_splits)

lemma boot_alloc_same: "boot_alloc s sz al = Some (s', p) \<Longrightarrow> same_rest s s'"
  by (auto simp: boot_alloc_def alloc_after_def alloc_before_def remove_region_def Let_def bind_eq_Some_conv
      split: if_splits)

section \<open>The dump\<close>

definition hex_text :: "addr \<Rightarrow> byte list" where
  "hex_text p = bytes_of ''0x'' @ pointer_loop 16 p []"

definition region_line :: "addr \<times> size_t \<Rightarrow> byte list" where
  "region_line = (\<lambda>(a, n). bytes_of ''['' @ hex_text a @ bytes_of '' - '' @ hex_text (a + n) @
     bytes_of ''] size = ('' @ hex_text n @ bytes_of '' bytes)\<newline>'')"

lemma region_emit [simp]:
  "region_next (emit s cs) a = region_next s a" "region_prev (emit s cs) a = region_prev s a"
  "region_size (emit s cs) a = region_size s a"
  by (simp_all add: region_defs load64_def read_bytes_def host_join_def)

lemma seg_emit [simp]: "seg (emit s cs) prev p rs e q = seg s prev p rs e q"
  by (rule seg_frame) simp

lemma dump_line:
  "printk s (Lit (bytes_of ''[%p - %p] size = (%p bytes)\<newline>'')) [VPtr a, VPtr b, VPtr n] =
    Some (emit s (bytes_of ''['' @ hex_text a @ bytes_of '' - '' @ hex_text b @
      bytes_of ''] size = ('' @ hex_text n @ bytes_of '' bytes)\<newline>''),
      of_nat (length (bytes_of ''['' @ hex_text a @ bytes_of '' - '' @ hex_text b @
      bytes_of ''] size = ('' @ hex_text n @ bytes_of '' bytes)\<newline>'')))"
  by (rule printk_Lit) (auto simp: bytes_of_def hex_text_def)

lemma dump_loop_eq:
  "seg s prev p rs e NULL \<Longrightarrow> dump_loop s p = Some (emit s (concat (map region_line rs)))"
proof (induction rs arbitrary: prev p s)
  case Nil
  then show ?case by (simp add: dump_loop.simps)
next
  case (Cons r rs)
  obtain a n where r: "r = (a, n)" by force
  have "dump_loop (emit s (region_line r)) (region_next s a) =
      Some (emit (emit s (region_line r)) (concat (map region_line rs)))"
    using Cons.prems by (intro Cons.IH) (auto simp: r)
  then show ?case using Cons.prems dump_line [of s a "a + n" n]
    by (subst dump_loop.simps) (simp add: r region_line_def boot_free_list_next_def)
qed

lemma plain_line:
  "printk s (Lit (bytes_of ''--- BOOT ALLOC FREE REGIONS ---\<newline>'')) [] =
    Some (emit s (bytes_of ''--- BOOT ALLOC FREE REGIONS ---\<newline>''), of_nat (length (bytes_of ''--- BOOT ALLOC FREE REGIONS ---\<newline>'')))"
  "printk s (Lit (bytes_of ''-------------------------------\<newline>'')) [] =
    Some (emit s (bytes_of ''-------------------------------\<newline>''), of_nat (length (bytes_of ''-------------------------------\<newline>'')))"
  by (rule printk_plain; simp add: bytes_of_def)+

lemma boot_mem_dump_eq:
  assumes "free_list_ok s rs"
  shows "boot_mem_dump s = Some (KERR_SUCCESS,
    emit s (bytes_of ''--- BOOT ALLOC FREE REGIONS ---\<newline>'' @ concat (map region_line rs) @
      bytes_of ''-------------------------------\<newline>''))"
proof -
  obtain e where "seg s NULL (boot_free_list s) rs e NULL" using assms by (auto simp: free_list_ok_def)
  then have "dump_loop (emit s cs) (boot_free_list s) = Some (emit s (cs @ concat (map region_line rs)))" for cs
    using dump_loop_eq [of "emit s cs" NULL "boot_free_list s" rs e] by simp
  then show ?thesis
    by (simp add: boot_mem_dump_def plain_line boot_free_list_begin_def del: append_assoc)
      (simp add: append_assoc)
qed

section \<open>Properties\<close>

text \<open>A machine with nothing in the free list, for concrete instances.\<close>

definition demo_boot :: boot where
  "demo_boot = \<lparr>mem = (\<lambda>_. 0), byte_order = Little, config = CONFIG_VARIABLE_ENDIAN,
     early_putchar_array = [0x80000100, 0, 0, 0, 0, 0, 0, 0], console_log = [], boot_free_list = NULL\<rparr>"

lemma demo_region: "\<exists>s. boot_free demo_boot 0x80200000 0x1000 = Some (KERR_SUCCESS, s) \<and> free_list_ok s [(0x80200000, 0x1000)]"
  using boot_free_empty [of demo_boot "0x80200000" "0x1000"] by (auto simp: demo_boot_def)

lemma demo_fits: "fits (unat (0x80200000 :: addr)) (unat (0x1000 :: size_t)) 256 4"
  unfolding fits_def by (intro exI [of _ "0x80200000"]) simp

text \<open>C3. \<^verbatim>\<open>boot_alloc\<close> on a well-formed free list always returns.  It returns the null pointer, and changes nothing, exactly
  if no free region holds an aligned block of the size asked for; otherwise it returns a block aligned to
  \<^verbatim>\<open>2**alignment\<close> that was free, leaves a well-formed free list that no longer covers any byte of the block, and
  writes only to memory that was free.\<close>

theorem boot_alloc_correct:
  assumes "free_list_ok s rs" and "request_ok sz al"
  shows "\<exists>s' p. boot_alloc s sz al = Some (s', p) \<and>
    (p = NULL \<longleftrightarrow> (\<forall>(a, n) \<in> set rs. \<not> fits (unat a) (unat n) (unat sz) (unat al))) \<and>
    (p = NULL \<longrightarrow> s' = s) \<and>
    (p \<noteq> NULL \<longrightarrow> (\<exists>rs'. free_list_ok s' rs' \<and> writes_only (free_bytes rs) s s' \<and> 2 ^ unat al dvd unat p \<and>
       block p sz \<subseteq> free_bytes rs \<and> free_bytes rs' \<subseteq> free_bytes rs - block p sz))"
proof -
  obtain s' p rs' where r: "boot_alloc s sz al = Some (s', p)"
    "if p = NULL then s' = s \<and> (\<forall>(a, n) \<in> set rs. \<not> fits (unat a) (unat n) (unat sz) (unat al))
     else allocated s rs sz al s' p rs'"
    using boot_alloc_eq [OF assms] by blast
  show ?thesis
  proof (cases "p = NULL")
    case True
    then show ?thesis using r by auto
  next
    case False
    then have "allocated s rs sz al s' p rs'" using r(2) by simp
    then show ?thesis using r(1) False unfolding allocated_def by blast
  qed
qed

theorem boot_alloc_correct_witness:
  "\<exists>(s :: boot) s' p. free_list_ok s [(0x80200000, 0x1000)] \<and> boot_alloc s 256 4 = Some (s', p) \<and> p \<noteq> NULL \<and> 16 dvd unat p"
proof -
  obtain s :: boot where s: "free_list_ok s [(0x80200000, 0x1000)]" using demo_region by blast
  have req: "request_ok 256 4" by (simp add: request_ok_def)
  obtain s' p where a: "boot_alloc s 256 4 = Some (s', p)"
    and null: "p = NULL \<longleftrightarrow> (\<forall>(a, n) \<in> set [(0x80200000 :: addr, 0x1000 :: size_t)]. \<not> fits (unat a) (unat n) (unat (256 :: size_t)) (unat (4 :: size_t)))"
    and al: "p \<noteq> NULL \<longrightarrow> 2 ^ unat (4 :: size_t) dvd unat p"
    using boot_alloc_correct [OF s req] by blast
  have "p \<noteq> NULL" using null demo_fits by simp
  then show ?thesis using s a al by (intro exI [of _ s] exI [of _ s'] exI [of _ p]) simp
qed

text \<open>C6. However many blocks are allocated one after the other, no two of them overlap, and none overlaps memory that is
  still free.\<close>

theorem boot_alloc_disjoint:
  assumes "free_list_ok s rs" and "list_all (\<lambda>(sz, al). request_ok sz al) reqs"
  shows "\<exists>s' bs rs'. alloc_all boot_alloc s reqs = Some (s', bs) \<and> free_list_ok s' rs' \<and>
    (\<forall>(p, sz) \<in> set bs. block p sz \<subseteq> free_bytes rs - free_bytes rs') \<and>
    sorted_wrt (\<lambda>(p, sz) (q, sz'). block p sz \<inter> block q sz' = {}) bs"
  using free_list_alloc.alloc_all_disjoint [OF assms] by blast

theorem boot_alloc_disjoint_witness:
  "\<exists>(s :: boot) s' bs. free_list_ok s [(0x80200000, 0x1000)] \<and> alloc_all boot_alloc s [(256, 4), (512, 12)] = Some (s', bs) \<and>
     sorted_wrt (\<lambda>(p, sz) (q, sz'). block p sz \<inter> block q sz' = {}) bs"
proof -
  obtain s :: boot where s: "free_list_ok s [(0x80200000, 0x1000)]" using demo_region by blast
  have "list_all (\<lambda>(sz, al). request_ok sz al) [(256, 4), (512, 12)]" by (simp add: request_ok_def)
  from boot_alloc_disjoint [OF s this] show ?thesis using s by blast
qed

text \<open>\<^verbatim>\<open>boot_free\<close> of a region to an empty free list makes that region the free list, writing only inside it; a region
  too small for its struct is refused with \<^verbatim>\<open>KERR_EMPTY\<close>.\<close>

theorem boot_free_first:
  assumes "boot_free_list s = NULL" and "start \<noteq> NULL" and "unat sz < 2 ^ 63" and "unat start + unat sz < 2 ^ 64"
  shows "if unat sz < 24 then boot_free s start sz = Some (KERR_EMPTY, s)
    else \<exists>s'. boot_free s start sz = Some (KERR_SUCCESS, s') \<and> free_list_ok s' [(start, sz)] \<and>
      writes_only (block start sz) s s'"
  using boot_free_empty [OF assms(1,2) _ assms(3,4)] assms(1)
  by (auto simp: boot_free_unfold free_body_def Let_def region_struct_size_def word_less_nat_alt)

theorem boot_free_first_witness:
  "\<exists>s'. boot_free demo_boot 0x80200000 0x1000 = Some (KERR_SUCCESS, s') \<and> free_list_ok s' [(0x80200000, 0x1000)]"
  using boot_free_first [of demo_boot "0x80200000" "0x1000"] by (auto simp: demo_boot_def)

text \<open>C34. Once the free list is not empty, a region that does not start at the first region plus 24 times its size, where the
  code takes it to be adjacent, is never added.  A region that ends below the first one makes the loop break with
  \<^verbatim>\<open>fully_before\<close> null, through which the insertion then stores: the call has no defined result.  Every other one is refused
  with \<^verbatim>\<open>KERR_EXIST\<close>, wherever it lies, and nothing changes.\<close>

theorem boot_free_refused:
  assumes "free_list_ok s ((a, n) # rs)" and "a + 24 * n \<noteq> start"
  shows "if start + sz < a \<and> start < a + 24 * n
    then free_loop s start sz (boot_free_list_begin s) NULL NULL = Some (Break NULL a) \<and> boot_free s start sz = None
    else free_loop s start sz (boot_free_list_begin s) NULL NULL = Some (Return KERR_EXIST s) \<and>
      boot_free s start sz = Some (KERR_EXIST, s)"
proof -
  have b: "boot_free_list s = a" "a \<noteq> NULL" "region_size s a = n" using assms(1) by (auto simp: free_list_ok_def)
  have "free_body s start sz a NULL NULL =
      (if start + sz < a \<and> start < a + 24 * n then Break NULL a else Return KERR_EXIST s)"
    using assms(2) b(3) by (auto simp: free_body_def Let_def region_struct_size_def not_less le_less)
  then show ?thesis using b by (simp add: boot_free_list_begin_def free_loop_once boot_free_unfold)
qed

theorem boot_free_refused_witness:
  "\<exists>s :: boot. free_list_ok s [(0x80200000, 0x1000)] \<and> boot_free s 0x80300000 0x1000 = Some (KERR_EXIST, s) \<and>
     free_loop s 0x80100000 0x1000 (boot_free_list_begin s) NULL NULL = Some (Break NULL 0x80200000) \<and>
     boot_free s 0x80100000 0x1000 = None"
proof -
  obtain s :: boot where s: "free_list_ok s [(0x80200000, 0x1000)]" using demo_region by blast
  show ?thesis using s boot_free_refused [OF s, of "0x80300000" "0x1000"] boot_free_refused [OF s, of "0x80100000" "0x1000"]
    by auto
qed

text \<open>\<^verbatim>\<open>boot_mem_dump\<close> prints one line for each free region, in order, with its start, end and size, and changes nothing
  but the console.\<close>

theorem boot_mem_dump_correct:
  assumes "free_list_ok s rs"
  shows "boot_mem_dump s = Some (KERR_SUCCESS,
    emit s (bytes_of ''--- BOOT ALLOC FREE REGIONS ---\<newline>'' @ concat (map region_line rs) @
      bytes_of ''-------------------------------\<newline>''))"
  by (rule boot_mem_dump_eq [OF assms])

theorem boot_mem_dump_correct_witness:
  "\<exists>s :: boot. free_list_ok s [(0x80200000, 0x1000)] \<and>
     boot_mem_dump s = Some (KERR_SUCCESS, emit s (bytes_of ''--- BOOT ALLOC FREE REGIONS ---\<newline>'' @
       region_line (0x80200000, 0x1000) @ bytes_of ''-------------------------------\<newline>''))"
  using demo_region boot_mem_dump_correct by fastforce

end
