(* ===== verification/Fdt_Mem.thy ===== *)
theory Fdt_Mem
  imports Fdt_Tree Free_List
begin

text \<open>
  \<^verbatim>\<open>kernel/of/fdt_mem.c\<close>: handing the memory the device tree describes to the boot allocator, without the kernel, the
  reserved ranges and the tree itself.  The end of the kernel, the linker symbol \<^verbatim>\<open>__kernel_end\<close>, and the allocator's
  \<^verbatim>\<open>boot_free\<close> (one of several back ends, \<^verbatim>\<open>include/kernel/mem/boot.h\<close>) are arguments of \<^verbatim>\<open>try_boot_free_region\<close>;
  \<^verbatim>\<open>fdt_boot_mem_init\<close> uses the free list.  So is \<^verbatim>\<open>left_first\<close>, whether the compiled program evaluates the left operand of the
  sum of two calls first, which C leaves open.
\<close>

section \<open>Definitions\<close>

text \<open>The result is the trimmed region and, when the function returns true, the second region.\<close>

definition trim_or_split_around_reserved ::
  "addr \<Rightarrow> size_t \<Rightarrow> addr \<Rightarrow> size_t \<Rightarrow> (addr \<times> size_t) \<times> (addr \<times> size_t) option" where
  "trim_or_split_around_reserved start sz resv_start resv_size =
     (let stop = start + sz; resv_end = resv_start + resv_size in
      if resv_end \<le> start \<or> resv_start > stop then ((start, sz), None)
      else if resv_start \<le> start then
        if resv_end \<ge> stop then ((NULL, 0), None) else ((resv_end, stop - resv_end), None)
      else if resv_end < stop then ((start, resv_start - start), Some (resv_end, stop - resv_end))
      else ((start, resv_start - start), None))"

text \<open>The loop over the reserve entries ends with the region trimmed, split, or gone.\<close>

datatype trimmed = Whole addr size_t | Split addr size_t addr size_t | Gone

definition trim_step :: "addr \<Rightarrow> size_t \<Rightarrow> addr \<Rightarrow> size_t \<Rightarrow> trimmed" where
  "trim_step start sz resv_start resv_size =
     (case trim_or_split_around_reserved start sz resv_start resv_size of
        ((a, n), Some (b, m)) \<Rightarrow> Split a n b m
      | ((a, n), None) \<Rightarrow> if n = 0 then Gone else Whole a n)"

partial_function (option) reserve_loop ::
  "'z machine_scheme \<Rightarrow> addr \<Rightarrow> addr \<Rightarrow> addr \<Rightarrow> size_t \<Rightarrow> trimmed option" where
  "reserve_loop s fdt entry start sz =
     (if entry = NULL then Some (Whole start sz)
      else
        case trim_step start sz (fdt_reserve_entry_address s entry) (fdt_reserve_entry_size s entry) of
          Whole a n \<Rightarrow> reserve_loop s fdt (fdt_next_reserve_entry s fdt entry) a n
        | r \<Rightarrow> Some r)"

type_synonym 'z backend = "'z machine_scheme \<Rightarrow> addr \<Rightarrow> size_t \<Rightarrow> (kerror \<times> 'z machine_scheme) option"

definition trim_region :: "'z machine_scheme \<Rightarrow> addr \<Rightarrow> addr \<Rightarrow> size_t \<Rightarrow> trimmed option" where
  "trim_region s fdt start sz =
     do {
       r \<leftarrow> reserve_loop s fdt (fdt_reserve_entry_begin s fdt) start sz;
       Some (case r of Whole a n \<Rightarrow> trim_step a n fdt (fdt_size s fdt) | _ \<Rightarrow> r)
     }"

text \<open>
  The sum of the two recursive calls: C does not say which operand is evaluated first, and both change the free list.  Whether the
  compiled program evaluates the left one first is the argument \<^verbatim>\<open>left_first\<close>.
\<close>

partial_function (option) try_boot_free_region ::
  "'z backend \<Rightarrow> bool \<Rightarrow> addr \<Rightarrow> 'z machine_scheme \<Rightarrow> addr \<Rightarrow> addr \<Rightarrow> size_t \<Rightarrow>
    (size_t \<times> 'z machine_scheme) option" where
  "try_boot_free_region boot_free' left_first kernel_end s fdt start sz =
     (if sz = 0 then Some (0, s)
      else if start < kernel_end \<and> start + sz \<le> kernel_end then Some (0, s)
      else do {
        r \<leftarrow> trim_region s fdt (if start < kernel_end then kernel_end else start)
               (if start < kernel_end then start + sz - kernel_end else sz);
        (case r of
           Gone \<Rightarrow> Some (0, s)
         | Split a n b m \<Rightarrow>
             if left_first then do {
               (freed1, s1) \<leftarrow> try_boot_free_region boot_free' left_first kernel_end s fdt a n;
               (freed2, s2) \<leftarrow> try_boot_free_region boot_free' left_first kernel_end s1 fdt b m;
               Some (freed1 + freed2, s2)
             } else do {
               (freed2, s1) \<leftarrow> try_boot_free_region boot_free' left_first kernel_end s fdt b m;
               (freed1, s2) \<leftarrow> try_boot_free_region boot_free' left_first kernel_end s1 fdt a n;
               Some (freed1 + freed2, s2)
             }
         | Whole a n \<Rightarrow>
             do { (err, s') \<leftarrow> boot_free' s a n; Some (if err \<noteq> KERR_SUCCESS then 0 else n, s') })
      })"

text \<open>One memory node: the loop over its register blocks, which reads block 0 each time.\<close>

partial_function (option) blocks_loop ::
  "bool \<Rightarrow> addr \<Rightarrow> 'z boot_scheme \<Rightarrow> addr \<Rightarrow> addr \<Rightarrow> size_t \<Rightarrow> size_t \<Rightarrow> size_t \<Rightarrow> size_t \<Rightarrow>
    (size_t \<times> size_t \<times> 'z boot_scheme) option" where
  "blocks_loop left_first kernel_end s fdt mem_node num_register_blocks i total_mem_seen total_mem_freed =
     (if i < num_register_blocks then
        do {
          (address, sz) \<leftarrow> fdt_node_get_register_block s fdt mem_node 0;
          (s1, _) \<leftarrow> printk s (Lit (bytes_of ''memory_node: (%s)[%c] {addr = %p, size = %p}\<newline>''))
            [VStr (fdt_node_name s mem_node), VInt (48 + ucast (ucast i :: byte)), VPtr address, VPtr sz];
          (freed, s2) \<leftarrow> try_boot_free_region boot_free left_first kernel_end s1 fdt address sz;
          blocks_loop left_first kernel_end s2 fdt mem_node num_register_blocks (i + 1) (total_mem_seen + sz) (total_mem_freed + freed)
        }
      else Some (total_mem_seen, total_mem_freed, s))"

partial_function (option) mem_nodes_loop ::
  "bool \<Rightarrow> addr \<Rightarrow> 'z boot_scheme \<Rightarrow> addr \<Rightarrow> addr \<Rightarrow> size_t \<Rightarrow> size_t \<Rightarrow> (size_t \<times> size_t \<times> 'z boot_scheme) option" where
  "mem_nodes_loop left_first kernel_end s fdt mem_node total_mem_seen total_mem_freed =
     (if mem_node = NULL then Some (total_mem_seen, total_mem_freed, s)
      else do {
        num_register_blocks \<leftarrow> fdt_node_num_register_blocks s fdt mem_node;
        (seen, freed, s1) \<leftarrow>
          blocks_loop left_first kernel_end s fdt mem_node num_register_blocks 0 total_mem_seen total_mem_freed;
        mem_node' \<leftarrow> fdt_find_node_by_device_type s1 fdt mem_node (Lit (bytes_of ''memory''));
        mem_nodes_loop left_first kernel_end s1 fdt mem_node' seen freed
      })"

definition fdt_boot_mem_init :: "bool \<Rightarrow> addr \<Rightarrow> 'z boot_scheme \<Rightarrow> addr \<Rightarrow> (kerror \<times> 'z boot_scheme) option" where
  "fdt_boot_mem_init left_first kernel_end s fdt =
     do {
       mem_node \<leftarrow> fdt_find_node_by_device_type s fdt NULL (Lit (bytes_of ''memory''));
       (total_mem_seen, total_mem_freed, s1) \<leftarrow> mem_nodes_loop left_first kernel_end s fdt mem_node 0 0;
       (s2, _) \<leftarrow> printk s1 (Lit (bytes_of ''[FDT] Freed Memory Regions:\<newline>'')) [];
       (s3, _) \<leftarrow> printk s2 (Lit (bytes_of (''[FDT] '' @ [CHR 0x09] @ ''Total Memory = (%p bytes)\<newline>''))) [VPtr total_mem_seen];
       (s4, _) \<leftarrow> printk s3 (Lit (bytes_of (''[FDT] '' @ [CHR 0x09] @ ''Freed Memory = (%p bytes)\<newline>''))) [VPtr total_mem_freed];
       Some (KERR_SUCCESS, s4)
     }"

section \<open>Trimming is set difference\<close>

definition nowrap :: "addr \<Rightarrow> size_t \<Rightarrow> bool" where
  "nowrap a n \<longleftrightarrow> unat a + unat n < 2 ^ 64"

lemma nowrap_end: "nowrap a n \<Longrightarrow> unat (a + n) = unat a + unat n"
  by (simp add: nowrap_def unat_add64)

fun pieces :: "trimmed \<Rightarrow> nat set" where
  "pieces (Whole a n) = block a n"
| "pieces (Split a n b m) = block a n \<union> block b m"
| "pieces Gone = {}"

fun smaller :: "nat \<Rightarrow> trimmed \<Rightarrow> bool" where
  "smaller k (Whole a n) \<longleftrightarrow> nowrap a n \<and> n \<noteq> 0 \<and> unat n \<le> k"
| "smaller k (Split a n b m) \<longleftrightarrow> nowrap a n \<and> nowrap b m \<and> unat n < k \<and> unat m < k \<and> unat a + unat n \<le> unat b"
| "smaller k Gone \<longleftrightarrow> True"

lemma trim_step_eq:
  assumes "nowrap start sz" and "nowrap rs rn" and "sz \<noteq> 0"
  shows "pieces (trim_step start sz rs rn) = block start sz - block rs rn \<and> smaller (unat sz) (trim_step start sz rs rn)"
proof -
  note e = nowrap_end [OF assms(1)] nowrap_end [OF assms(2)]
  have z: "0 < unat sz" using assms(3) by (simp add: unat_gt_0)
  have nw: "unat start + unat sz < 2 ^ 64" using assms(1) by (simp add: nowrap_def)
  consider (out) "unat rs + unat rn \<le> unat start \<or> unat start + unat sz < unat rs"
    | (all) "unat start < unat rs + unat rn" "unat rs \<le> unat start" "unat start + unat sz \<le> unat rs + unat rn"
    | (below) "unat start < unat rs + unat rn" "unat rs \<le> unat start" "unat rs + unat rn < unat start + unat sz"
    | (mid) "unat start < unat rs" "unat rs + unat rn < unat start + unat sz"
    | (above) "unat start < unat rs" "unat rs \<le> unat start + unat sz" "unat start + unat sz \<le> unat rs + unat rn"
    by linarith
  then show ?thesis
  proof cases
    case out
    then have "trim_step start sz rs rn = Whole start sz"
      using assms(3) e by (auto simp: trim_step_def trim_or_split_around_reserved_def Let_def word_le_nat_alt word_less_nat_alt)
    then show ?thesis using out assms by (auto simp: block_def)
  next
    case all
    then have "trim_step start sz rs rn = Gone"
      using e by (auto simp: trim_step_def trim_or_split_around_reserved_def Let_def word_le_nat_alt word_less_nat_alt)
    then show ?thesis using all by (auto simp: block_def)
  next
    case below
    let ?n = "start + sz - (rs + rn)"
    have n: "unat ?n = unat start + unat sz - (unat rs + unat rn)"
      using below e by (simp add: unat_sub word_le_nat_alt)
    then have "?n \<noteq> 0" using below by auto
    with below have "trim_step start sz rs rn = Whole (rs + rn) ?n"
      using e by (auto simp: trim_step_def trim_or_split_around_reserved_def Let_def word_le_nat_alt word_less_nat_alt)
    then show ?thesis using below n e nw \<open>?n \<noteq> 0\<close> by (auto simp: block_def nowrap_def)
  next
    case mid
    let ?m = "start + sz - (rs + rn)" and ?n = "rs - start"
    have n: "unat ?n = unat rs - unat start" and m: "unat ?m = unat start + unat sz - (unat rs + unat rn)"
      using mid e by (simp_all add: unat_sub word_le_nat_alt)
    have "trim_step start sz rs rn = Split start ?n (rs + rn) ?m"
      using mid e by (auto simp: trim_step_def trim_or_split_around_reserved_def Let_def word_le_nat_alt word_less_nat_alt)
    then show ?thesis using mid n m e nw by (auto simp: block_def nowrap_def)
  next
    case above
    let ?n = "rs - start"
    have n: "unat ?n = unat rs - unat start" using above by (simp add: unat_sub word_le_nat_alt)
    then have "?n \<noteq> 0" using above by auto
    with above have "trim_step start sz rs rn = Whole start ?n"
      using e by (auto simp: trim_step_def trim_or_split_around_reserved_def Let_def word_le_nat_alt word_less_nat_alt)
    then show ?thesis using above n nw \<open>?n \<noteq> 0\<close> by (auto simp: block_def nowrap_def)
  qed
qed

text \<open>A reservation whose end wraps around leaves the region as it is, or splits it into two that overlap.\<close>

lemma trim_wrapped:
  assumes "nowrap start sz" and "\<not> nowrap rs rn"
  shows "trim_or_split_around_reserved start sz rs rn = ((start, sz), None) \<or>
    (\<exists>n b m. trim_or_split_around_reserved start sz rs rn = ((start, n), Some (b, m)) \<and> nowrap start n \<and> nowrap b m \<and>
       block start n \<union> block b m = block start sz \<and> block start n \<inter> block b m \<noteq> {})"
proof -
  have e: "unat (rs + rn) < unat rs" using assms(2) unat_less64 [of rs] unat_less64 [of rn]
    unfolding nowrap_def unat_word_ariths by (simp add: mod_if) arith
  have stop: "unat (start + sz) = unat start + unat sz" and nw: "unat start + unat sz < 2 ^ 64"
    using assms(1) nowrap_end by (simp_all add: nowrap_def)
  show ?thesis
  proof (cases "rs + rn \<le> start \<or> rs > start + sz")
    case True
    then show ?thesis by (simp add: trim_or_split_around_reserved_def)
  next
    case False
    then have o: "unat start < unat (rs + rn)" "unat rs \<le> unat start + unat sz"
      using stop by (simp_all add: word_less_nat_alt word_le_nat_alt)
    have n: "unat (rs - start) = unat rs - unat start" "unat (start + sz - (rs + rn)) = unat start + unat sz - unat (rs + rn)"
      using o e stop by (simp_all add: unat_sub word_le_nat_alt)
    have "trim_or_split_around_reserved start sz rs rn = ((start, rs - start), Some (rs + rn, start + sz - (rs + rn)))"
      using False o e stop by (simp add: trim_or_split_around_reserved_def Let_def word_less_nat_alt word_le_nat_alt)
    moreover have "unat (rs + rn) \<in> block start (rs - start) \<inter> block (rs + rn) (start + sz - (rs + rn))"
      using o e n by (simp add: block_def)
    moreover have "block start (rs - start) \<union> block (rs + rn) (start + sz - (rs + rn)) = block start sz"
      using o e n by (auto simp: block_def)
    moreover have "nowrap start (rs - start)" "nowrap (rs + rn) (start + sz - (rs + rn))" using o e n nw by (simp_all add: nowrap_def)
    ultimately show ?thesis by blast
  qed
qed

section \<open>The reserve entries\<close>

fun trim_all :: "(addr \<times> size_t) list \<Rightarrow> addr \<Rightarrow> size_t \<Rightarrow> trimmed" where
  "trim_all [] a n = Whole a n"
| "trim_all ((ra, rn) # es) a n = (case trim_step a n ra rn of Whole a' n' \<Rightarrow> trim_all es a' n' | r \<Rightarrow> r)"

lemma rsv_ptr_not_null:
  assumes "fdt_reserved s fdt es" and "i < length es"
  shows "rsv_ptr s fdt i \<noteq> NULL"
  unfolding rsv_ptr_def
proof (rule offset_not_null)
  show "rsv_begin s fdt \<noteq> NULL" using assms(1) by (simp add: fdt_reserved_def)
  show "unat (rsv_begin s fdt) + 16 * i < 2 ^ 64"
    using assms unat_less64 [of "fdt_token_begin s fdt"] by (simp add: fdt_reserved_def)
qed

lemma reserve_loop_eq:
  assumes "fdt_reserved s fdt es" and "i \<le> length es"
  shows "reserve_loop s fdt (if i < length es then rsv_ptr s fdt i else NULL) a n = Some (trim_all (drop i es) a n)"
  using assms(2)
proof (induction arbitrary: a n rule: inc_induct)
  case base
  show ?case by (simp add: reserve_loop.simps)
next
  case (step i)
  have d: "drop i es = es ! i # drop (Suc i) es" using step.hyps by (simp add: Cons_nth_drop_Suc)
  have e: "fdt_reserve_entry_address s (rsv_ptr s fdt i) = fst (es ! i)"
    "fdt_reserve_entry_size s (rsv_ptr s fdt i) = snd (es ! i)"
    using reserved_entry(1,2) [OF assms(1), of i] step.hyps by (simp_all add: nth_append)
  obtain ra rn where r: "es ! i = (ra, rn)" by force
  show ?case
    using step rsv_ptr_not_null [OF assms(1) step.hyps(2)] e r
    by (subst reserve_loop.simps) (auto simp: d reserve_next_eq [OF assms(1)] split: trimmed.splits)
qed

definition reserved_bytes :: "(addr \<times> size_t) list \<Rightarrow> nat set" where
  "reserved_bytes es = (\<Union>(a, n) \<in> set es. block a n)"

lemma smaller_mono: "smaller k r \<Longrightarrow> k \<le> k' \<Longrightarrow> smaller k' r"
  by (cases r) auto

lemma trim_all_eq:
  assumes "nowrap a n" and "n \<noteq> 0" and "list_all (\<lambda>(ra, rn). nowrap ra rn) es"
  shows "smaller (unat n) (trim_all es a n) \<and> pieces (trim_all es a n) \<subseteq> block a n \<and>
    block a n - reserved_bytes es \<subseteq> pieces (trim_all es a n) \<and>
    (\<forall>a' n'. trim_all es a n = Whole a' n' \<longrightarrow> block a' n' = block a n - reserved_bytes es)"
  using assms
proof (induction es a n rule: trim_all.induct)
  case (1 a n)
  then show ?case by (simp add: reserved_bytes_def)
next
  case (2 ra rn es a n)
  have st: "pieces (trim_step a n ra rn) = block a n - block ra rn" "smaller (unat n) (trim_step a n ra rn)"
    using trim_step_eq [of a n ra rn] 2 by auto
  have R: "reserved_bytes ((ra, rn) # es) = block ra rn \<union> reserved_bytes es" by (auto simp: reserved_bytes_def)
  show ?case
  proof (cases "trim_step a n ra rn")
    case (Whole a' n')
    with st have w: "nowrap a' n'" "n' \<noteq> 0" "unat n' \<le> unat n" "block a' n' = block a n - block ra rn" by auto
    have "list_all (\<lambda>(ra, rn). nowrap ra rn) es" using 2 by simp
    from 2(1) [OF Whole w(1,2) this] show ?thesis
      using Whole w(3,4) smaller_mono [of "unat n'" "trim_all es a' n'" "unat n"] unfolding R by auto
  qed (use st in \<open>auto simp: R\<close>)
qed

text \<open>What trimming leaves of a region, given the reserve entries and the place of the tree.\<close>

definition trim_spec :: "(addr \<times> size_t) list \<Rightarrow> addr \<Rightarrow> size_t \<Rightarrow> addr \<Rightarrow> size_t \<Rightarrow> trimmed" where
  "trim_spec es fdt fn a n = (case trim_all es a n of Whole b m \<Rightarrow> trim_step b m fdt fn | r \<Rightarrow> r)"

lemma trim_region_spec:
  assumes "fdt_reserved s fdt es"
  shows "trim_region s fdt a n = Some (trim_spec es fdt (fdt_size s fdt) a n)"
  using reserve_loop_eq [OF assms, of 0 a n] reserve_begin_eq [OF assms]
  by (cases es) (simp_all add: trim_region_def trim_spec_def split: trimmed.splits)

lemma trim_spec_eq:
  assumes "nowrap a n" and "n \<noteq> 0" and "list_all (\<lambda>(ra, rn). nowrap ra rn) es" and "nowrap fdt fn"
  defines "r \<equiv> trim_spec es fdt fn a n"
  shows "smaller (unat n) r \<and> pieces r \<subseteq> block a n \<and> block a n - reserved_bytes es - block fdt fn \<subseteq> pieces r \<and>
    (\<forall>a' n'. r = Whole a' n' \<longrightarrow> block a' n' = block a n - reserved_bytes es - block fdt fn)"
proof -
  note al = trim_all_eq [OF assms(1-3)]
  show ?thesis
  proof (cases "trim_all es a n")
    case (Whole b m)
    have w: "nowrap b m" "m \<noteq> 0" "unat m \<le> unat n" "block b m = block a n - reserved_bytes es" using al Whole by auto
    show ?thesis
      using trim_step_eq [OF w(1) assms(4) w(2)] w(3,4) Whole
        smaller_mono [of "unat m" "trim_step b m fdt fn" "unat n"]
      by (auto simp: r_def trim_spec_def)
  qed (use al in \<open>auto simp: r_def trim_spec_def\<close>)
qed

section \<open>Handing memory to the allocator\<close>

text \<open>The two calls of a split, in the order in which the operands of the sum are evaluated.\<close>

definition both ::
  "bool \<Rightarrow> ('s \<Rightarrow> (size_t \<times> 's) option) \<Rightarrow> ('s \<Rightarrow> (size_t \<times> 's) option) \<Rightarrow> 's \<Rightarrow> (size_t \<times> 's) option" where
  "both lf l r s = (if lf then do { (f1, s1) \<leftarrow> l s; (f2, s2) \<leftarrow> r s1; Some (f1 + f2, s2) }
     else do { (f2, s1) \<leftarrow> r s; (f1, s2) \<leftarrow> l s1; Some (f1 + f2, s2) })"

lemma try_region_step:
  assumes "sz \<noteq> 0" and "\<not> (start < kernel_end \<and> start + sz \<le> kernel_end)"
    and "trim_region s fdt (if start < kernel_end then kernel_end else start)
      (if start < kernel_end then start + sz - kernel_end else sz) = Some r"
  shows "try_boot_free_region bf lf kernel_end s fdt start sz =
    (case r of
       Gone \<Rightarrow> Some (0, s)
     | Split a n b m \<Rightarrow>
         both lf (\<lambda>s. try_boot_free_region bf lf kernel_end s fdt a n) (\<lambda>s. try_boot_free_region bf lf kernel_end s fdt b m) s
     | Whole a n \<Rightarrow> do { (err, s') \<leftarrow> bf s a n; Some (if err \<noteq> KERR_SUCCESS then 0 else n, s') })"
  using assms by (subst try_boot_free_region.simps) (auto simp: both_def split: trimmed.splits)

text \<open>The memory that may be handed over.\<close>

definition usable :: "addr \<Rightarrow> (addr \<times> size_t) list \<Rightarrow> addr \<Rightarrow> size_t \<Rightarrow> nat set" where
  "usable kernel_end es fdt n = {x. unat kernel_end \<le> x} - reserved_bytes es - block fdt n"

lemma usable_disjoint: "block a n \<subseteq> usable kernel_end es fdt fn \<Longrightarrow> block a n \<inter> block fdt fn = {}"
  by (auto simp: usable_def)

text \<open>Offering regions to the allocator, one call after the other, and counting the bytes it accepts.\<close>

fun offer_all :: "'z backend \<Rightarrow> 'z machine_scheme \<Rightarrow> (addr \<times> size_t) list \<Rightarrow> (size_t \<times> 'z machine_scheme) option" where
  "offer_all bf s [] = Some (0, s)"
| "offer_all bf s ((a, n) # rs) =
     do {
       (err, s1) \<leftarrow> bf s a n;
       (freed, s2) \<leftarrow> offer_all bf s1 rs;
       Some ((if err \<noteq> KERR_SUCCESS then 0 else n) + freed, s2)
     }"

text \<open>Regions, from low to high addresses or the other way round, that are not empty, do not overlap, and cover a set of
  bytes.\<close>

definition covers :: "bool \<Rightarrow> (addr \<times> size_t) list \<Rightarrow> nat set \<Rightarrow> bool" where
  "covers up rs M \<longleftrightarrow> list_all (\<lambda>(a, n). n \<noteq> 0 \<and> nowrap a n) rs \<and>
     sorted_wrt (\<lambda>(a, n) (b, m). unat a + unat n \<le> unat b) (if up then rs else rev rs) \<and> free_bytes rs = M"

lemma offer_append: "offer_all bf s (xs @ ys) =
    do { (f1, s1) \<leftarrow> offer_all bf s xs; (f2, s2) \<leftarrow> offer_all bf s1 ys; Some (f1 + f2, s2) }"
  by (induction bf s xs rule: offer_all.induct) (auto simp: add.assoc split: Option.bind_splits)

lemma covers_mem: "covers up rs M \<Longrightarrow> (a, n) \<in> set rs \<Longrightarrow> n \<noteq> 0 \<and> nowrap a n \<and> block a n \<subseteq> M \<and> unat a \<in> M"
  by (auto simp: covers_def list_all_iff free_bytes_def block_def unat_gt_0) (force simp: unat_gt_0)

lemma covers_nil [simp]: "covers up [] M \<longleftrightarrow> M = {}"
  by (auto simp: covers_def free_bytes_def)

lemma covers_one: "n \<noteq> 0 \<Longrightarrow> nowrap a n \<Longrightarrow> covers up [(a, n)] (block a n)"
  by (simp add: covers_def free_bytes_def block_def)

lemma covers_join:
  assumes "covers up xs (block a n \<inter> U)" and "covers up ys (block b m \<inter> U)" and "unat a + unat n \<le> unat b"
  shows "covers up (if up then xs @ ys else ys @ xs) ((block a n \<union> block b m) \<inter> U)"
proof -
  have le: "unat c + unat k \<le> unat d" if "(c, k) \<in> set xs" "(d, j) \<in> set ys" for c k d j
  proof -
    have "0 < unat k" "block c k \<subseteq> block a n" "unat d \<in> block b m"
      using covers_mem [OF assms(1) that(1)] covers_mem [OF assms(2) that(2)] by (auto simp: unat_gt_0)
    then have "unat c + unat k \<le> unat a + unat n" "unat b \<le> unat d"
      by (auto simp: block_def)
    then show ?thesis using assms(3) by simp
  qed
  have "free_bytes (xs @ ys) = (block a n \<union> block b m) \<inter> U" "free_bytes (ys @ xs) = (block a n \<union> block b m) \<inter> U"
    using assms(1,2) by (auto simp: covers_def free_bytes_def)
  then show ?thesis using assms(1,2) le by (auto simp: covers_def sorted_wrt_append)
qed

text \<open>A call either has nothing to offer, or goes by what trimming leaves of the region, which covers its usable bytes and does
  not depend on the state.\<close>

lemma try_region_empty:
  assumes "sz = 0 \<or> start < kernel_end \<and> start + sz \<le> kernel_end" and "nowrap start sz"
  shows "try_boot_free_region bf lf kernel_end s fdt start sz = Some (0, s)"
    and "block start sz \<inter> usable kernel_end es fdt fn = {}"
proof -
  show "try_boot_free_region bf lf kernel_end s fdt start sz = Some (0, s)"
    using assms(1) by (subst try_boot_free_region.simps) auto
  show "block start sz \<inter> usable kernel_end es fdt fn = {}"
    using assms(1) nowrap_end [OF assms(2)] by (auto simp: block_def usable_def word_le_nat_alt)
qed

definition tree_at :: "'z machine_scheme \<Rightarrow> addr \<Rightarrow> (addr \<times> size_t) list \<Rightarrow> size_t \<Rightarrow> bool" where
  "tree_at s fdt es fn \<longleftrightarrow> fdt_reserved s fdt es \<and> fdt_size s fdt = fn"

lemma try_region_trimmed:
  assumes "list_all (\<lambda>(ra, rn). nowrap ra rn) es" and "nowrap fdt fn"
    and "nowrap start sz" and "sz \<noteq> 0" and "\<not> (start < kernel_end \<and> start + sz \<le> kernel_end)"
  obtains r where "\<And>bf lf s. tree_at s fdt es fn \<Longrightarrow> try_boot_free_region bf lf kernel_end s fdt start sz = (case r of
        Gone \<Rightarrow> Some (0, s)
      | Split a n b m \<Rightarrow>
          both lf (\<lambda>s. try_boot_free_region bf lf kernel_end s fdt a n) (\<lambda>s. try_boot_free_region bf lf kernel_end s fdt b m) s
      | Whole a n \<Rightarrow> do { (err, s') \<leftarrow> bf s a n; Some (if err \<noteq> KERR_SUCCESS then 0 else n, s') })"
    and "smaller (unat sz) r" and "pieces r \<subseteq> block start sz"
    and "pieces r \<inter> usable kernel_end es fdt fn = block start sz \<inter> usable kernel_end es fdt fn"
    and "\<And>a n. r = Whole a n \<Longrightarrow> block a n = block start sz \<inter> usable kernel_end es fdt fn"
proof -
  let ?a = "if start < kernel_end then kernel_end else start" and ?k = "unat kernel_end"
  let ?n = "if start < kernel_end then start + sz - kernel_end else sz"
  have n: "start < kernel_end \<Longrightarrow> unat ?n = unat start + unat sz - ?k \<and> ?k < unat start + unat sz"
    using assms(5) nowrap_end [OF assms(3)] by (auto simp: unat_sub word_le_nat_alt)
  have an: "nowrap ?a ?n" "?n \<noteq> 0" "unat ?n \<le> unat sz" "block ?a ?n = block start sz \<inter> {x. ?k \<le> x}"
    using assms(3,4) n by (auto simp: nowrap_def block_def word_less_nat_alt)
  define r where "r = trim_spec es fdt fn ?a ?n"
  note r = trim_spec_eq [OF an(1,2) assms(1,2), folded r_def]
  show ?thesis
  proof (rule that [of r])
    show "try_boot_free_region bf lf kernel_end s fdt start sz = (case r of
        Gone \<Rightarrow> Some (0, s)
      | Split a n b m \<Rightarrow>
          both lf (\<lambda>s. try_boot_free_region bf lf kernel_end s fdt a n) (\<lambda>s. try_boot_free_region bf lf kernel_end s fdt b m) s
      | Whole a n \<Rightarrow> do { (err, s') \<leftarrow> bf s a n; Some (if err \<noteq> KERR_SUCCESS then 0 else n, s') })"
      if "tree_at s fdt es fn" for bf :: "'a backend" and lf s
      using that trim_region_spec [of s fdt es ?a ?n] by (intro try_region_step [OF assms(4,5)]) (simp add: r_def tree_at_def)
    show "smaller (unat sz) r" by (rule smaller_mono [OF _ an(3)]) (use r in blast)
    show "pieces r \<subseteq> block start sz" using r an(4) by blast
    show "pieces r \<inter> usable kernel_end es fdt fn = block start sz \<inter> usable kernel_end es fdt fn"
      using r an(4) by (auto simp: usable_def)
    show "block a n = block start sz \<inter> usable kernel_end es fdt fn" if "r = Whole a n" for a n
      using r an(4) that by (auto simp: usable_def)
  qed
qed

text \<open>
  A back end, seen from its caller: an invariant \<^term>\<open>ok\<close> of its states in which the device tree is readable, and which every
  call keeps that offers usable memory and returns.
\<close>

locale boot_backend =
  fixes bf :: "'z backend" and ok :: "'z machine_scheme \<Rightarrow> bool" and kernel_end fdt :: addr
    and es :: "(addr \<times> size_t) list" and fn :: size_t
  assumes tree: "ok s \<Longrightarrow> tree_at s fdt es fn"
    and keep: "ok s \<Longrightarrow> n \<noteq> 0 \<Longrightarrow> nowrap a n \<Longrightarrow> block a n \<subseteq> usable kernel_end es fdt fn \<Longrightarrow> bf s a n = Some (err, t) \<Longrightarrow> ok t"
begin

lemma offers_keep:
  assumes "ok s" and "covers up rs M" and "M \<subseteq> usable kernel_end es fdt fn" and "offer_all bf s rs = Some (freed, t)"
  shows "ok t"
proof -
  have "\<forall>(a, n) \<in> set rs. n \<noteq> 0 \<and> nowrap a n \<and> block a n \<subseteq> usable kernel_end es fdt fn"
    using covers_mem [OF assms(2)] assms(3) by blast
  then show ?thesis using assms(1,4)
  proof (induction rs arbitrary: s freed)
    case (Cons r rs)
    obtain a n where r: "r = (a, n)" by force
    from Cons.prems(3) obtain err s1 f where o: "bf s a n = Some (err, s1)" "offer_all bf s1 rs = Some (f, t)"
      by (auto simp: r bind_eq_Some_conv)
    then have "ok s1" using keep [OF Cons.prems(2) _ _ _ o(1)] Cons.prems(1) r by simp
    then show ?case using Cons.IH o(2) Cons.prems(1) by simp
  qed simp
qed

lemma both_offers:
  assumes "ok s" and "covers up xs (M \<inter> usable kernel_end es fdt fn)" and "\<And>s. ok s \<Longrightarrow> l s = offer_all bf s xs"
    and "covers up ys (N \<inter> usable kernel_end es fdt fn)" and "\<And>s. ok s \<Longrightarrow> r s = offer_all bf s ys"
  shows "both lf l r s = offer_all bf s (if lf then xs @ ys else ys @ xs)"
proof (cases lf)
  case True
  show ?thesis
  proof (cases "offer_all bf s xs")
    case (Some p)
    then obtain f1 s1 where p: "offer_all bf s xs = Some (f1, s1)" by (cases p) simp
    have "ok s1" by (rule offers_keep [OF assms(1,2) _ p]) simp
    then show ?thesis using True p by (simp add: both_def offer_append assms(1,3,5))
  qed (use True assms(1,3) in \<open>simp add: both_def offer_append\<close>)
next
  case False
  show ?thesis
  proof (cases "offer_all bf s ys")
    case (Some p)
    then obtain f2 s1 where p: "offer_all bf s ys = Some (f2, s1)" by (cases p) simp
    have "ok s1" by (rule offers_keep [OF assms(1,4) _ p]) simp
    then show ?thesis using False p by (simp add: both_def offer_append assms(1,3,5) add.commute)
  qed (use False assms(1,5) in \<open>simp add: both_def offer_append\<close>)
qed

lemma try_region:
  assumes "list_all (\<lambda>(ra, rn). nowrap ra rn) es" and "nowrap fdt fn" and "nowrap start sz"
  shows "\<exists>rs. covers lf rs (block start sz \<inter> usable kernel_end es fdt fn) \<and>
    (\<forall>s. ok s \<longrightarrow> try_boot_free_region bf lf kernel_end s fdt start sz = offer_all bf s rs)"
  using assms(3)
proof (induction "unat sz" arbitrary: start sz rule: less_induct)
  case less
  let ?U = "usable kernel_end es fdt fn" and ?go = "\<lambda>s a n. try_boot_free_region bf lf kernel_end s fdt a n"
  show ?case
  proof (cases "sz = 0 \<or> start < kernel_end \<and> start + sz \<le> kernel_end")
    case True
    then show ?thesis by (intro exI [of _ "[]"]) (simp add: try_region_empty [OF True less.prems])
  next
    case False
    from False have f: "sz \<noteq> 0" "\<not> (start < kernel_end \<and> start + sz \<le> kernel_end)" by auto
    obtain r where step: "\<And>s. ok s \<Longrightarrow> ?go s start sz = (case r of
        Gone \<Rightarrow> Some (0, s) | Split a n b m \<Rightarrow> both lf (\<lambda>s. ?go s a n) (\<lambda>s. ?go s b m) s
      | Whole a n \<Rightarrow> do { (err, s') \<leftarrow> bf s a n; Some (if err \<noteq> KERR_SUCCESS then 0 else n, s') })"
      and r: "smaller (unat sz) r" "pieces r \<subseteq> block start sz" "pieces r \<inter> ?U = block start sz \<inter> ?U"
        "\<And>a n. r = Whole a n \<Longrightarrow> block a n = block start sz \<inter> ?U"
      by (rule try_region_trimmed [OF assms(1,2) less.prems f]) (use tree in blast)+
    show ?thesis
    proof (cases r)
      case (Whole a n)
      have "covers lf [(a, n)] (block start sz \<inter> ?U)" using covers_one [of n a lf] r(1,4) Whole by auto
      moreover have "ok s \<Longrightarrow> ?go s start sz = offer_all bf s [(a, n)]" for s
        using step [of s] Whole by (auto intro!: Option.bind_cong)
      ultimately show ?thesis by blast
    next
      case (Split a n b m)
      have lt: "nowrap a n" "nowrap b m" "unat n < unat sz" "unat m < unat sz" and d: "unat a + unat n \<le> unat b"
        using r(1) Split by auto
      from less.hyps [OF lt(3,1)] less.hyps [OF lt(4,2)] obtain xs ys where
        xs: "covers lf xs (block a n \<inter> ?U)" "\<And>s. ok s \<Longrightarrow> ?go s a n = offer_all bf s xs" and
        ys: "covers lf ys (block b m \<inter> ?U)" "\<And>s. ok s \<Longrightarrow> ?go s b m = offer_all bf s ys" by blast
      have "ok s \<Longrightarrow> ?go s start sz = offer_all bf s (if lf then xs @ ys else ys @ xs)" for s
        using step [of s] Split by (simp add: both_offers [OF _ xs ys])
      moreover have "covers lf (if lf then xs @ ys else ys @ xs) (block start sz \<inter> ?U)"
        using covers_join [OF xs(1) ys(1) d] r(3) Split by simp
      ultimately show ?thesis by blast
    next
      case Gone
      then show ?thesis using step r(3) by (intro exI [of _ "[]"]) simp
    qed
  qed
qed

end

section \<open>The free list as the back end\<close>

text \<open>The header of the first free region does not overlap the tree, and no region follows it.  An empty list is such a list, and
  \<^verbatim>\<open>boot_free\<close>, which never adds a second region, keeps it one.\<close>

definition head_apart :: "'z boot_scheme \<Rightarrow> nat set \<Rightarrow> bool" where
  "head_apart s M \<longleftrightarrow> boot_free_list s = NULL \<or>
     region_next s (boot_free_list s) = NULL \<and> unat (boot_free_list s) + 24 < 2 ^ 64 \<and>
     {unat (boot_free_list s) ..< unat (boot_free_list s) + 24} \<inter> M = {}"

lemma boot_free_head_apart:
  assumes "head_apart s M" and "boot_free s a n = Some (err, t)" and "nowrap a n" and "block a n \<inter> M = {}"
  shows "head_apart t M" and "writes_only (- M) s t"
proof -
  have "head_apart t M \<and> writes_only (- M) s t"
  proof (cases "boot_free_list s = NULL \<and> \<not> n < region_struct_size")
    case True
    have n: "24 \<le> unat n" using True by (simp add: region_struct_size_def word_less_nat_alt)
    then have "{unat a ..< unat a + 24} \<subseteq> block a n" by (auto simp: block_def)
    then have b: "{unat a ..< unat a + 24} \<inter> M = {}" using assms(4) by blast
    have a24: "unat a + 24 < 2 ^ 64" using n assms(3) by (simp add: nowrap_def)
    have t: "t = (set_size (set_next (set_prev s a NULL) a NULL) a n)\<lparr>boot_free_list := a\<rparr>"
      using assms(2) True by (simp add: boot_free_unfold split: if_splits)
    have w: "{unat a ..< unat a + 24} \<subseteq> - M" using b by blast
    have "writes_only (- M) s (set_size (set_next (set_prev s a NULL) a NULL) a n)"
      by (rule writes_only_trans [OF writes_only_trans [OF writes_only_region(2) writes_only_region(1)] writes_only_region(3)])
        (use w a24 in simp_all)
    then have "writes_only (- M) s t" by (simp add: t writes_only_def)
    moreover have "head_apart t M" using a24 b by (simp add: t head_apart_def)
    ultimately show ?thesis by blast
  next
    case False
    show ?thesis
    proof (cases "boot_free_list s = NULL")
      case True
      then show ?thesis using assms(1,2) False by (auto simp: boot_free_unfold)
    next
      case nonempty: False
      let ?h = "boot_free_list s"
      have h: "region_next s ?h = NULL" "unat ?h + 24 < 2 ^ 64" "{unat ?h ..< unat ?h + 24} \<inter> M = {}"
        using assms(1) nonempty by (auto simp: head_apart_def)
      have "t = s \<or> t = set_size s ?h (region_size s ?h + n)"
        using assms(2) nonempty h(1)
        by (auto simp: boot_free_unfold free_body_def Let_def boot_free_list_next_def split: if_splits)
      moreover have "writes_only (- M) s (set_size s ?h w)" for w using h(2,3) by (intro writes_only_region(3)) auto
      moreover have "head_apart (set_size s ?h w) M" for w using h by (simp add: head_apart_def)
      ultimately show ?thesis using assms(1) by auto
    qed
  qed
  then show "head_apart t M" and "writes_only (- M) s t" by auto
qed

text \<open>The states in which the tree is in memory and the free list apart from it.\<close>

definition handing :: "addr \<Rightarrow> (addr \<times> size_t) list \<Rightarrow> token list \<Rightarrow> byte list \<Rightarrow> size_t \<Rightarrow> 'z boot_scheme \<Rightarrow> bool" where
  "handing fdt es ts strs fn s \<longleftrightarrow> has_blob s fdt es ts strs \<and> fdt_size s fdt = fn \<and> head_apart s (block fdt fn)"

interpretation free_list_backend: boot_backend boot_free "handing fdt es ts strs fn" kernel_end fdt es fn
proof
  show "tree_at s fdt es fn" if "handing fdt es ts strs fn s" for s :: "'a boot_scheme"
    using that blob_ok(4) [of s fdt es ts strs] by (simp add: handing_def tree_at_def)
  fix s t :: "'a boot_scheme" and n :: size_t and a :: addr and err
  assume ok: "handing fdt es ts strs fn s" and n: "nowrap a n" "block a n \<subseteq> usable kernel_end es fdt fn"
    and call: "boot_free s a n = Some (err, t)"
  from ok have b: "has_blob s fdt es ts strs" "fdt_size s fdt = fn" "head_apart s (block fdt fn)" by (simp_all add: handing_def)
  note w = boot_free_head_apart [OF b(3) call n(1) usable_disjoint [OF n(2)]]
  have "unat fn = length (fdt_bytes es ts strs)" using blob_ok(5) [OF b(1)] b(2) by simp
  then have "has_blob t fdt es ts strs"
    using boot_free_same [OF call] w(2)
    by (intro has_blob_frame [OF b(1)]) (auto simp: same_rest_def same_devices_def writes_only_def block_def)
  then show "handing fdt es ts strs fn t" using w(1) b(2) has_blob_tok_ptr(2) [OF b(1)] by (simp add: handing_def)
qed

lemma free_list_offers:
  fixes s :: "'z boot_scheme" and kernel_end :: addr
  assumes "has_blob s fdt es ts strs" and "list_all (\<lambda>(ra, rn). nowrap ra rn) es" and "nowrap start sz"
    and "head_apart s (block fdt (fdt_size s fdt))"
  defines "M \<equiv> block start sz \<inter> usable kernel_end es fdt (fdt_size s fdt)"
  obtains rs where "covers lf rs M"
    and "try_boot_free_region boot_free lf kernel_end s fdt start sz = offer_all boot_free s rs"
    and "\<And>freed t. offer_all boot_free s rs = Some (freed, t) \<Longrightarrow>
      has_blob t fdt es ts strs \<and> head_apart t (block fdt (fdt_size s fdt))"
proof -
  have h: "handing fdt es ts strs (fdt_size s fdt) s" using assms(1,4) by (simp add: handing_def)
  have fn: "nowrap fdt (fdt_size s fdt)"
    using assms(1) blob_ok(5) [OF assms(1)] by (simp add: nowrap_def has_blob_def wf_blob_def)
  from free_list_backend.try_region [OF assms(2) fn assms(3)] h obtain rs where
    rs: "covers lf rs M" "try_boot_free_region boot_free lf kernel_end s fdt start sz = offer_all boot_free s rs"
    unfolding M_def by blast
  show ?thesis
  proof (rule that [OF rs])
    fix freed t assume t: "offer_all boot_free s rs = Some (freed, t)"
    have "M \<subseteq> usable kernel_end es fdt (fdt_size s fdt)" by (simp add: M_def)
    from free_list_backend.offers_keep [OF h rs(1) this t] show "has_blob t fdt es ts strs \<and> head_apart t (block fdt (fdt_size s fdt))" by (simp add: handing_def)
  qed
qed

text \<open>From low to high addresses, an empty list takes what it is offered without a store through a null pointer.\<close>

lemma offers_return:
  assumes "list_all (\<lambda>(a, n). a \<noteq> NULL \<and> nowrap a n \<and> unat h \<le> unat a) rs"
    and "boot_free_list s = NULL \<or> boot_free_list s \<le> h"
    and "sorted_wrt (\<lambda>(a, n) (b, m). unat a + unat n \<le> unat b) rs"
  shows "offer_all boot_free s rs \<noteq> None"
  using assms
proof (induction rs arbitrary: s h)
  case (Cons r rs)
  obtain a n where r: "r = (a, n)" by force
  have a: "a \<noteq> NULL" "nowrap a n" "unat h \<le> unat a" using Cons.prems(1) r by auto
  have stop: "\<not> boot_free_list s > a + n" if "boot_free_list s \<noteq> NULL"
    using that Cons.prems(2) a nowrap_end [OF a(2)] by (simp add: word_less_nat_alt word_le_nat_alt)
  obtain err t where t: "boot_free s a n = Some (err, t)" "boot_free_list t = NULL \<or> boot_free_list t \<le> a"
  proof (cases "boot_free_list s = NULL")
    case True
    then show ?thesis
      using a(1) that [of KERR_EMPTY s] that [of KERR_SUCCESS
          "(set_size (set_next (set_prev s a NULL) a NULL) a n)\<lparr>boot_free_list := a\<rparr>"]
      by (cases "n < region_struct_size") (simp_all add: boot_free_unfold)
  next
    case False
    then have le: "boot_free_list s \<le> a" using Cons.prems(2) a(3) by (simp add: word_le_nat_alt)
    have "\<exists>err t. free_body s a n (boot_free_list s) NULL NULL = Return err t \<and> boot_free_list t = boot_free_list s"
      using stop [OF False] by (simp add: free_body_def Let_def)
    then obtain err t where t: "free_body s a n (boot_free_list s) NULL NULL = Return err t" "boot_free_list t = boot_free_list s"
      by blast
    then show ?thesis using that [of err t] le False by (simp add: boot_free_unfold)
  qed
  have "list_all (\<lambda>(b, m). b \<noteq> NULL \<and> nowrap b m \<and> unat a \<le> unat b) rs" using Cons.prems(1,3) r by (auto simp: list_all_iff)
  then have "offer_all boot_free t rs \<noteq> None" using Cons.IH [of a t] t(2) Cons.prems(3) by (simp add: r)
  then show ?case using t(1) by (auto simp: r)
qed simp

text \<open>Bytes that \<^verbatim>\<open>boot_free\<close> refuses when the free list starts as given: they lie above its first region and not at 24 times its
  length, where the code sees its end.  An empty list refuses nothing.\<close>

fun refused :: "(addr \<times> size_t) list \<Rightarrow> nat set \<Rightarrow> bool" where
  "refused [] M \<longleftrightarrow> M = {}"
| "refused ((a, n) # rs) M \<longleftrightarrow> (\<forall>x \<in> M. unat a \<le> x \<and> x \<noteq> unat (a + 24 * n))"

lemma offers_refused:
  assumes "free_list_ok s free" and "refused free M" and "covers up rs M"
  shows "offer_all boot_free s rs = Some (0, s)"
proof (cases free)
  case Nil
  then show ?thesis using assms(2) covers_mem [OF assms(3)] by (cases rs) auto
next
  case (Cons r free')
  obtain a n where r: "r = (a, n)" by force
  have "\<forall>(b, m) \<in> set rs. boot_free s b m = Some (KERR_EXIST, s)"
  proof clarify
    fix b m assume "(b, m) \<in> set rs"
    then have b: "nowrap b m" "unat a \<le> unat b" "a + 24 * n \<noteq> b" using covers_mem [OF assms(3)] assms(2) Cons r by auto
    then have "\<not> b + m < a" using nowrap_end [OF b(1)] by (simp add: word_less_nat_alt)
    then show "boot_free s b m = Some (KERR_EXIST, s)"
      using boot_free_nonempty [of s a n free' b m] assms(1) b(3) Cons r by simp
  qed
  then show ?thesis by (induction rs) auto
qed

section \<open>The usual layout\<close>

text \<open>The kernel and the reserved ranges lie below \<^term>\<open>a\<close>, the first byte of the region above the kernel, and the device
  tree lies inside the region, not at 24 times the distance between the two.\<close>

definition fdt_inside :: "(addr \<times> size_t) list \<Rightarrow> addr \<Rightarrow> size_t \<Rightarrow> addr \<Rightarrow> addr \<Rightarrow> size_t \<Rightarrow> bool" where
  "fdt_inside es a n stop fdt fn \<longleftrightarrow>
     list_all (\<lambda>(ra, rn). nowrap ra rn \<and> ra + rn \<le> a) es \<and> a \<noteq> NULL \<and> n = fdt - a \<and>
     unat a + 24 \<le> unat fdt \<and> unat fdt - unat a < 2 ^ 63 \<and> fn \<noteq> 0 \<and> unat fdt + unat fn < unat stop \<and>
     fdt + fn \<noteq> a + 24 * n"

lemma trim_all_below:
  assumes "list_all (\<lambda>(ra, rn). nowrap ra rn \<and> ra + rn \<le> a) es" and "n \<noteq> 0"
  shows "trim_all es a n = Whole a n"
  using assms by (induction es) (auto simp: trim_step_def trim_or_split_around_reserved_def Let_def)

lemma trim_region_below:
  assumes "fdt_reserved s fdt es" and "list_all (\<lambda>(ra, rn). nowrap ra rn \<and> ra + rn \<le> a) es" and "n \<noteq> 0"
  shows "trim_region s fdt a n = Some (trim_step a n fdt (fdt_size s fdt))"
  using trim_region_spec [OF assms(1)] trim_all_below [OF assms(2,3)] by (simp add: trim_spec_def)

lemma trim_inside:
  assumes "fdt_inside es a n stop fdt fn"
  shows "trim_step a (stop - a) fdt fn = Split a n (fdt + fn) (stop - (fdt + fn))" and "trim_step a n fdt fn = Whole a n"
    and "trim_step (fdt + fn) (stop - (fdt + fn)) fdt fn = Whole (fdt + fn) (stop - (fdt + fn))"
    and "unat (fdt + fn) = unat fdt + unat fn" and "unat n = unat fdt - unat a"
proof -
  note i = assms [unfolded fdt_inside_def]
  show e: "unat (fdt + fn) = unat fdt + unat fn" using i unat_less64 [of stop] by (intro unat_add64) simp
  show n: "unat n = unat fdt - unat a" using i by (simp add: unat_sub word_le_nat_alt)
  have z: "n \<noteq> 0" "stop - (fdt + fn) \<noteq> 0" "0 < unat fn" using n i e by (auto simp: unat_gt_0)
  have o: "a < fdt" "fdt < fdt + fn" "fdt + fn < stop" using i e z(3) by (simp_all add: word_less_nat_alt)
  have "a + (stop - a) = stop" "a + n = fdt" "fdt + fn + (stop - (fdt + fn)) = stop" using i by simp_all
  then show "trim_step a (stop - a) fdt fn = Split a n (fdt + fn) (stop - (fdt + fn))" and "trim_step a n fdt fn = Whole a n"
    and "trim_step (fdt + fn) (stop - (fdt + fn)) fdt fn = Whole (fdt + fn) (stop - (fdt + fn))"
    using o z i unfolding trim_step_def trim_or_split_around_reserved_def Let_def by auto
qed

lemma try_region_inside:
  fixes s :: "'z boot_scheme"
  assumes "has_blob s fdt es ts strs" and "boot_free_list s = NULL" and "fdt_size s fdt = fn"
    and "start < start + sz" and "a = (if start < kernel_end then kernel_end else start)"
    and "fdt_inside es a n (start + sz) fdt fn"
  shows "\<exists>s'. try_boot_free_region boot_free True kernel_end s fdt start sz = Some (n, s') \<and>
    free_list_ok s' [(a, n)] \<and> writes_only (block a n) s s' \<and> has_blob s' fdt es ts strs \<and> same_rest s s'"
proof -
  let ?go = "try_boot_free_region boot_free True kernel_end"
  define stop where "stop = start + sz"
  note i = assms(6) [unfolded fdt_inside_def, folded stop_def] and t = trim_inside [OF assms(6), folded stop_def]
  note res = blob_ok(4) [OF assms(1)] and fn = assms(3)
  have o: "kernel_end \<le> a" "a < stop" "fdt + fn < stop" "a < fdt + fn" "n \<noteq> 0" "stop - (fdt + fn) \<noteq> 0" "sz \<noteq> 0"
    using assms(4,5) i t(4,5) by (auto simp: word_less_nat_alt word_le_nat_alt stop_def)
  have m: "nowrap ra rn \<and> ra + rn \<le> a \<Longrightarrow> nowrap ra rn \<and> ra + rn \<le> fdt + fn" for ra rn using o(4) by auto
  have above: "list_all (\<lambda>(ra, rn). nowrap ra rn \<and> ra + rn \<le> fdt + fn) es"
    using i m unfolding list_all_def by blast
  obtain s' where s': "boot_free s a n = Some (KERR_SUCCESS, s')" "free_list_ok s' [(a, n)]" "writes_only (block a n) s s'"
  proof -
    have "24 \<le> unat n" "unat n < 2 ^ 63" "unat a + unat n < 2 ^ 64" using i t(5) unat_less64 [of fdt] by auto
    then show ?thesis using boot_free_empty [OF assms(2), of a n] i that by blast
  qed
  have blob: "has_blob s' fdt es ts strs"
    using boot_free_same [OF s'(1)] s'(3) i t(5)
    by (intro has_blob_frame [OF assms(1)]) (auto simp: same_rest_def same_devices_def writes_only_def block_def)
  note res' = blob_ok(4) [OF blob]
  have fn': "fdt_size s' fdt = fn"
    using blob_ok(5) [OF blob] blob_ok(5) [OF assms(1)] fn by (simp add: word_unat_eq_iff)
  have "?go s fdt a n = Some (n, s')"
    using o(1,5) trim_region_below [OF res, of a n] i t(2) fn s'(1) by (subst try_region_step) auto
  moreover have "?go s' fdt (fdt + fn) (stop - (fdt + fn)) = Some (0, s')"
    using o trim_region_below [OF res' above] i t(3) fn' boot_free_nonempty [OF s'(2), of "fdt + fn" "stop - (fdt + fn)"]
    by (subst try_region_step) auto
  moreover have "trim_region s fdt a (stop - a) = Some (Split a n (fdt + fn) (stop - (fdt + fn)))"
    using trim_region_below [OF res, of a "stop - a"] i o(2) t(1) fn by simp
  moreover have "stop - a = (if start < kernel_end then start + sz - kernel_end else sz)"
    using assms(5) by (simp add: stop_def)
  ultimately have "?go s fdt start sz = Some (n, s')"
    using o assms(5) by (subst try_region_step) (auto simp: stop_def both_def)
  then show ?thesis using s' blob boot_free_same [OF s'(1)] by blast
qed

text \<open>With the right operand evaluated first, the memory above the tree becomes the first free region, and the memory below is
  then offered to \<^verbatim>\<open>boot_free\<close> below it, which stores through the null pointer.\<close>

lemma try_region_right:
  fixes s :: "'z boot_scheme"
  assumes "has_blob s fdt es ts strs" and "boot_free_list s = NULL" and "fdt_size s fdt = fn"
    and "start < start + sz" and "a = (if start < kernel_end then kernel_end else start)"
    and "fdt_inside es a n (start + sz) fdt fn" and "m = start + sz - (fdt + fn)"
    and "24 \<le> unat m" and "unat m < 2 ^ 63" and "unat (fdt + fn) + 24 * unat m < 2 ^ 64"
  shows "try_boot_free_region boot_free False kernel_end s fdt start sz = None"
proof -
  let ?go = "try_boot_free_region boot_free False kernel_end" and ?b = "fdt + fn"
  define stop where "stop = start + sz"
  note i = assms(6) [unfolded fdt_inside_def, folded stop_def] and t = trim_inside [OF assms(6), folded stop_def]
  note res = blob_ok(4) [OF assms(1)] and fn = assms(3)
  have m: "m = stop - ?b" using assms(7) by (simp add: stop_def)
  have um: "unat m = unat stop - unat ?b" and ub: "unat ?b < unat stop" using i t(4) by (simp_all add: m unat_sub word_le_nat_alt)
  have o: "kernel_end \<le> a" "a < stop" "?b < stop" "a < ?b" "n \<noteq> 0" "m \<noteq> 0" "sz \<noteq> 0" "?b \<noteq> NULL" "\<not> ?b < kernel_end"
    using assms(4,5) i t(4,5) by (auto simp: word_less_nat_alt word_le_nat_alt stop_def m split: if_splits)
  have mm: "nowrap ra rn \<and> ra + rn \<le> a \<Longrightarrow> nowrap ra rn \<and> ra + rn \<le> ?b" for ra rn using o(4) by auto
  have above: "list_all (\<lambda>(ra, rn). nowrap ra rn \<and> ra + rn \<le> ?b) es" using i mm unfolding list_all_def by blast
  obtain s' where s': "boot_free s ?b m = Some (KERR_SUCCESS, s')" "free_list_ok s' [(?b, m)]" "writes_only (block ?b m) s s'"
  proof -
    have "unat ?b + unat m < 2 ^ 64" using um ub unat_less64 [of stop] by simp
    then show ?thesis using boot_free_empty [OF assms(2) o(8) assms(8,9)] that by blast
  qed
  have blob: "has_blob s' fdt es ts strs"
    using boot_free_same [OF s'(1)] s'(3) t(4) blob_ok(5) [OF assms(1)] fn
    by (intro has_blob_frame [OF assms(1)]) (auto simp: same_rest_def same_devices_def writes_only_def block_def)
  note res' = blob_ok(4) [OF blob]
  have fn': "fdt_size s' fdt = fn" using has_blob_tok_ptr(2) [OF assms(1) blob] fn by simp
  have right: "?go s fdt ?b m = Some (m, s')"
    using o trim_region_below [OF res above o(6)] t(3) fn s'(1) by (subst try_region_step) (auto simp: m)
  have "unat (24 * m) = 24 * unat m" using assms(10) by (intro trans [OF unat_mult_lem [THEN iffD1]]) simp_all
  then have e: "unat (?b + 24 * m) = unat ?b + 24 * unat m" using assms(10) unat_add64 [of ?b "24 * m"] by simp
  have "\<not> ?b + 24 * m < a" "?b + 24 * m \<noteq> a" "a + n < ?b"
    using e o(4) i t(4,5) unat_gt_0 [of fn] by (auto simp: word_less_nat_alt)
  then have "boot_free s' a n = None" using boot_free_nonempty [OF s'(2), of a n] by simp
  then have left: "?go s' fdt a n = None"
    using o(1,5) trim_region_below [OF res', of a n] i t(2) fn' by (subst try_region_step) auto
  have "trim_region s fdt a (stop - a) = Some (Split a n ?b m)"
    using trim_region_below [OF res, of a "stop - a"] i o(2) t(1) fn by (simp add: m)
  then have tr: "trim_region s fdt (if start < kernel_end then kernel_end else start)
      (if start < kernel_end then start + sz - kernel_end else sz) = Some (Split a n ?b m)"
    using assms(5) by (auto simp: stop_def split: if_splits)
  have "\<not> (start < kernel_end \<and> start + sz \<le> kernel_end)" using o(1,2) by (auto simp: stop_def)
  from try_region_step [OF o(7) this tr] show ?thesis using right left by (simp add: both_def)
qed

section \<open>Initialisation from a tree\<close>

definition shown_name :: "byte list \<Rightarrow> byte list" where
  "shown_name nm = (if nm = [] then bytes_of ''{DEBUG: Nameless Node}'' else nm)"

definition memory_line :: "byte list \<Rightarrow> nat \<Rightarrow> addr \<Rightarrow> size_t \<Rightarrow> byte list" where
  "memory_line nm i a n = bytes_of ''memory_node: ('' @ shown_name nm @ bytes_of '')['' @ [48 + of_nat i] @
     bytes_of ''] {addr = '' @ hex_text a @ bytes_of '', size = '' @ hex_text n @ bytes_of ''}\<newline>''"

definition totals :: "size_t \<Rightarrow> size_t \<Rightarrow> byte list" where
  "totals seen freed = bytes_of ''[FDT] Freed Memory Regions:\<newline>'' @
     bytes_of (''[FDT] '' @ [CHR 0x09] @ ''Total Memory = ('') @ hex_text seen @ bytes_of '' bytes)\<newline>'' @
     bytes_of (''[FDT] '' @ [CHR 0x09] @ ''Freed Memory = ('') @ hex_text freed @ bytes_of '' bytes)\<newline>''"

lemma ucast_digit: "ucast (48 + ucast (ucast (of_nat i :: size_t) :: byte) :: u32) = (48 + of_nat i :: byte)"
proof -
  have "ucast (x + y :: u32) = (ucast x + ucast y :: byte)" for x y
    by (simp add: unsigned_ucast_eq word_unat_eq_iff unat_word_ariths take_bit_eq_mod mod_simps mod_mod_cancel)
  from this [of 48 "ucast (ucast (of_nat i :: size_t) :: byte)"] show ?thesis
    by (simp add: word_unat_eq_iff unsigned_ucast_eq take_bit_eq_mod unat_word_ariths unat_of_nat mod_simps mod_mod_cancel)
qed

lemma memory_line_printk:
  assumes "cstr s p (shown_name nm)" and "(48 + of_nat i :: byte) \<noteq> 0"
  shows "do { (s', _) \<leftarrow> printk s (Lit (bytes_of ''memory_node: (%s)[%c] {addr = %p, size = %p}\<newline>''))
      [VStr p, VInt (48 + ucast (ucast (of_nat i :: size_t) :: byte)), VPtr a, VPtr n]; f s' } = f (emit s (memory_line nm i a n))"
proof -
  have "printk s (Lit (bytes_of ''memory_node: (%s)[%c] {addr = %p, size = %p}\<newline>''))
      [VStr p, VInt (48 + ucast (ucast (of_nat i :: size_t) :: byte)), VPtr a, VPtr n] =
      Some (emit s (memory_line nm i a n), of_nat (length (memory_line nm i a n)))"
    unfolding printk_def
  proof (rule early_sink.formatted_print_eq [where str = "\<lambda>_. shown_name nm"])
    show "cstr s (Lit (bytes_of ''memory_node: (%s)[%c] {addr = %p, size = %p}\<newline>''))
        (bytes_of ''memory_node: (%s)[%c] {addr = %p, size = %p}\<newline>'')" by (simp add: cstr_def bytes_of_def)
  qed (use assms in \<open>simp_all add: bytes_of_def hex_text_def memory_line_def ucast_digit\<close>)
  then show ?thesis by simp
qed

lemma total_lines:
  "do { (s', _) \<leftarrow> printk s (Lit (bytes_of ''[FDT] Freed Memory Regions:\<newline>'')) []; f s' } =
    f (emit s (bytes_of ''[FDT] Freed Memory Regions:\<newline>''))"
  "do { (s', _) \<leftarrow> printk s (Lit (bytes_of (''[FDT] '' @ [CHR 0x09] @ ''Total Memory = (%p bytes)\<newline>''))) [VPtr n]; f s' } =
    f (emit s (bytes_of (''[FDT] '' @ [CHR 0x09] @ ''Total Memory = ('') @ hex_text n @ bytes_of '' bytes)\<newline>''))"
  "do { (s', _) \<leftarrow> printk s (Lit (bytes_of (''[FDT] '' @ [CHR 0x09] @ ''Freed Memory = (%p bytes)\<newline>''))) [VPtr n]; f s' } =
    f (emit s (bytes_of (''[FDT] '' @ [CHR 0x09] @ ''Freed Memory = ('') @ hex_text n @ bytes_of '' bytes)\<newline>''))"
  by (rule printk_then; auto simp: bytes_of_def hex_text_def render_plain)+

lemma totals_printk:
  "do {
     (s2, _) \<leftarrow> printk s (Lit (bytes_of ''[FDT] Freed Memory Regions:\<newline>'')) [];
     (s3, _) \<leftarrow> printk s2 (Lit (bytes_of (''[FDT] '' @ [CHR 0x09] @ ''Total Memory = (%p bytes)\<newline>''))) [VPtr seen];
     (s4, _) \<leftarrow> printk s3 (Lit (bytes_of (''[FDT] '' @ [CHR 0x09] @ ''Freed Memory = (%p bytes)\<newline>''))) [VPtr freed];
     Some (r, s4)
   } = Some (r, emit s (totals seen freed))"
  by (simp only: total_lines emit_append totals_def append_assoc)

text \<open>What is reported of a memory node: its first block, as many times as it has blocks, since the loop reads block 0 in every
  round.\<close>

type_synonym report = "byte list \<times> nat \<times> addr \<times> size_t"

fun node_name :: "token list \<Rightarrow> byte list" where
  "node_name (BeginNode nm # us) = nm"
| "node_name us = []"

definition node_reports :: "token list \<Rightarrow> byte list \<Rightarrow> token list \<Rightarrow> report list" where
  "node_reports ts strs vs = (case first_block ts strs vs of
     None \<Rightarrow> [] | Some (a, n) \<Rightarrow> map (\<lambda>i. (node_name vs, i, a, n)) [0..<block_count ts strs vs])"

definition memory_nodes :: "byte list \<Rightarrow> token list \<Rightarrow> token list list" where
  "memory_nodes strs us = filter (has_device_type strs (bytes_of ''memory'')) (nodes us)"

definition memory_reports :: "token list \<Rightarrow> byte list \<Rightarrow> token list \<Rightarrow> report list" where
  "memory_reports ts strs us = concat (map (node_reports ts strs) (memory_nodes strs us))"

definition report_lines :: "report list \<Rightarrow> byte list" where
  "report_lines rs = concat (map (\<lambda>(nm, i, a, n). memory_line nm i a n) rs)"

definition reported :: "report list \<Rightarrow> size_t" where
  "reported rs = sum_list (map (\<lambda>(nm, i, a, n). n) rs)"

text \<open>The digit that numbers a block can be printed, and the block has nothing to add to a free list with the regions given.\<close>

definition digit :: "nat \<Rightarrow> bool" where
  "digit i \<longleftrightarrow> (48 + of_nat i :: byte) \<noteq> 0"

definition nothing_new :: "addr \<Rightarrow> (addr \<times> size_t) list \<Rightarrow> addr \<Rightarrow> size_t \<Rightarrow> (addr \<times> size_t) list \<Rightarrow> report \<Rightarrow> bool" where
  "nothing_new kernel_end es fdt fn rs = (\<lambda>(nm, i, start, sz). digit i \<and> nowrap start sz \<and>
     refused rs (block start sz \<inter> usable kernel_end es fdt fn))"

lemma has_blob_emit [simp]: "has_blob (emit s cs) fdt es ts strs = has_blob s fdt es ts strs"
  using has_blob_frame [of s fdt es ts strs "emit s cs"] has_blob_frame [of "emit s cs" fdt es ts strs s] by auto

lemma nodes_simps [simp]:
  "nodes [] = []" "nodes (BeginNode nm # us) = (BeginNode nm # us) # nodes us" "nodes (EndNode # us) = nodes us"
  "nodes (Prop off v # us) = nodes us" "nodes (Nop # us) = nodes us" "nodes (End # us) = []"
  using nodes_depth [of 1 us] nodes_depth [of "- 1" us] by (simp_all add: nodes_def)

lemma memory_nodes_step:
  "find_node (has_device_type strs (bytes_of ''memory'')) us = [] \<and> memory_nodes strs us = [] \<or>
   (\<exists>nm vs. find_node (has_device_type strs (bytes_of ''memory'')) us = BeginNode nm # vs \<and>
      BeginNode nm # vs \<in> set (nodes us) \<and> length vs < length us \<and>
      memory_nodes strs us = (BeginNode nm # vs) # memory_nodes strs vs)"
proof (induction us)
  case Nil
  then show ?case by (simp add: find_node_def memory_nodes_def)
next
  case (Cons t us)
  show ?case
  proof (cases t)
    case (BeginNode nm)
    then show ?thesis
    proof (cases "has_device_type strs (bytes_of ''memory'') (t # us)")
      case False
      then show ?thesis using Cons BeginNode by (auto simp: find_node_def memory_nodes_def)
    qed (simp add: find_node_def memory_nodes_def)
  qed (use Cons in \<open>auto simp: find_node_def memory_nodes_def\<close>)
qed

text \<open>A node of the tree, as the loop sees it.\<close>

lemma node_facts:
  assumes "has_blob s fdt es ts strs" and "wf_tree ts" and "BeginNode nm # us \<in> set (nodes ts)"
  defines "p \<equiv> tok_ptr s fdt ts (BeginNode nm # us)"
  shows "p \<noteq> NULL" and "cstr s (fdt_node_name s p) (shown_name nm)" and "start_at s fdt ts p us"
    and "fdt_node_num_register_blocks s fdt p = Some (of_nat (block_count ts strs (BeginNode nm # us)))"
    and "first_block ts strs (BeginNode nm # us) = Some b \<Longrightarrow> fdt_node_get_register_block s fdt p 0 = Some b"
proof -
  note b = blob_ok(2,3) [OF assms(1)]
  show "p \<noteq> NULL" unfolding p_def using tok_ptr_not_null [OF b(1) nodes_suffix [OF assms(3)]] by simp
  show "cstr s (fdt_node_name s p) (shown_name nm)"
    using node_name_cstr [OF b(1) nodes_suffix [OF assms(3)]] by (simp add: p_def shown_name_def)
  show "start_at s fdt ts p us" using assms(3) by (auto simp: start_at_def p_def)
  show "fdt_node_num_register_blocks s fdt p = Some (of_nat (block_count ts strs (BeginNode nm # us)))"
    and "first_block ts strs (BeginNode nm # us) = Some b \<Longrightarrow> fdt_node_get_register_block s fdt p 0 = Some b"
    using block_count_eq [OF b assms(2,3)] by (simp_all add: p_def)
qed

lemma next_memory_node:
  assumes "has_blob s fdt es ts strs" and "start_at s fdt ts start us"
  shows "fdt_find_node_by_device_type s fdt start (Lit (bytes_of ''memory'')) =
    Some (tok_ptr s fdt ts (find_node (has_device_type strs (bytes_of ''memory'')) us))"
proof -
  have "cstr s (Lit (bytes_of ''memory'')) (bytes_of ''memory'')" "length (bytes_of ''memory'') < 2 ^ 32"
    by (simp_all add: cstr_def bytes_of_def)
  from find_device_type_eq [OF blob_ok(2,3) [OF assms(1)] this assms(2)] show ?thesis .
qed

lemma refuse_report:
  fixes s :: "'z boot_scheme"
  assumes "has_blob s fdt es ts strs" and "list_all (\<lambda>(ra, rn). nowrap ra rn) es" and "free_list_ok s rs"
    and "head_apart s (block fdt (fdt_size s fdt))" and "nothing_new kernel_end es fdt (fdt_size s fdt) rs (nm, i, start, sz)"
  shows "try_boot_free_region boot_free lf kernel_end s fdt start sz = Some (0, s)"
proof -
  have n: "nowrap start sz" "refused rs (block start sz \<inter> usable kernel_end es fdt (fdt_size s fdt))"
    using assms(5) by (simp_all add: nothing_new_def)
  from free_list_offers [OF assms(1,2) n(1) assms(4)] offers_refused [OF assms(3) n(2)] show ?thesis by metis
qed

lemma head_apart_emit [simp]: "head_apart (emit s cs) M = head_apart s M"
  for s :: "'z boot_scheme"
  by (simp add: head_apart_def)

lemma free_list_ok_emit [simp]: "free_list_ok (emit s cs) rs = free_list_ok s rs"
  for s :: "'z boot_scheme"
  by (simp add: free_list_ok_def)

lemma fdt_size_emit: "has_blob s fdt es ts strs \<Longrightarrow> fdt_size (emit s cs) fdt = fdt_size s fdt"
  using has_blob_tok_ptr(2) [of s fdt es ts strs "emit s cs"] by simp

lemma blocks_refused:
  fixes s :: "'z boot_scheme"
  assumes "has_blob s fdt es ts strs" and "wf_tree ts" and "BeginNode nm # us \<in> set (nodes ts)"
    and "first_block ts strs (BeginNode nm # us) = Some (b, m)" and "list_all (\<lambda>(ra, rn). nowrap ra rn) es"
    and "free_list_ok s rs" and "head_apart s (block fdt (fdt_size s fdt))" and "i \<le> k" and "k < 2 ^ 32"
    and "\<forall>j \<in> {i ..< k}. nothing_new kernel_end es fdt (fdt_size s fdt) rs (nm, j, b, m)"
  shows "blocks_loop lf kernel_end s fdt (tok_ptr s fdt ts (BeginNode nm # us)) (of_nat k) (of_nat i) seen freed =
    Some (seen + reported (map (\<lambda>j. (nm, j, b, m)) [i..<k]), freed, emit s (report_lines (map (\<lambda>j. (nm, j, b, m)) [i..<k])))"
  using assms(8,1,6,7,10)
proof (induction arbitrary: s seen rule: inc_induct)
  case base
  then show ?case by (subst blocks_loop.simps) (simp add: reported_def report_lines_def)
next
  case (step i)
  let ?p = "tok_ptr s fdt ts (BeginNode nm # us)" and ?s = "emit s (memory_line nm i b m)"
  have lt: "(of_nat i :: size_t) < of_nat k" using step.hyps assms(9) by (simp add: word_less_nat_alt unat_of_nat)
  have now: "nothing_new kernel_end es fdt (fdt_size s fdt) rs (nm, i, b, m)" using step.prems(4) step.hyps by simp
  note node = node_facts [OF step.prems(1) assms(2,3)]
  have "tok_ptr ?s fdt = tok_ptr s fdt" using has_blob_tok_ptr(1) [OF step.prems(1), of ?s] step.prems(1) by simp
  then have rest: "blocks_loop lf kernel_end ?s fdt ?p (of_nat k) (of_nat (Suc i)) (seen + m) freed =
      Some (seen + m + reported (map (\<lambda>j. (nm, j, b, m)) [Suc i..<k]), freed,
        emit ?s (report_lines (map (\<lambda>j. (nm, j, b, m)) [Suc i..<k])))"
    using step.IH [of ?s "seen + m"] step.prems fdt_size_emit [OF step.prems(1)] by simp
  have "try_boot_free_region boot_free lf kernel_end ?s fdt b m = Some (0, ?s)"
    using refuse_report [of ?s fdt es ts strs rs kernel_end nm i b m] step.prems now assms(5) fdt_size_emit [OF step.prems(1)] by simp
  then have "blocks_loop lf kernel_end s fdt ?p (of_nat k) (of_nat i) seen freed =
      blocks_loop lf kernel_end ?s fdt ?p (of_nat k) (of_nat (Suc i)) (seen + m) freed"
    using lt now node(5) [OF assms(4)]
    by (subst blocks_loop.simps)
      (simp add: memory_line_printk [OF node(2)] nothing_new_def digit_def add.commute [of 1])
  then show ?case using step.hyps
    by (simp add: upt_conv_Cons reported_def report_lines_def rest del: of_nat_Suc)
qed

lemma reports_append [simp]:
  "reported (xs @ ys) = reported xs + reported ys" "report_lines (xs @ ys) = report_lines xs @ report_lines ys"
  "reported [] = 0" "report_lines [] = []"
  by (simp_all add: reported_def report_lines_def)

lemma node_reports_cases:
  assumes "has_blob s fdt es ts strs" and "wf_tree ts" and "BeginNode nm # us \<in> set (nodes ts)"
  defines "vs \<equiv> BeginNode nm # us"
  shows "block_count ts strs vs < 2 ^ 32"
    and "block_count ts strs vs = 0 \<and> node_reports ts strs vs = [] \<or>
      (\<exists>b m. 0 < block_count ts strs vs \<and> first_block ts strs vs = Some (b, m) \<and>
         node_reports ts strs vs = map (\<lambda>j. (nm, j, b, m)) [0..<block_count ts strs vs])"
  using block_count_eq(2,3) [OF blob_ok(2,3) [OF assms(1)] assms(2,3)]
  by (auto simp: node_reports_def vs_def split: option.splits)

lemma mem_nodes_refused:
  fixes s :: "'z boot_scheme"
  assumes "has_blob s fdt es ts strs" and "wf_tree ts" and "list_all (\<lambda>(ra, rn). nowrap ra rn) es"
    and "free_list_ok s rs" and "head_apart s (block fdt (fdt_size s fdt))" and "start_at s fdt ts start us"
    and "list_all (nothing_new kernel_end es fdt (fdt_size s fdt) rs) (memory_reports ts strs us)"
  shows "mem_nodes_loop lf kernel_end s fdt (tok_ptr s fdt ts (find_node (has_device_type strs (bytes_of ''memory'')) us)) seen freed =
    Some (seen + reported (memory_reports ts strs us), freed, emit s (report_lines (memory_reports ts strs us)))"
  using assms(1,4-7)
proof (induction "length us" arbitrary: us start s seen rule: less_induct)
  case less
  from memory_nodes_step [of strs us] show ?case
  proof (elim disjE exE conjE)
    assume none: "find_node (has_device_type strs (bytes_of ''memory'')) us = []" "memory_nodes strs us = []"
    then show ?thesis by (subst mem_nodes_loop.simps) (simp add: memory_reports_def tok_ptr_def)
  next
    fix nm vs
    assume f: "find_node (has_device_type strs (bytes_of ''memory'')) us = BeginNode nm # vs"
      "BeginNode nm # vs \<in> set (nodes us)" "length vs < length us"
      "memory_nodes strs us = (BeginNode nm # vs) # memory_nodes strs vs"
    let ?vs = "BeginNode nm # vs"
    let ?p = "tok_ptr s fdt ts ?vs" and ?s = "emit s (report_lines (node_reports ts strs ?vs))"
    have node: "?vs \<in> set (nodes ts)" using f(2) start_at(3) [OF blob_ok(2) [OF less.prems(1)] less.prems(4)] by blast
    note facts = node_facts [OF less.prems(1) assms(2) node] and cs = node_reports_cases [OF less.prems(1) assms(2) node]
    have R: "memory_reports ts strs us = node_reports ts strs ?vs @ memory_reports ts strs vs"
      by (simp add: memory_reports_def f(4))
    have blk: "blocks_loop lf kernel_end s fdt ?p (of_nat (block_count ts strs ?vs)) 0 seen freed =
        Some (seen + reported (node_reports ts strs ?vs), freed, ?s)"
      using cs(2)
    proof (elim disjE exE conjE)
      fix b m
      assume b: "first_block ts strs ?vs = Some (b, m)"
        "node_reports ts strs ?vs = map (\<lambda>j. (nm, j, b, m)) [0..<block_count ts strs ?vs]"
      then have "\<forall>j \<in> {0 ..< block_count ts strs ?vs}. nothing_new kernel_end es fdt (fdt_size s fdt) rs (nm, j, b, m)"
        using less.prems(5) R by (auto simp: list_all_iff)
      from blocks_refused [OF less.prems(1) assms(2) node b(1) assms(3) less.prems(2,3) _ cs(1) this, of lf seen freed]
      show ?thesis using b(2) by simp
    qed (subst blocks_loop.simps, simp)
    have blob: "has_blob ?s fdt es ts strs" using less.prems(1) by simp
    note same = has_blob_tok_ptr(1) [OF less.prems(1) blob]
    have st: "start_at ?s fdt ts ?p vs" using node_facts(3) [OF blob assms(2) node] same by simp
    have "mem_nodes_loop lf kernel_end ?s fdt (tok_ptr ?s fdt ts (find_node (has_device_type strs (bytes_of ''memory'')) vs))
        (seen + reported (node_reports ts strs ?vs)) freed =
      Some (seen + reported (node_reports ts strs ?vs) + reported (memory_reports ts strs vs), freed,
        emit ?s (report_lines (memory_reports ts strs vs)))"
      using less.prems(2,3,5) fdt_size_emit [OF less.prems(1)] R by (intro less.hyps [OF f(3) blob _ _ st]) simp_all
    then show ?thesis
      using facts(1,4) blk next_memory_node [OF blob st]
      by (subst mem_nodes_loop.simps) (simp add: f(1) R add.assoc)
  qed
qed

text \<open>The block that fills the free list.\<close>

lemma head_apart_first:
  fixes s :: "'z boot_scheme"
  assumes "free_list_ok s [(a, n)]" and "fdt_inside es a n stop fdt fn"
  shows "head_apart s (block fdt fn)"
  using assms unat_less64 [of fdt] by (auto simp: head_apart_def free_list_ok_def fdt_inside_def block_def)

lemma blocks_first:
  fixes s :: "'z boot_scheme"
  assumes "has_blob s fdt es ts strs" and "wf_tree ts" and "BeginNode nm # us \<in> set (nodes ts)"
    and "first_block ts strs (BeginNode nm # us) = Some (b, m)" and "boot_free_list s = NULL" and "b < b + m"
    and "a = (if b < kernel_end then kernel_end else b)" and "fdt_inside es a n (b + m) fdt (fdt_size s fdt)"
    and "0 < k" and "k < 2 ^ 32" and "\<forall>j \<in> {1 ..< k}. nothing_new kernel_end es fdt (fdt_size s fdt) [(a, n)] (nm, j, b, m)"
  defines "R \<equiv> map (\<lambda>j. (nm, j, b, m)) [0..<k]"
  shows "\<exists>t. blocks_loop True kernel_end s fdt (tok_ptr s fdt ts (BeginNode nm # us)) (of_nat k) 0 0 0 = Some (reported R, n, t) \<and>
    free_list_ok t [(a, n)] \<and> writes_only (block a n) s t \<and> has_blob t fdt es ts strs \<and> same_rest (emit s (report_lines R)) t"
proof -
  let ?p = "tok_ptr s fdt ts (BeginNode nm # us)" and ?e = "emit s (memory_line nm 0 b m)"
  let ?R = "map (\<lambda>j. (nm, j, b, m)) [1..<k]"
  have blob: "has_blob ?e fdt es ts strs" using assms(1) by simp
  from try_region_inside [OF blob _ fdt_size_emit [OF assms(1)] assms(6-8)] assms(5) obtain s1 where
    s1: "try_boot_free_region boot_free True kernel_end ?e fdt b m = Some (n, s1)" "free_list_ok s1 [(a, n)]"
      "writes_only (block a n) ?e s1" "has_blob s1 fdt es ts strs" "same_rest ?e s1" by auto
  note same = has_blob_tok_ptr [OF assms(1) s1(4)]
  have "\<forall>j \<in> {1 ..< k}. nothing_new kernel_end es fdt (fdt_size s1 fdt) [(a, n)] (nm, j, b, m)" using assms(11) same(2) by simp
  moreover have "head_apart s1 (block fdt (fdt_size s1 fdt))" using head_apart_first [OF s1(2) assms(8)] same(2) by simp
  moreover have "list_all (\<lambda>(ra, rn). nowrap ra rn) es" using assms(8) by (auto simp: fdt_inside_def list_all_iff)
  ultimately have rest: "blocks_loop True kernel_end s1 fdt ?p (of_nat k) (of_nat 1) m n =
      Some (m + reported ?R, n, emit s1 (report_lines ?R))"
    using blocks_refused [OF s1(4) assms(2-4) _ s1(2) _ _ assms(10), of 1 kernel_end True m n] assms(9) same(1) by simp
  note node = node_facts [OF assms(1-3)]
  have lt: "(0 :: size_t) < of_nat k" using assms(9,10) by (simp add: word_less_nat_alt unat_of_nat)
  have "blocks_loop True kernel_end s fdt ?p (of_nat k) 0 0 0 = blocks_loop True kernel_end s1 fdt ?p (of_nat k) 1 m n"
    using lt s1(1) node(5) [OF assms(4)]
    by (subst blocks_loop.simps) (simp add: memory_line_printk [OF node(2), of 0, simplified])
  then have "blocks_loop True kernel_end s fdt ?p (of_nat k) 0 0 0 = Some (reported R, n, emit s1 (report_lines ?R))"
    using rest assms(9) by (simp add: R_def upt_conv_Cons reported_def)
  moreover have "same_rest (emit s (report_lines R)) (emit s1 (report_lines ?R))"
    using s1(5) assms(9) by (simp add: R_def upt_conv_Cons report_lines_def same_rest_def same_devices_def emit_def active_def broadcast_def)
  moreover have "writes_only (block a n) s (emit s1 (report_lines ?R))" using s1(3) by (simp add: writes_only_def)
  ultimately show ?thesis using s1(2,4) by auto
qed

lemma mem_nodes_first:
  fixes s :: "'z boot_scheme"
  assumes "has_blob s fdt es ts strs" and "wf_tree ts" and "boot_free_list s = NULL" and "start_at s fdt ts start us"
    and "memory_reports ts strs us = (nm, 0, b, m) # reps" and "b < b + m"
    and "a = (if b < kernel_end then kernel_end else b)" and "fdt_inside es a n (b + m) fdt (fdt_size s fdt)"
    and "list_all (nothing_new kernel_end es fdt (fdt_size s fdt) [(a, n)]) reps"
  shows "\<exists>t. mem_nodes_loop True kernel_end s fdt (tok_ptr s fdt ts (find_node (has_device_type strs (bytes_of ''memory'')) us)) 0 0 =
      Some (reported ((nm, 0, b, m) # reps), n, t) \<and> free_list_ok t [(a, n)] \<and> writes_only (block a n) s t \<and>
      has_blob t fdt es ts strs \<and> same_rest (emit s (report_lines ((nm, 0, b, m) # reps))) t"
  using assms(4,5)
proof (induction "length us" arbitrary: us start rule: less_induct)
  case less
  have es: "list_all (\<lambda>(ra, rn). nowrap ra rn) es" using assms(8) by (auto simp: fdt_inside_def list_all_iff)
  obtain nm' vs where f: "find_node (has_device_type strs (bytes_of ''memory'')) us = BeginNode nm' # vs"
    "BeginNode nm' # vs \<in> set (nodes us)" "length vs < length us"
    "memory_nodes strs us = (BeginNode nm' # vs) # memory_nodes strs vs"
    using memory_nodes_step [of strs us] less.prems(2) by (auto simp: memory_reports_def)
  let ?vs = "BeginNode nm' # vs"
  let ?p = "tok_ptr s fdt ts ?vs" and ?k = "block_count ts strs (BeginNode nm' # vs)"
  have node: "?vs \<in> set (nodes ts)" using f(2) start_at(3) [OF blob_ok(2) [OF assms(1)] less.prems(1)] by blast
  note facts = node_facts [OF assms(1,2) node] and cs = node_reports_cases [OF assms(1,2) node]
  have R: "node_reports ts strs ?vs @ memory_reports ts strs vs = (nm, 0, b, m) # reps"
    using less.prems(2) by (simp add: memory_reports_def f(4))
  from cs(2) show ?case
  proof (elim disjE exE conjE)
    assume z: "?k = 0" "node_reports ts strs ?vs = []"
    then have "mem_nodes_loop True kernel_end s fdt ?p 0 0 =
        mem_nodes_loop True kernel_end s fdt (tok_ptr s fdt ts (find_node (has_device_type strs (bytes_of ''memory'')) vs)) 0 0"
      using facts(1,4) next_memory_node [OF assms(1) facts(3)]
      by (subst mem_nodes_loop.simps) (simp add: blocks_loop.simps)
    then show ?thesis using less.hyps [OF f(3) facts(3)] R z(2) f(1) by simp
  next
    fix b' m'
    assume k: "0 < ?k" "first_block ts strs ?vs = Some (b', m')" "node_reports ts strs ?vs = map (\<lambda>j. (nm', j, b', m')) [0..<?k]"
    then have e: "nm' = nm" "b' = b" "m' = m" and reps: "reps = map (\<lambda>j. (nm, j, b, m)) [1..<?k] @ memory_reports ts strs vs"
      using R by (auto simp: upt_conv_Cons)
    have new: "\<forall>j \<in> {1 ..< ?k}. nothing_new kernel_end es fdt (fdt_size s fdt) [(a, n)] (nm, j, b, m)"
      and new': "list_all (nothing_new kernel_end es fdt (fdt_size s fdt) [(a, n)]) (memory_reports ts strs vs)"
      using assms(9) reps by (auto simp: list_all_iff)
    from blocks_first [OF assms(1,2) node [unfolded e(1)] k(2) [unfolded e] assms(3,6-8) k(1) [unfolded e(1)] cs(1) [unfolded e(1)] new [unfolded e(1)]]
    obtain t where t: "blocks_loop True kernel_end s fdt ?p (of_nat ?k) 0 0 0 = Some (reported (node_reports ts strs ?vs), n, t)"
      "free_list_ok t [(a, n)]" "writes_only (block a n) s t" "has_blob t fdt es ts strs"
      "same_rest (emit s (report_lines (node_reports ts strs ?vs))) t"
      using k(3) e by auto
    note same = has_blob_tok_ptr [OF assms(1) t(4)]
    have st: "start_at t fdt ts ?p vs" using node_facts(3) [OF t(4) assms(2) node] same(1) by simp
    have hd: "head_apart t (block fdt (fdt_size t fdt))" using head_apart_first [OF t(2) assms(8)] same(2) by simp
    let ?t = "emit t (report_lines (memory_reports ts strs vs))"
    have "mem_nodes_loop True kernel_end s fdt ?p 0 0 = Some (reported ((nm, 0, b, m) # reps), n, ?t)"
      using facts(1,4) t(1) next_memory_node [OF t(4) st] mem_nodes_refused [OF t(4) assms(2) es t(2) hd st, of kernel_end True _ n] new' same(2)
      by (subst mem_nodes_loop.simps) (simp flip: R)
    moreover have "same_rest (emit s (report_lines ((nm, 0, b, m) # reps))) ?t"
      using t(5) unfolding R [symmetric] by (simp add: same_rest_def same_devices_def emit_def active_def broadcast_def)
    moreover have "writes_only (block a n) s ?t" using t(3) by (simp add: writes_only_def)
    ultimately show ?thesis using t(2,4) f(1) by auto
  qed
qed

text \<open>What memory discovery makes of the blocks reported, in two layouts: no block has a usable byte, and the free list stays empty;
  or, in a program that evaluates the left operand of the sum first, the first block contains the device tree above the kernel,
  the reserved ranges lie below it, and the memory in between becomes free, while the other blocks have nothing to add.\<close>

inductive memory_gives ::
  "bool \<Rightarrow> addr \<Rightarrow> (addr \<times> size_t) list \<Rightarrow> addr \<Rightarrow> size_t \<Rightarrow> report list \<Rightarrow> (addr \<times> size_t) list \<Rightarrow> bool"
  for lf kernel_end es fdt fn where
  gives_nothing: "list_all (\<lambda>(ra, rn). nowrap ra rn) es \<Longrightarrow> list_all (nothing_new kernel_end es fdt fn []) reps \<Longrightarrow>
    memory_gives lf kernel_end es fdt fn reps []"
| gives_first: "lf \<Longrightarrow> start < start + sz \<Longrightarrow> a = (if start < kernel_end then kernel_end else start) \<Longrightarrow>
    fdt_inside es a n (start + sz) fdt fn \<Longrightarrow> list_all (nothing_new kernel_end es fdt fn [(a, n)]) reps \<Longrightarrow>
    memory_gives lf kernel_end es fdt fn ((nm, 0, start, sz) # reps) [(a, n)]"

definition free_size :: "(addr \<times> size_t) list \<Rightarrow> size_t" where
  "free_size rs = sum_list (map snd rs)"

lemma mem_nodes_eq:
  fixes s :: "'z boot_scheme"
  assumes "has_blob s fdt es ts strs" and "boot_free_list s = NULL" and "wf_tree ts" and "start_at s fdt ts NULL ts"
    and "memory_gives lf kernel_end es fdt (fdt_size s fdt) (memory_reports ts strs ts) free"
  defines "R \<equiv> memory_reports ts strs ts"
  shows "\<exists>t. mem_nodes_loop lf kernel_end s fdt (tok_ptr s fdt ts (find_node (has_device_type strs (bytes_of ''memory'')) ts)) 0 0 =
      Some (reported R, free_size free, t) \<and> free_list_ok t free \<and> writes_only (free_bytes free) s t \<and>
      has_blob t fdt es ts strs \<and> same_rest (emit s (report_lines R)) t"
  using assms(5)
proof cases
  case gives_nothing
  have ok: "free_list_ok s []" using assms(2) by (simp add: free_list_ok_def)
  have hd: "head_apart s (block fdt (fdt_size s fdt))" using assms(2) by (simp add: head_apart_def)
  from mem_nodes_refused [OF assms(1,3) gives_nothing(2) ok hd assms(4) gives_nothing(3), of lf 0 0]
  show ?thesis using assms(1,2) gives_nothing(1) unfolding R_def
    by (simp add: free_size_def free_list_ok_def writes_only_def same_rest_def same_devices_def)
next
  case (gives_first start sz a n reps nm)
  from mem_nodes_first [OF assms(1,3,2,4) gives_first(1,4-7)] show ?thesis
    unfolding R_def gives_first(1) using gives_first(3) by (simp add: gives_first(2) free_size_def block_def)
qed

lemma boot_mem_init_eq:
  fixes s :: "'z boot_scheme"
  assumes "has_blob s fdt es ts strs" and "boot_free_list s = NULL" and "wf_tree ts"
    and "memory_gives lf kernel_end es fdt (fdt_size s fdt) (memory_reports ts strs ts) free"
  defines "R \<equiv> memory_reports ts strs ts"
  shows "\<exists>s'. fdt_boot_mem_init lf kernel_end s fdt = Some (KERR_SUCCESS, s') \<and>
    free_list_ok s' free \<and> writes_only (free_bytes free) s s' \<and> has_blob s' fdt es ts strs \<and>
    same_rest (emit s (report_lines R @ totals (reported R) (free_size free))) s'"
proof -
  have st: "start_at s fdt ts NULL ts" using assms(3) by (auto simp: start_at_def wf_tree_def)
  let ?tot = "totals (reported R) (free_size free)"
  from mem_nodes_eq [OF assms(1-3) st assms(4)] obtain t where
    t: "mem_nodes_loop lf kernel_end s fdt (tok_ptr s fdt ts (find_node (has_device_type strs (bytes_of ''memory'')) ts)) 0 0 =
        Some (reported R, free_size free, t)" "free_list_ok t free" "writes_only (free_bytes free) s t" "has_blob t fdt es ts strs"
      "same_rest (emit s (report_lines R)) t" unfolding R_def by blast
  have "fdt_boot_mem_init lf kernel_end s fdt = Some (KERR_SUCCESS, emit t ?tot)"
    by (simp only: fdt_boot_mem_init_def next_memory_node [OF assms(1) st] t(1) Option.bind.simps prod.case totals_printk)
  moreover have "same_rest (emit s (report_lines R @ ?tot)) (emit t ?tot)"
    using t(5) by (simp add: same_rest_def same_devices_def emit_def active_def broadcast_def)
  moreover have "writes_only (free_bytes free) s (emit t ?tot)" using t(3) by (simp add: writes_only_def)
  ultimately show ?thesis using t(2,4) by auto
qed

section \<open>Concrete instances\<close>

text \<open>The concrete device tree, on a bare machine, and on one with a console and an empty free list.\<close>

definition virt_boot :: boot where
  "virt_boot = machine.extend virt
     \<lparr>early_putchar_array = [0x80000100, 0, 0, 0, 0, 0, 0, 0], console_log = [], boot_free_list = NULL\<rparr>"

lemma virt_blobs:
  "has_blob virt virt_base virt_reserved virt_tokens virt_strings"
  "has_blob virt_boot virt_base virt_reserved virt_tokens virt_strings"
proof -
  show b: "has_blob virt virt_base virt_reserved virt_tokens virt_strings"
    unfolding virt_def by (rule has_blob_machine [OF virt_wf])
  show "has_blob virt_boot virt_base virt_reserved virt_tokens virt_strings"
    by (rule has_blob_frame [OF b]) (simp_all add: virt_boot_def machine.defs)
qed

lemma virt_reports:
  "memory_reports virt_tokens virt_strings virt_tokens = [(bytes_of ''memory@80000000'', 0, 0x80000000, 0x8000000)]"
proof -
  let ?vs = "drop 10 virt_tokens"
  have vs: "?vs = BeginNode (bytes_of ''memory@80000000'') # drop 11 virt_tokens" by (simp add: virt_defs)
  have nodes: "memory_nodes virt_strings virt_tokens = [?vs]"
    using virt_node_props(2) by (simp add: memory_nodes_def has_device_type_def virt_node_list cstring_def)
  have ne: "?vs \<noteq> drop n virt_tokens" if "n \<in> {0, 4}" for n using that by (auto simp: virt_defs)
  have anc: "ancestors virt_tokens ?vs = [virt_tokens]" using ne [of 0] ne [of 4] by (simp add: ancestors_def virt_anc)
  have cells: "address_cells virt_strings [?vs, virt_tokens] = 2" "size_cells virt_strings [?vs, virt_tokens] = 2"
    "node_prop virt_strings (bytes_of ''reg'') ?vs = Some (cells [0, 0x80000000, 0, 0x8000000])"
    by (simp_all add: address_cells_def size_cells_def first_cell_def virt_defs node_prop.simps virt_names cell_cells)
  have "first_block virt_tokens virt_strings ?vs = Some (reg_block 2 2 (cells [0, 0x80000000, 0, 0x8000000]) 0)"
    and k: "block_count virt_tokens virt_strings ?vs = 1"
    by (simp_all add: first_block_def block_count_def anc cells)
  moreover have "reg_block 2 2 (cells [0, 0x80000000, 0, 0x8000000]) 0 = (0x80000000, 0x8000000)"
    by (simp add: reg_block_def num_at_def cells_def be_bytes_def be_join_def le_bytes_numeral)
  ultimately show ?thesis by (simp add: memory_reports_def nodes node_reports_def) (simp add: vs)
qed

lemma board_inside:
  assumes "has_blob s virt_base virt_reserved ts strs" and "length (fdt_bytes virt_reserved ts strs) < 1024"
  shows "fdt_inside virt_reserved 0x80200000 0x7c00000 (0x80000000 + 0x8000000) virt_base (fdt_size s virt_base)"
proof -
  define fn where "fn = fdt_size s virt_base"
  have "unat fn = length (fdt_bytes virt_reserved ts strs)" using blob_ok(5) [OF assms(1)] by (simp add: fn_def)
  moreover have "0 < length (fdt_bytes virt_reserved ts strs)" by (simp add: fdt_bytes_def)
  ultimately have f: "unat fn < 1024" "0 < unat fn" using assms(2) by simp_all
  then have "fn \<noteq> 0" "unat (virt_base + fn) = unat virt_base + unat fn"
    by (auto simp: virt_base_def unat_add64)
  moreover from this have "virt_base + fn \<noteq> 0x80200000 + 24 * 0x7c00000" using f by (auto simp: virt_base_def word_unat_eq_iff)
  ultimately show ?thesis using f
    by (simp add: fdt_inside_def virt_reserved_def nowrap_def flip: fn_def) (simp add: virt_base_def)
qed

lemma virt_inside:
  "fdt_inside virt_reserved 0x80200000 0x7c00000 (0x80000000 + 0x8000000) virt_base (fdt_size virt_boot virt_base)"
  by (rule board_inside [OF virt_blobs(2) virt_length])

lemma virt_above:
  defines "m \<equiv> 0x80000000 + 0x8000000 - (virt_base + fdt_size virt_boot virt_base)"
  shows "24 \<le> unat m" and "unat m < 2 ^ 63" and "unat (virt_base + fdt_size virt_boot virt_base) + 24 * unat m < 2 ^ 64"
proof -
  let ?b = "virt_base + fdt_size virt_boot virt_base"
  have "unat (fdt_size virt_boot virt_base) < 1024" using blob_ok(5) [OF virt_blobs(2)] virt_length by simp
  then have b: "unat virt_base \<le> unat ?b" "unat ?b < unat virt_base + 1024" by (simp_all add: virt_base_def unat_add64)
  have "m = 0x88000000 - ?b" by (simp add: m_def)
  moreover have "?b \<le> 0x88000000" using b(2) by (simp add: word_le_nat_alt) (simp add: virt_base_def)
  ultimately have "unat m = 0x88000000 - unat ?b" by (simp add: unat_sub)
  then show "24 \<le> unat m" "unat m < 2 ^ 63" "unat ?b + 24 * unat m < 2 ^ 64" using b by (simp_all add: virt_base_def)
qed

text \<open>A tree with two memory nodes, the second with two blocks.\<close>

definition banks_tokens :: "token list" where
  "banks_tokens =
     [BeginNode [], Prop 11 (cells [2]), Prop 26 (cells [2])] @ virt_memory @
     [BeginNode (bytes_of ''memory@90000000''), Prop 38 (cstring ''memory''),
        Prop 50 (cells [0, 0x90000000, 0, 0x1000, 0, 0xa0000000, 0, 0x1000]),
      EndNode, EndNode, End]"

definition banks_boot :: boot where
  "banks_boot = machine.extend (blob_machine virt_base (fdt_bytes virt_reserved banks_tokens virt_strings))
     \<lparr>early_putchar_array = [0x80000100, 0, 0, 0, 0, 0, 0, 0], console_log = [], boot_free_list = NULL\<rparr>"

lemma banks_length: "length (fdt_bytes virt_reserved banks_tokens virt_strings) < 1024"
  by (simp add: fdt_bytes_def banks_tokens_def virt_memory_def virt_reserved_def virt_strings_def length_tok_bytes)

lemma banks_blob: "has_blob banks_boot virt_base virt_reserved banks_tokens virt_strings"
proof -
  have "wf_blob virt_base virt_reserved banks_tokens virt_strings"
    using banks_length by (simp add: wf_blob_def virt_base_def virt_reserved_def)
      (simp add: banks_tokens_def virt_memory_def virt_strings_def cstring_def bytes_of_def)
  from has_blob_machine [OF this] show ?thesis
    by (rule has_blob_frame) (simp_all add: banks_boot_def machine.defs)
qed

lemma banks_tree:
  "wf_tree banks_tokens"
  "anc_list [] banks_tokens = [(banks_tokens, []), (drop 3 banks_tokens, [banks_tokens]), (drop 7 banks_tokens, [banks_tokens])]"
  "nodes banks_tokens = [banks_tokens, drop 3 banks_tokens, drop 7 banks_tokens]"
  by (simp_all add: wf_tree_def banks_tokens_def virt_memory_def)

lemma banks_reports:
  "memory_reports banks_tokens virt_strings banks_tokens =
    [(bytes_of ''memory@80000000'', 0, 0x80000000, 0x8000000),
     (bytes_of ''memory@90000000'', 0, 0x90000000, 0x1000), (bytes_of ''memory@90000000'', 1, 0x90000000, 0x1000)]"
proof -
  let ?t = banks_tokens and ?u = "drop 3 banks_tokens" and ?v = "drop 7 banks_tokens"
  note d = banks_tokens_def virt_memory_def
  have names: "node_name ?u = bytes_of ''memory@80000000''" "node_name ?v = bytes_of ''memory@90000000''"
    by (simp_all add: d)
  have ne: "?u \<noteq> ?t" "?v \<noteq> ?t" "?v \<noteq> ?u" by (auto simp: d dest: arg_cong [where f = length])
  have anc: "ancestors ?t ?u = [?t]" "ancestors ?t ?v = [?t]" using ne by (simp_all add: ancestors_def banks_tree)
  have dev: "node_prop virt_strings (bytes_of ''device_type'') ?t = None"
    "node_prop virt_strings (bytes_of ''device_type'') ?u = Some (cstring ''memory'')"
    "node_prop virt_strings (bytes_of ''device_type'') ?v = Some (cstring ''memory'')"
    by (simp_all add: d node_prop.simps virt_names)
  have mem: "memory_nodes virt_strings ?t = [?u, ?v]"
    by (simp add: memory_nodes_def has_device_type_def banks_tree dev cstring_def)
  have cells: "address_cells virt_strings [?u, ?t] = 2" "size_cells virt_strings [?u, ?t] = 2"
    "address_cells virt_strings [?v, ?t] = 2" "size_cells virt_strings [?v, ?t] = 2"
    "node_prop virt_strings (bytes_of ''reg'') ?u = Some (cells [0, 0x80000000, 0, 0x8000000])"
    "node_prop virt_strings (bytes_of ''reg'') ?v = Some (cells [0, 0x90000000, 0, 0x1000, 0, 0xa0000000, 0, 0x1000])"
    by (simp_all add: address_cells_def size_cells_def first_cell_def d node_prop.simps virt_names cell_cells)
  have "reg_block 2 2 (cells [0, 0x80000000, 0, 0x8000000]) 0 = (0x80000000, 0x8000000)"
    "reg_block 2 2 (cells [0, 0x90000000, 0, 0x1000, 0, 0xa0000000, 0, 0x1000]) 0 = (0x90000000, 0x1000)"
    by (simp_all add: reg_block_def num_at_def cells_def be_bytes_def be_join_def le_bytes_numeral)
  then have "node_reports ?t virt_strings ?u = [(bytes_of ''memory@80000000'', 0, 0x80000000, 0x8000000)]"
    "node_reports ?t virt_strings ?v = [(bytes_of ''memory@90000000'', 0, 0x90000000, 0x1000), (bytes_of ''memory@90000000'', 1, 0x90000000, 0x1000)]"
    by (simp_all add: node_reports_def first_block_def block_count_def anc cells names upt_rec)
  then show ?thesis by (simp add: memory_reports_def mem)
qed

lemma banks_gives:
  "memory_gives True 0x80200000 virt_reserved virt_base (fdt_size banks_boot virt_base)
     (memory_reports banks_tokens virt_strings banks_tokens) [(0x80200000, 0x7c00000)]"
  unfolding banks_reports
proof (rule gives_first)
  show "fdt_inside virt_reserved 0x80200000 0x7c00000 (0x80000000 + 0x8000000) virt_base (fdt_size banks_boot virt_base)"
    by (rule board_inside [OF banks_blob banks_length])
  show "list_all (nothing_new 0x80200000 virt_reserved virt_base (fdt_size banks_boot virt_base) [(0x80200000, 0x7c00000)])
    [(bytes_of ''memory@90000000'', 0, 0x90000000, 0x1000), (bytes_of ''memory@90000000'', 1, 0x90000000, 0x1000)]"
    by (auto simp: nothing_new_def digit_def nowrap_def block_def)
qed simp_all

lemma virt_gives:
  "memory_gives True 0x80200000 virt_reserved virt_base (fdt_size virt_boot virt_base)
     (memory_reports virt_tokens virt_strings virt_tokens) [(0x80200000, 0x7c00000)]"
  unfolding virt_reports by (rule gives_first [OF _ _ _ virt_inside]) simp_all

section \<open>Properties\<close>

text \<open>C24. \<^verbatim>\<open>trim_or_split_around_reserved\<close>, for every reservation.  One that ends below the top of the address space is
  taken out of the region: the region, or the two disjoint regions, that remain cover exactly the bytes of the given region
  that are not reserved.  One whose end wraps around is not: what remains covers every byte of the given region, and if it is
  two regions, they overlap.\<close>

theorem trim_or_split_correct:
  fixes start resv_start :: addr and sz resv_size :: size_t
  assumes "nowrap start sz" and "sz \<noteq> 0"
  defines "R \<equiv> (if nowrap resv_start resv_size then block resv_start resv_size else {})"
  shows "case trim_or_split_around_reserved start sz resv_start resv_size of
      ((a, n), None) \<Rightarrow> nowrap a n \<and> block a n = block start sz - R
    | ((a, n), Some (b, m)) \<Rightarrow> nowrap a n \<and> nowrap b m \<and> block a n \<union> block b m = block start sz - R \<and>
        (block a n \<inter> block b m = {} \<longleftrightarrow> nowrap resv_start resv_size)"
proof (cases "nowrap resv_start resv_size")
  case True
  obtain a n r where e: "trim_or_split_around_reserved start sz resv_start resv_size = ((a, n), r)" by (metis surj_pair)
  show ?thesis
  proof (cases r)
    case None
    have "n = 0 \<Longrightarrow> nowrap a n" using unat_less64 [of a] by (simp add: nowrap_def)
    then show ?thesis using trim_step_eq [OF assms(1) True assms(2)] e None True
      by (auto simp: R_def trim_step_def block_def split: if_splits)
  next
    case (Some q)
    then show ?thesis using trim_step_eq [OF assms(1) True assms(2)] e True
      by (cases q) (auto simp: R_def trim_step_def block_def)
  qed
next
  case False
  from trim_wrapped [OF assms(1) this] show ?thesis
    using False assms(1) by (elim disjE exE conjE) (simp_all add: R_def)
qed

theorem trim_or_split_correct_witness:
  "trim_or_split_around_reserved 0x80000000 0x8000000 0x87e00000 0x1000 =
     ((0x80000000, 0x7e00000), Some (0x87e01000, 0x1ff000)) \<and>
   block 0x80000000 0x7e00000 \<union> block 0x87e01000 0x1ff000 = block 0x80000000 0x8000000 - block 0x87e00000 0x1000 \<and>
   trim_or_split_around_reserved 0x80000000 0x8000000 0x84000000 0xffffffff7c000000 = ((0x80000000, 0x8000000), None) \<and>
   trim_or_split_around_reserved 0x80000000 0x8000000 0x84000000 (- 0x3000000) =
     ((0x80000000, 0x4000000), Some (0x81000000, 0x7000000)) \<and>
   block 0x80000000 0x4000000 \<inter> block 0x81000000 0x7000000 \<noteq> {}"
  using trim_or_split_correct [of "0x80000000" "0x8000000" "0x87e00000" "0x1000"]
    trim_or_split_correct [of "0x80000000" "0x8000000" "0x84000000" "- 0x3000000"]
  by (simp add: nowrap_def trim_or_split_around_reserved_def)

text \<open>C8. \<^verbatim>\<open>try_boot_free_region\<close>, for every region: it comes to calls of \<^verbatim>\<open>boot_free\<close>, one after the other, for regions that do
  not overlap and cover exactly the bytes of the given region above the kernel and outside the reserved ranges and the device
  tree; from low to high addresses if the left operand of the sum is evaluated first, otherwise from high to low.  It returns
  the number of bytes that \<^verbatim>\<open>boot_free\<close> has accepted, and the device tree stays as it is.  From low to high, starting with an
  empty free list, none of the calls goes wrong.  The header of the first free region must lie outside the tree, and the list
  must have one region at most, which \<^verbatim>\<open>boot_free\<close> never changes.\<close>

theorem try_boot_free_region_correct:
  fixes s :: "'z boot_scheme" and kernel_end :: addr
  assumes "has_blob s fdt es ts strs" and "list_all (\<lambda>(ra, rn). nowrap ra rn) es" and "nowrap start sz"
    and "head_apart s (block fdt (fdt_size s fdt))"
  shows "\<exists>rs. covers left_first rs (block start sz \<inter> usable kernel_end es fdt (fdt_size s fdt)) \<and>
    try_boot_free_region boot_free left_first kernel_end s fdt start sz = offer_all boot_free s rs \<and>
    (\<forall>freed t. offer_all boot_free s rs = Some (freed, t) \<longrightarrow>
       has_blob t fdt es ts strs \<and> head_apart t (block fdt (fdt_size s fdt))) \<and>
    (left_first \<and> boot_free_list s = NULL \<and> kernel_end \<noteq> NULL \<longrightarrow> offer_all boot_free s rs \<noteq> None)"
proof -
  obtain rs where rs: "covers left_first rs (block start sz \<inter> usable kernel_end es fdt (fdt_size s fdt))"
    "try_boot_free_region boot_free left_first kernel_end s fdt start sz = offer_all boot_free s rs"
    "\<And>freed t. offer_all boot_free s rs = Some (freed, t) \<Longrightarrow>
      has_blob t fdt es ts strs \<and> head_apart t (block fdt (fdt_size s fdt))"
    by (rule free_list_offers [OF assms]) blast
  have "offer_all boot_free s rs \<noteq> None" if "left_first" "boot_free_list s = NULL" "kernel_end \<noteq> NULL"
  proof (rule offers_return)
    have "a \<noteq> NULL \<and> nowrap a n \<and> unat kernel_end \<le> unat a" if "(a, n) \<in> set rs" for a n
      using covers_mem [OF rs(1) that] \<open>kernel_end \<noteq> NULL\<close> unat_gt_0 [of kernel_end] by (auto simp: usable_def)
    then show "list_all (\<lambda>(a, n). a \<noteq> NULL \<and> nowrap a n \<and> unat kernel_end \<le> unat a) rs" by (auto simp: list_all_iff)
  qed (use that rs(1) in \<open>simp_all add: covers_def\<close>)
  then show ?thesis using rs by blast
qed

text \<open>The board with its memory around the tree: in one order of evaluation the memory below the tree becomes free, in the other the
  call has no defined result.\<close>

theorem try_boot_free_region_correct_witness:
  "(\<exists>rs. covers True rs (block 0x80000000 0x8000000 \<inter>
       usable 0x80200000 virt_reserved virt_base (fdt_size virt_boot virt_base)) \<and>
     try_boot_free_region boot_free True 0x80200000 virt_boot virt_base 0x80000000 0x8000000 = offer_all boot_free virt_boot rs \<and>
     (\<exists>t. offer_all boot_free virt_boot rs = Some (0x7c00000, t) \<and> free_list_ok t [(0x80200000, 0x7c00000)])) \<and>
   (\<exists>rs. covers False rs (block 0x80000000 0x8000000 \<inter>
       usable 0x80200000 virt_reserved virt_base (fdt_size virt_boot virt_base)) \<and>
     try_boot_free_region boot_free False 0x80200000 virt_boot virt_base 0x80000000 0x8000000 = offer_all boot_free virt_boot rs \<and>
     offer_all boot_free virt_boot rs = None)"
proof -
  have list: "boot_free_list virt_boot = NULL" by (simp add: virt_boot_def machine.defs)
  have pre: "list_all (\<lambda>(ra, rn). nowrap ra rn) virt_reserved" "nowrap 0x80000000 0x8000000"
    "head_apart virt_boot (block virt_base (fdt_size virt_boot virt_base))"
    by (simp_all add: virt_reserved_def nowrap_def head_apart_def list)
  note all = try_boot_free_region_correct [OF virt_blobs(2) pre]
  have region: "(0x80000000 :: addr) < 0x80000000 + 0x8000000"
    "(0x80200000 :: addr) = (if 0x80000000 < (0x80200000 :: addr) then 0x80200000 else 0x80000000)" by simp_all
  have left: "\<exists>t. try_boot_free_region boot_free True 0x80200000 virt_boot virt_base 0x80000000 0x8000000 = Some (0x7c00000, t) \<and>
      free_list_ok t [(0x80200000, 0x7c00000)]"
    using try_region_inside [OF virt_blobs(2) list refl region virt_inside] by blast
  have right: "try_boot_free_region boot_free False 0x80200000 virt_boot virt_base 0x80000000 0x8000000 = None"
    by (rule try_region_right [OF virt_blobs(2) list refl region virt_inside refl virt_above])
  show ?thesis using all [of True "0x80200000"] all [of False "0x80200000"] left right by (intro conjI) (elim exE; force)+
qed

text \<open>C9. Memory discovery, for every device tree whose memory has one of the two layouts of \<^const>\<open>memory_gives\<close>: no memory block has
  a usable byte; or the left operand of the sum in \<^verbatim>\<open>try_boot_free_region\<close> is evaluated first, the first memory block reported
  contains the tree above the kernel, the reserved ranges lie below, and all other blocks are refused.  Then
  \<^verbatim>\<open>fdt_boot_mem_init\<close> returns success, in the first case too: the free list stays empty, or is the memory between the end of the
  kernel and the tree; nothing outside it is written; and the console shows a line for every block of every memory node, and the
  totals.  A node with several blocks is reported by its first block every time, and counted so in the total.\<close>

theorem fdt_boot_mem_init_correct:
  fixes s :: "'z boot_scheme"
  assumes "has_blob s fdt es ts strs" and "boot_free_list s = NULL" and "wf_tree ts"
    and "memory_gives lf kernel_end es fdt (fdt_size s fdt) (memory_reports ts strs ts) free"
  shows "\<exists>s'. fdt_boot_mem_init lf kernel_end s fdt = Some (KERR_SUCCESS, s') \<and>
    free_list_ok s' free \<and> writes_only (free_bytes free) s s' \<and> has_blob s' fdt es ts strs \<and>
    same_rest (emit s (report_lines (memory_reports ts strs ts) @
      totals (reported (memory_reports ts strs ts)) (free_size free))) s'"
  using boot_mem_init_eq [OF assms] .

theorem fdt_boot_mem_init_correct_witness:
  "\<exists>s'. fdt_boot_mem_init True 0x80200000 banks_boot virt_base = Some (KERR_SUCCESS, s') \<and>
     free_list_ok s' [(0x80200000, 0x7c00000)] \<and> sent_to 0x80000100 s' =
       memory_line (bytes_of ''memory@80000000'') 0 0x80000000 0x8000000 @
       memory_line (bytes_of ''memory@90000000'') 0 0x90000000 0x1000 @
       memory_line (bytes_of ''memory@90000000'') 1 0x90000000 0x1000 @ totals 0x8002000 0x7c00000"
proof -
  have list: "boot_free_list banks_boot = NULL" by (simp add: banks_boot_def machine.defs)
  have sent: "sent_to 0x80000100 (emit banks_boot cs) = cs" for cs
    using sent_to_emit [of banks_boot "0x80000100" cs]
    by (simp add: active_def banks_boot_def machine.defs sent_to_def)
  have same: "sent_to cb s' = sent_to cb s" if "same_rest s s'" for cb and s s' :: boot
    using that by (simp add: same_rest_def same_devices_def sent_to_def)
  show ?thesis
    using fdt_boot_mem_init_correct [OF banks_blob list banks_tree(1) banks_gives] sent same
    by (fastforce simp: banks_reports report_lines_def reported_def free_size_def)
qed

end
