(* ===== verification/Syscon.thy ===== *)
theory Syscon
  imports Fdt_Mem
begin

text \<open>
  \<^verbatim>\<open>drivers/syscon/syscon.c\<close>: rebooting and powering off through a register the device tree describes.  The state adds
  the two static variables; the abstract side is \<^verbatim>\<open>syscon_spec\<close>, a function of the tree alone.
\<close>

section \<open>Definitions\<close>

record generic_syscon_action =
  sa_found :: bool
  sa_reg :: addr
  sa_mask :: u32
  sa_value :: u32

definition no_action :: generic_syscon_action where
  "no_action = \<lparr>sa_found = False, sa_reg = NULL, sa_mask = 0, sa_value = 0\<rparr>"

record sysc = boot +
  shutdown_action :: generic_syscon_action
  reboot_action :: generic_syscon_action

text \<open>A property that must hold exactly one cell: the four lookups of the function share these statements.\<close>

definition one_cell_prop :: "'z machine_scheme \<Rightarrow> addr \<Rightarrow> addr \<Rightarrow> string \<Rightarrow> u32 option option" where
  "one_cell_prop s fdt node name =
     do {
       p \<leftarrow> fdt_get_prop_by_name s fdt node NULL (Lit (bytes_of name));
       Some (if p = NULL \<or> fdt_prop_num_cells s p \<noteq> 1 then None else Some (fdt_prop_get_cell s p 0))
     }"

definition syscon_init_generic_action ::
  "'z machine_scheme \<Rightarrow> generic_syscon_action \<Rightarrow> addr \<Rightarrow> cptr \<Rightarrow> (kerror \<times> generic_syscon_action) option" where
  "syscon_init_generic_action s action0 fdt compat' =
     (let action = action0\<lparr>sa_found := False\<rparr> in
      do {
        node \<leftarrow> fdt_find_compatible_node s fdt NULL compat';
        (if node = NULL then Some (KERR_NO_EXIST, action)
         else do {
           regmap \<leftarrow> one_cell_prop s fdt node ''regmap'';
           (case regmap of
              None \<Rightarrow> Some (KERR_INVALID, action)
            | Some syscon_phandle \<Rightarrow> do {
                syscon \<leftarrow> fdt_find_node_by_phandle s fdt NULL syscon_phandle;
                (if syscon = NULL then Some (KERR_INVALID, action)
                 else do {
                   syscon_reg_block_count \<leftarrow> fdt_node_num_register_blocks s fdt syscon;
                   (if syscon_reg_block_count < 1 then Some (KERR_INVALID, action)
                    else do {
                      (syscon_address, syscon_size) \<leftarrow> fdt_node_get_register_block s fdt syscon 0;
                      (if syscon_size = 0 then Some (KERR_INVALID, action)
                       else do {
                         offset_cell \<leftarrow> one_cell_prop s fdt node ''offset'';
                         (case offset_cell of
                            None \<Rightarrow> Some (KERR_INVALID, action)
                          | Some offset \<Rightarrow>
                              if ucast (offset + 4) > syscon_size then Some (KERR_INVALID, action)
                              else do {
                                mask_cell \<leftarrow> one_cell_prop s fdt node ''mask'';
                                value_cell \<leftarrow> one_cell_prop s fdt node ''value'';
                                let action = action\<lparr>sa_reg := syscon_address + ucast offset,
                                  sa_mask := (case mask_cell of None \<Rightarrow> - 1 | Some m \<Rightarrow> m)\<rparr>;
                                Some (case value_cell of
                                        Some v \<Rightarrow> (KERR_SUCCESS, action\<lparr>sa_value := v, sa_found := True\<rparr>)
                                      | None \<Rightarrow>
                                          if mask_cell = None then (KERR_INVALID, action)
                                          else (KERR_SUCCESS, action\<lparr>sa_value := sa_mask action, sa_found := True\<rparr>))
                              })
                       })
                    })
                 })
              })
         })
      })"

definition syscon_shutdown_init :: "'z sysc_scheme \<Rightarrow> addr \<Rightarrow> (kerror \<times> 'z sysc_scheme) option" where
  "syscon_shutdown_init s fdt =
     do {
       (err, action) \<leftarrow> syscon_init_generic_action s (shutdown_action s) fdt (Lit (bytes_of ''syscon-poweroff''));
       Some (err, s\<lparr>shutdown_action := action\<rparr>)
     }"

definition syscon_reboot_init :: "'z sysc_scheme \<Rightarrow> addr \<Rightarrow> (kerror \<times> 'z sysc_scheme) option" where
  "syscon_reboot_init s fdt =
     do {
       (err, action) \<leftarrow> syscon_init_generic_action s (reboot_action s) fdt (Lit (bytes_of ''syscon-reboot''));
       Some (err, s\<lparr>reboot_action := action\<rparr>)
     }"

text \<open>How a function that does not return ends: in \<^verbatim>\<open>abort\<close>, or having written the register.\<close>

datatype ending = Panicked | Register_Written

definition trigger_action :: "generic_syscon_action \<Rightarrow> 'z console_scheme \<Rightarrow> (ending \<times> 'z console_scheme) option" where
  "trigger_action action s =
     (if sa_found action then
        let curr_val = load32 s (sa_reg action)
        in Some (Register_Written, store32 s (sa_reg action)
             ((curr_val AND NOT (sa_mask action)) OR (sa_value action AND sa_mask action)))
      else map_option (Pair Panicked) (abort s))"

definition syscon_shutdown :: "'z sysc_scheme \<Rightarrow> (ending \<times> 'z sysc_scheme) option" where
  "syscon_shutdown s = trigger_action (shutdown_action s) s"

definition syscon_reboot :: "'z sysc_scheme \<Rightarrow> (ending \<times> 'z sysc_scheme) option" where
  "syscon_reboot s = trigger_action (reboot_action s) s"

section \<open>What the tree says\<close>

definition one_cell :: "byte list \<Rightarrow> string \<Rightarrow> token list \<Rightarrow> u32 option" where
  "one_cell strs name vs =
     (case node_prop strs (bytes_of name) vs of
        None \<Rightarrow> None
      | Some v \<Rightarrow> if length v div 4 = 1 then Some (cell v 0) else None)"

text \<open>The register, mask and value a tree gives for a \<^verbatim>\<open>compatible\<close> string, or the reason why it gives none.\<close>

definition syscon_spec :: "token list \<Rightarrow> byte list \<Rightarrow> byte list \<Rightarrow> kerror + generic_syscon_action" where
  "syscon_spec ts strs cs =
     (let node = find_node (compatible_with strs cs) ts in
      if node = [] then Inl KERR_NO_EXIST
      else case one_cell strs ''regmap'' node of
        None \<Rightarrow> Inl KERR_INVALID
      | Some phandle \<Rightarrow>
          let syscon = find_node (has_phandle strs phandle) ts in
          if syscon = [] then Inl KERR_INVALID
          else case (first_block ts strs syscon, one_cell strs ''offset'' node) of
            (Some (address, sz), Some offset) \<Rightarrow>
              if sz = 0 \<or> ucast (offset + 4) > sz then Inl KERR_INVALID
              else (case (one_cell strs ''mask'' node, one_cell strs ''value'' node) of
                  (None, None) \<Rightarrow> Inl KERR_INVALID
                | (None, Some v) \<Rightarrow> Inr \<lparr>sa_found = True, sa_reg = address + ucast offset, sa_mask = - 1, sa_value = v\<rparr>
                | (Some m, None) \<Rightarrow> Inr \<lparr>sa_found = True, sa_reg = address + ucast offset, sa_mask = m, sa_value = m\<rparr>
                | (Some m, Some v) \<Rightarrow> Inr \<lparr>sa_found = True, sa_reg = address + ucast offset, sa_mask = m, sa_value = v\<rparr>)
          | _ \<Rightarrow> Inl KERR_INVALID)"

section \<open>Refinement\<close>

lemma one_cell_prop_eq:
  assumes "fdt_struct s fdt ts" and "fdt_strings s fdt strs" and "vs \<in> set (nodes ts)"
    and "0 \<notin> set (bytes_of name)" and "length name < 2 ^ 64"
  shows "one_cell_prop s fdt (tok_ptr s fdt ts vs) name = Some (one_cell strs name vs)"
proof -
  have cfg: "config_ok s" using assms(1) by (simp add: fdt_struct_def)
  have name: "cstr s (Lit (bytes_of name)) (bytes_of name)" using assms(4,5) by (simp add: cstr_def length_bytes_of)
  obtain nm us where vs: "vs = BeginNode nm # us" using nodes_BeginNode [OF assms(3)] by blast
  obtain p where p: "fdt_get_prop_by_name s fdt (tok_ptr s fdt ts vs) NULL (Lit (bytes_of name)) = Some p"
    "prop_view s p (node_prop strs (bytes_of name) vs)"
    using get_prop_view [OF assms(1,2) name nodes_suffix [OF assms(3) [unfolded vs]]] unfolding vs by blast
  show ?thesis
  proof (cases "node_prop strs (bytes_of name) vs")
    case None
    then show ?thesis using p by (simp add: one_cell_prop_def one_cell_def prop_view_def)
  next
    case (Some v)
    note view = p(2) [unfolded Some]
    have "length v < 2 ^ 32" "p \<noteq> NULL" using view by (simp_all add: prop_view_def)
    then show ?thesis
      using p(1) Some prop_view_num_cells [OF view] prop_view_get_cell [OF cfg view, of 0] of_nat_inj64 [of "length v div 4" 1]
      by (simp add: one_cell_prop_def one_cell_def)
  qed
qed

lemma key_names:
  "0 \<notin> set (bytes_of ''regmap'')" "0 \<notin> set (bytes_of ''offset'')" "0 \<notin> set (bytes_of ''mask'')"
  "0 \<notin> set (bytes_of ''value'')"
  by (simp_all add: bytes_of_def)

text \<open>What the driver learns of a node the search has found: its number of register blocks, and the first of them.\<close>

lemma found_blocks:
  assumes "fdt_struct s fdt ts" and "fdt_strings s fdt strs" and "wf_tree ts" and "find_node P ts = vs" and "vs \<noteq> []"
  obtains k where "tok_ptr s fdt ts vs \<noteq> NULL" and "fdt_node_num_register_blocks s fdt (tok_ptr s fdt ts vs) = Some k"
    and "k < 1 \<longleftrightarrow> first_block ts strs vs = None"
    and "\<And>b. first_block ts strs vs = Some b \<Longrightarrow> fdt_node_get_register_block s fdt (tok_ptr s fdt ts vs) 0 = Some b"
proof
  have vs: "vs \<in> set (nodes ts)" using find_node_in assms(4,5) by blast
  note blk = block_count_eq [OF assms(1-3) vs]
  show "tok_ptr s fdt ts vs \<noteq> NULL" using find_node_null [OF assms(1), of P] assms(4,5) by simp
  show "fdt_node_num_register_blocks s fdt (tok_ptr s fdt ts vs) = Some (of_nat (block_count ts strs vs))"
    and "(of_nat (block_count ts strs vs) :: size_t) < 1 \<longleftrightarrow> first_block ts strs vs = None"
    and "\<And>b. first_block ts strs vs = Some b \<Longrightarrow> fdt_node_get_register_block s fdt (tok_ptr s fdt ts vs) 0 = Some b"
    using blk of_nat_inj64 [of "block_count ts strs vs" 0] by simp_all
qed

lemma init_eq:
  assumes "fdt_struct s fdt ts" and "fdt_strings s fdt strs" and "wf_tree ts" and "wf_compatible strs ts"
    and "wf_phandle strs ts" and "cstr s compat' cs"
    shows "\<exists>err act. syscon_init_generic_action s action fdt compat' = Some (err, act) \<and>
    (case syscon_spec ts strs cs of Inl e \<Rightarrow> err = e \<and> \<not> sa_found act | Inr r \<Rightarrow> err = KERR_SUCCESS \<and> act = r)"
proof -
  define node where "node = find_node (compatible_with strs cs) ts"
  have st: "start_at s fdt ts NULL ts" using assms(3) by (auto simp: start_at_def wf_tree_def)
  note comp = find_compatible_eq [OF assms(1,2,6,4) st, folded node_def]
    and phandle = find_phandle_eq [OF assms(1,2,5) st] and null = find_node_null [OF assms(1)]
  note defs = syscon_init_generic_action_def syscon_spec_def Let_def node_def [symmetric]
  show ?thesis
  proof (cases "node = []")
    case True
    then show ?thesis by (simp add: defs comp)
  next
    case False
    then have nn: "tok_ptr s fdt ts node \<noteq> NULL" using null [of "compatible_with strs cs"] by (simp add: node_def)
    have "node \<in> set (nodes ts)" using find_node_in False by (simp add: node_def)
    note cells = one_cell_prop_eq [OF assms(1,2) this]
    note prop_cells = cells [OF key_names(1)] cells [OF key_names(2)] cells [OF key_names(3)] cells [OF key_names(4)]
    show ?thesis
    proof (cases "one_cell strs ''regmap'' node")
      case None
      then show ?thesis by (simp add: defs comp nn False prop_cells)
    next
      case (Some ph)
      define sys where "sys = find_node (has_phandle strs ph) ts"
      note found = defs comp nn False prop_cells Some phandle [of ph, folded sys_def] sys_def [symmetric]
      show ?thesis
      proof (cases "sys = []")
        case True
        then show ?thesis by (simp add: found)
      next
        case sys: False
        obtain k where ns: "tok_ptr s fdt ts sys \<noteq> NULL"
          and k: "fdt_node_num_register_blocks s fdt (tok_ptr s fdt ts sys) = Some k" "k < 1 \<longleftrightarrow> first_block ts strs sys = None"
            "\<And>b. first_block ts strs sys = Some b \<Longrightarrow> fdt_node_get_register_block s fdt (tok_ptr s fdt ts sys) 0 = Some b"
          using found_blocks [OF assms(1-3) sys_def [symmetric] sys] by blast
        show ?thesis
        proof (cases "first_block ts strs sys")
          case None
          then have "k = 0" using k(2) by simp
          then show ?thesis by (simp add: found ns sys k(1) None)
        next
          case blk: (Some b)
          obtain ad sz where b: "b = (ad, sz)" by force
          note found = found ns sys k(1) k(3) [OF blk] blk b
          have "k \<noteq> 0" using k(2) blk by auto
          then show ?thesis
            by (cases "one_cell strs ''offset'' node"; cases "one_cell strs ''mask'' node"; cases "one_cell strs ''value'' node")
              (simp_all add: found)
        qed
      qed
    qed
  qed
qed

section \<open>Initialising and triggering an action\<close>

definition tree_ok :: "'z machine_scheme \<Rightarrow> addr \<Rightarrow> token list \<Rightarrow> byte list \<Rightarrow> bool" where
  "tree_ok s fdt ts strs \<longleftrightarrow> fdt_struct s fdt ts \<and> fdt_strings s fdt strs \<and> wf_tree ts \<and>
     wf_compatible strs ts \<and> wf_phandle strs ts"

definition masked :: "generic_syscon_action \<Rightarrow> u32 \<Rightarrow> u32" where
  "masked r old = (old AND NOT (sa_mask r)) OR (sa_value r AND sa_mask r)"

lemma bit_masked: "bit (masked r old) i = (if bit (sa_mask r) i then bit (sa_value r) i else bit old i)"
  by (auto simp: masked_def bit_simps dest: bit_imp_le_length)

abbreviation panic_text :: "byte list" where
  "panic_text \<equiv> bytes_of ''KERNEL PANIC\<newline>''"

lemma abort_eq: "abort s = Some (emit s panic_text)"
  using printk_plain [of panic_text s] by (simp add: abort_def) (simp add: bytes_of_def)

text \<open>What a client relies on, for each of the two actions: initialisation agrees with the tree and changes nothing else,
  and the action writes the register if initialisation succeeded, and panics if not.\<close>

locale action_slot =
  fixes act :: "'z sysc_scheme \<Rightarrow> generic_syscon_action"
    and init :: "'z sysc_scheme \<Rightarrow> addr \<Rightarrow> (kerror \<times> 'z sysc_scheme) option"
    and run :: "'z sysc_scheme \<Rightarrow> (ending \<times> 'z sysc_scheme) option"
    and cs :: "byte list"
  assumes init_refines: "tree_ok s fdt ts strs \<Longrightarrow> \<exists>err s'. init s fdt = Some (err, s') \<and>
      mem s' = mem s \<and> same_devices s s' \<and> boot_free_list s' = boot_free_list s \<and>
      (case syscon_spec ts strs cs of Inl e \<Rightarrow> err = e \<and> \<not> sa_found (act s') | Inr r \<Rightarrow> err = KERR_SUCCESS \<and> act s' = r)"
    and run_found: "sa_found (act s) \<Longrightarrow>
      run s = Some (Register_Written, store32 s (sa_reg (act s)) (masked (act s) (load32 s (sa_reg (act s)))))"
    and run_missing: "\<not> sa_found (act s) \<Longrightarrow> run s = Some (Panicked, emit s panic_text)"
begin

lemma spec_found: "syscon_spec ts strs cs = Inr r \<Longrightarrow> sa_found r"
  by (auto simp: syscon_spec_def Let_def split: if_splits option.splits prod.splits)

lemma init_then_run:
  assumes "tree_ok s fdt ts strs" and "syscon_spec ts strs cs = Inr r"
  shows "\<exists>s' s''. init s fdt = Some (KERR_SUCCESS, s') \<and> run s' = Some (Register_Written, s'') \<and>
    load32 s'' (sa_reg r) = masked r (load32 s (sa_reg r)) \<and>
    (\<forall>x. 4 \<le> unat (x - sa_reg r) \<longrightarrow> mem s'' x = mem s x)"
proof -
  obtain s' where s': "init s fdt = Some (KERR_SUCCESS, s')" "mem s' = mem s" "same_devices s s'" "act s' = r"
    using init_refines [OF assms(1)] assms(2) by auto
  let ?s = "store32 s' (sa_reg r) (masked r (load32 s' (sa_reg r)))"
  have "run s' = Some (Register_Written, ?s)" using run_found [of s'] s'(4) spec_found [OF assms(2)] by simp
  moreover have "load32 s' (sa_reg r) = load32 s (sa_reg r)"
    using s'(2,3) by (simp add: load32_def read_bytes_def host_join_def same_devices_def)
  moreover have "mem ?s x = mem s x" if "4 \<le> unat (x - sa_reg r)" for x
    using that s'(2) by (simp add: store32_def mem_write_bytes)
  ultimately show ?thesis using s'(1) by (auto simp: mem_simps)
qed

lemma init_fails:
  assumes "tree_ok s fdt ts strs" and "syscon_spec ts strs cs = Inl e"
  shows "\<exists>s'. init s fdt = Some (e, s') \<and> mem s' = mem s \<and> run s' = Some (Panicked, emit s' panic_text)"
  using init_refines [OF assms(1)] assms(2) run_missing by auto

end

lemma slot_init:
  assumes "tree_ok s fdt ts strs" and "0 \<notin> set (bytes_of name)" and "length name < 2 ^ 64"
  shows "\<exists>err a. syscon_init_generic_action s action fdt (Lit (bytes_of name)) = Some (err, a) \<and>
    (case syscon_spec ts strs (bytes_of name) of
       Inl e \<Rightarrow> err = e \<and> \<not> sa_found a | Inr r \<Rightarrow> err = KERR_SUCCESS \<and> a = r)"
  using assms by (intro init_eq) (auto simp: tree_ok_def cstr_def length_bytes_of)

interpretation shutdown_slot: action_slot shutdown_action syscon_shutdown_init syscon_shutdown "bytes_of ''syscon-poweroff''"
proof
  fix s :: "'a sysc_scheme" and fdt ts strs
  assume "tree_ok s fdt ts strs"
  from slot_init [OF this, of "''syscon-poweroff''" "shutdown_action s"] obtain err a where
    "syscon_init_generic_action s (shutdown_action s) fdt (Lit (bytes_of ''syscon-poweroff'')) = Some (err, a)"
    "case syscon_spec ts strs (bytes_of ''syscon-poweroff'') of
       Inl e \<Rightarrow> err = e \<and> \<not> sa_found a | Inr r \<Rightarrow> err = KERR_SUCCESS \<and> a = r" by (auto simp: bytes_of_def)
  then show "\<exists>err s'. syscon_shutdown_init s fdt = Some (err, s') \<and> mem s' = mem s \<and> same_devices s s' \<and>
      boot_free_list s' = boot_free_list s \<and>
      (case syscon_spec ts strs (bytes_of ''syscon-poweroff'') of
         Inl e \<Rightarrow> err = e \<and> \<not> sa_found (shutdown_action s') | Inr r \<Rightarrow> err = KERR_SUCCESS \<and> shutdown_action s' = r)"
    by (simp add: syscon_shutdown_init_def same_devices_def split: sum.splits)
qed (simp_all add: syscon_shutdown_def trigger_action_def masked_def abort_eq)

interpretation reboot_slot: action_slot reboot_action syscon_reboot_init syscon_reboot "bytes_of ''syscon-reboot''"
proof
  fix s :: "'a sysc_scheme" and fdt ts strs
  assume "tree_ok s fdt ts strs"
  from slot_init [OF this, of "''syscon-reboot''" "reboot_action s"] obtain err a where
    "syscon_init_generic_action s (reboot_action s) fdt (Lit (bytes_of ''syscon-reboot'')) = Some (err, a)"
    "case syscon_spec ts strs (bytes_of ''syscon-reboot'') of
       Inl e \<Rightarrow> err = e \<and> \<not> sa_found a | Inr r \<Rightarrow> err = KERR_SUCCESS \<and> a = r" by (auto simp: bytes_of_def)
  then show "\<exists>err s'. syscon_reboot_init s fdt = Some (err, s') \<and> mem s' = mem s \<and> same_devices s s' \<and>
      boot_free_list s' = boot_free_list s \<and>
      (case syscon_spec ts strs (bytes_of ''syscon-reboot'') of
         Inl e \<Rightarrow> err = e \<and> \<not> sa_found (reboot_action s') | Inr r \<Rightarrow> err = KERR_SUCCESS \<and> reboot_action s' = r)"
    by (simp add: syscon_reboot_init_def same_devices_def split: sum.splits)
qed (simp_all add: syscon_reboot_def trigger_action_def masked_def abort_eq)

section \<open>The concrete tree\<close>

definition virt_sysc :: sysc where
  "virt_sysc = boot.extend virt_boot \<lparr>shutdown_action = no_action, reboot_action = no_action\<rparr>"

lemma virt_sysc_blob: "has_blob virt_sysc virt_base virt_reserved virt_tokens virt_strings"
  by (rule has_blob_frame [OF virt_blobs(2)]) (simp_all add: virt_sysc_def boot.defs)

lemma virt_tree_ok: "tree_ok virt_sysc virt_base virt_tokens virt_strings"
  using blob_ok(2,3) [OF virt_sysc_blob] virt_tree(1) virt_names_wf by (simp add: tree_ok_def)

definition virt_shutdown :: generic_syscon_action where
  "virt_shutdown = \<lparr>sa_found = True, sa_reg = 0x100000, sa_mask = - 1, sa_value = 0x5555\<rparr>"

lemma virt_nodes_found:
  "find_node (compatible_with virt_strings (bytes_of ''syscon-poweroff'')) virt_tokens = drop 4 virt_tokens"
  "find_node (compatible_with virt_strings (bytes_of ''syscon-reboot'')) virt_tokens = []"
  "find_node (has_phandle virt_strings 4) virt_tokens = drop 16 virt_tokens"
proof -
  have nz: "0 \<notin> set (bytes_of ''riscv-virtio'')" "0 \<notin> set (bytes_of ''syscon-poweroff'')"
    "0 \<notin> set (bytes_of ''sifive_test1'')" "0 \<notin> set (bytes_of ''sifive_test0'')" "0 \<notin> set (bytes_of ''syscon'')"
    by (simp_all add: bytes_of_def)
  show "find_node (compatible_with virt_strings (bytes_of ''syscon-poweroff'')) virt_tokens = drop 4 virt_tokens"
    "find_node (compatible_with virt_strings (bytes_of ''syscon-reboot'')) virt_tokens = []"
    using virt_node_props(1) nz by (simp_all add: find_node_def compatible_with_def virt_node_list strings_of_cstrings)
  show "find_node (has_phandle virt_strings 4) virt_tokens = drop 16 virt_tokens"
    using virt_node_props(3) by (simp add: find_node_def has_phandle_def virt_node_list cell_cells)
qed

lemma virt_poweroff_props:
  "node_prop virt_strings (bytes_of ''regmap'') (drop 4 virt_tokens) = Some (cells [4])"
  "node_prop virt_strings (bytes_of ''offset'') (drop 4 virt_tokens) = Some (cells [0])"
  "node_prop virt_strings (bytes_of ''mask'') (drop 4 virt_tokens) = None"
  "node_prop virt_strings (bytes_of ''value'') (drop 4 virt_tokens) = Some (cells [0x5555])"
  by (simp_all add: virt_defs node_prop.simps virt_names)

lemma virt_ancestors: "ancestors virt_tokens (drop 16 virt_tokens) = [drop 14 virt_tokens, virt_tokens]"
proof -
  have ne: "drop 16 virt_tokens \<noteq> drop n virt_tokens" if "n \<in> {0, 4, 10, 14}" for n
    using that by (auto simp: virt_defs)
  show ?thesis using ne [of 0] ne [of 4] ne [of 10] ne [of 14] by (simp add: ancestors_def virt_anc)
qed

lemma virt_spec:
  "syscon_spec virt_tokens virt_strings (bytes_of ''syscon-poweroff'') = Inr virt_shutdown"
  "syscon_spec virt_tokens virt_strings (bytes_of ''syscon-reboot'') = Inl KERR_NO_EXIST"
proof -
  have "first_block virt_tokens virt_strings (drop 16 virt_tokens) = Some (reg_block 2 2 (cells [0, 0x100000, 0, 0x1000]) 0)"
    using virt_cells(2-4) by (simp add: first_block_def virt_ancestors)
  also have "reg_block 2 2 (cells [0, 0x100000, 0, 0x1000]) 0 = (0x100000, 0x1000)"
    by (simp add: reg_block_def num_at_def cells_def be_bytes_def be_join_def le_bytes_numeral)
  finally have b: "first_block virt_tokens virt_strings (drop 16 virt_tokens) = Some (0x100000, 0x1000)" .
  have "drop 4 virt_tokens \<noteq> []" "drop 16 virt_tokens \<noteq> []" by (simp_all add: virt_defs)
  then show "syscon_spec virt_tokens virt_strings (bytes_of ''syscon-poweroff'') = Inr virt_shutdown"
    by (simp add: syscon_spec_def Let_def virt_nodes_found one_cell_def virt_poweroff_props cell_cells b virt_shutdown_def
        del: drop_eq_Nil)
  show "syscon_spec virt_tokens virt_strings (bytes_of ''syscon-reboot'') = Inl KERR_NO_EXIST"
    by (simp add: syscon_spec_def virt_nodes_found)
qed

section \<open>Properties\<close>

text \<open>C10. Refinement: for every tree in which each \<^verbatim>\<open>compatible\<close> value is terminated and each \<^verbatim>\<open>phandle\<close> is one cell,
  \<^verbatim>\<open>syscon_init_generic_action\<close> returns what the tree says: the register at the offset of the first register block of the
  node the \<^verbatim>\<open>regmap\<close> phandle names, with its mask and value, the one standing for the other if it is missing; and
  the error code with the action disabled if any part is missing or malformed.\<close>

theorem syscon_init_correct:
  assumes "tree_ok s fdt ts strs" and "cstr s compat' cs"
  shows "\<exists>err act. syscon_init_generic_action s action fdt compat' = Some (err, act) \<and>
    (case syscon_spec ts strs cs of Inl e \<Rightarrow> err = e \<and> \<not> sa_found act | Inr r \<Rightarrow> err = KERR_SUCCESS \<and> act = r)"
  using assms by (intro init_eq) (auto simp: tree_ok_def)

theorem syscon_init_correct_witness:
  "syscon_init_generic_action virt_sysc no_action virt_base (Lit (bytes_of ''syscon-poweroff'')) =
     Some (KERR_SUCCESS, virt_shutdown)"
  using syscon_init_correct [OF virt_tree_ok, of "Lit (bytes_of ''syscon-poweroff'')" "bytes_of ''syscon-poweroff''" no_action]
  by (auto simp: virt_spec cstr_def) (simp_all add: bytes_of_def)

text \<open>C22. After a successful \<^verbatim>\<open>syscon_shutdown_init\<close>, \<^verbatim>\<open>syscon_shutdown\<close> writes the register the tree names: the bits of
  the mask take the value's, the other bits and all other memory stay as they are.  After a failed one it panics.\<close>

theorem syscon_shutdown_correct:
  fixes s :: "'z sysc_scheme"
  assumes "tree_ok s fdt ts strs"
  shows "case syscon_spec ts strs (bytes_of ''syscon-poweroff'') of
      Inr r \<Rightarrow> \<exists>s' s''. syscon_shutdown_init s fdt = Some (KERR_SUCCESS, s') \<and>
        syscon_shutdown s' = Some (Register_Written, s'') \<and>
        (\<forall>i. bit (load32 s'' (sa_reg r)) i =
           (if bit (sa_mask r) i then bit (sa_value r) i else bit (load32 s (sa_reg r)) i)) \<and>
        (\<forall>x. 4 \<le> unat (x - sa_reg r) \<longrightarrow> mem s'' x = mem s x)
    | Inl e \<Rightarrow> \<exists>s'. syscon_shutdown_init s fdt = Some (e, s') \<and> mem s' = mem s \<and>
        syscon_shutdown s' = Some (Panicked, emit s' panic_text)"
  using shutdown_slot.init_then_run [OF assms] shutdown_slot.init_fails [OF assms]
  by (auto simp: bit_masked split: sum.splits)

theorem syscon_shutdown_correct_witness:
  "\<exists>s' s''. syscon_shutdown_init virt_sysc virt_base = Some (KERR_SUCCESS, s') \<and>
     syscon_shutdown s' = Some (Register_Written, s'') \<and> load32 s'' 0x100000 = 0x5555"
proof -
  obtain s' s'' where s: "syscon_shutdown_init virt_sysc virt_base = Some (KERR_SUCCESS, s')"
    "syscon_shutdown s' = Some (Register_Written, s'')"
    and b: "\<forall>i. bit (load32 s'' 0x100000) i =
      (if bit (- 1 :: u32) i then bit (0x5555 :: u32) i else bit (load32 virt_sysc 0x100000) i)"
    using syscon_shutdown_correct [OF virt_tree_ok] by (auto simp: virt_spec virt_shutdown_def)
  have "load32 s'' 0x100000 = 0x5555" by (rule bit_word_eqI) (simp add: b)
  then show ?thesis using s by blast
qed

text \<open>The same for \<^verbatim>\<open>syscon_reboot_init\<close> and \<^verbatim>\<open>syscon_reboot\<close>.\<close>

theorem syscon_reboot_correct:
  fixes s :: "'z sysc_scheme"
  assumes "tree_ok s fdt ts strs"
  shows "case syscon_spec ts strs (bytes_of ''syscon-reboot'') of
      Inr r \<Rightarrow> \<exists>s' s''. syscon_reboot_init s fdt = Some (KERR_SUCCESS, s') \<and>
        syscon_reboot s' = Some (Register_Written, s'') \<and>
        (\<forall>i. bit (load32 s'' (sa_reg r)) i =
           (if bit (sa_mask r) i then bit (sa_value r) i else bit (load32 s (sa_reg r)) i)) \<and>
        (\<forall>x. 4 \<le> unat (x - sa_reg r) \<longrightarrow> mem s'' x = mem s x)
    | Inl e \<Rightarrow> \<exists>s'. syscon_reboot_init s fdt = Some (e, s') \<and> mem s' = mem s \<and>
        syscon_reboot s' = Some (Panicked, emit s' panic_text)"
  using reboot_slot.init_then_run [OF assms] reboot_slot.init_fails [OF assms]
  by (auto simp: bit_masked split: sum.splits)

theorem syscon_reboot_correct_witness:
  "\<exists>s'. syscon_reboot_init virt_sysc virt_base = Some (KERR_NO_EXIST, s') \<and>
     syscon_reboot s' = Some (Panicked, emit s' panic_text)"
  using syscon_reboot_correct [OF virt_tree_ok] by (auto simp: virt_spec)

text \<open>C23. A successful initialisation puts the register inside the register block of the syscon node, unless the offset
  is within four bytes of \<^term>\<open>2 ^ 32 :: nat\<close>, where the 32-bit sum of the check wraps around.\<close>

theorem syscon_register_bounds:
  assumes "tree_ok s fdt ts strs" and "cstr s compat' cs"
    and "syscon_init_generic_action s action fdt compat' = Some (KERR_SUCCESS, act)"
  shows "\<exists>node syscon phandle address sz offset.
    node = find_node (compatible_with strs cs) ts \<and> one_cell strs ''regmap'' node = Some phandle \<and>
    syscon = find_node (has_phandle strs phandle) ts \<and> first_block ts strs syscon = Some (address, sz) \<and>
    one_cell strs ''offset'' node = Some offset \<and> sa_reg act = address + ucast offset \<and>
    (unat offset + 4 \<le> unat sz \<or> 2 ^ 32 \<le> unat offset + 4)"
proof -
  obtain err act' where i: "syscon_init_generic_action s action fdt compat' = Some (err, act')"
    "case syscon_spec ts strs cs of Inl e \<Rightarrow> err = e \<and> \<not> sa_found act' | Inr r \<Rightarrow> err = KERR_SUCCESS \<and> act' = r"
    using init_eq [of s fdt ts strs compat' cs action] assms(1,2) by (auto simp: tree_ok_def)
  have wrap: "unat offset + 4 \<le> unat sz \<or> 2 ^ 32 \<le> unat offset + 4"
    if "\<not> sz < ucast (offset + 4)" for offset :: u32 and sz :: size_t
  proof (cases "unat offset + 4 < 2 ^ 32")
    case True
    then have "unat (offset + 4) = unat offset + 4" by (simp add: unat_add_lem [THEN iffD1])
    then have "unat (ucast (offset + 4) :: size_t) = unat offset + 4"
      using True by (simp add: unsigned_ucast_eq take_bit_nat_eq_self)
    then show ?thesis using that by (simp add: word_less_nat_alt)
  qed simp
  show ?thesis
    using i assms(3) wrap
    by (auto simp: syscon_spec_def Let_def not_less split: if_splits option.splits prod.splits sum.splits)
qed

theorem syscon_register_bounds_witness:
  "\<exists>sz. first_block virt_tokens virt_strings (drop 16 virt_tokens) = Some (sa_reg virt_shutdown, sz) \<and> 4 \<le> unat sz"
proof -
  have lit: "cstr virt_sysc (Lit (bytes_of ''syscon-poweroff'')) (bytes_of ''syscon-poweroff'')"
    by (simp add: cstr_def bytes_of_def)
  have "syscon_init_generic_action virt_sysc no_action virt_base (Lit (bytes_of ''syscon-poweroff'')) =
      Some (KERR_SUCCESS, virt_shutdown)"
    using slot_init [OF virt_tree_ok, of "''syscon-poweroff''" no_action] by (auto simp: virt_spec) (simp_all add: bytes_of_def)
  from syscon_register_bounds [OF virt_tree_ok lit this] show ?thesis
    by (auto simp: virt_nodes_found one_cell_def virt_poweroff_props cell_cells)
qed

end
