(* ===== verification/Kernel.thy ===== *)
theory Kernel
  imports Syscon "HOL-Library.Stream"
begin

text \<open>
  \<^verbatim>\<open>arch/riscv/kernel.c\<close> and \<^verbatim>\<open>arch/arm64/kernel.c\<close>: the kernel itself.  The two files differ in the address of the UART
  and in the line that prints the hart, so one model takes the architecture as an argument.

  The UART is a device: the bytes that consecutive reads of \<^verbatim>\<open>*UART\<close> return are a stream, part of the state, and the
  bytes stored to it are the calls of \<^verbatim>\<open>dead_simple_uart_putchar\<close> in the log of early output.  What the compiler and the linker decide is an argument: which operand of a sum of two calls is
  evaluated first, the end of the kernel, the address of the callback, the bounds of the three arrays of function
  pointers, and the meaning of a function pointer.
\<close>

section \<open>Definitions\<close>

datatype arch = RISCV | ARM64

record kernel = sysc +
  uart_rx :: "byte stream"

type_synonym 'z fptr = "addr \<Rightarrow> 'z kernel_scheme \<Rightarrow> 'z kernel_scheme option"

record linked =
  left_first :: bool
  kernel_end :: addr
  uart_putchar :: addr
  preinit_array_start :: addr
  preinit_array_end :: addr
  init_array_start :: addr
  init_array_end :: addr
  fini_array_start :: addr
  fini_array_end :: addr

text \<open>Function pointers are eight bytes long.\<close>

partial_function (option) process_func_array ::
  "'z fptr \<Rightarrow> 'z kernel_scheme \<Rightarrow> addr \<Rightarrow> addr \<Rightarrow> 'z kernel_scheme option" where
  "process_func_array call s func stop =
     (if func = stop then Some s
      else do { s' \<leftarrow> call (load64 s func) s; process_func_array call s' (func + 8) stop })"

definition preinit :: "'z fptr \<Rightarrow> linked \<Rightarrow> 'z kernel_scheme \<Rightarrow> 'z kernel_scheme option" where
  "preinit call l s = process_func_array call s (preinit_array_start l) (preinit_array_end l)"

definition init :: "'z fptr \<Rightarrow> linked \<Rightarrow> 'z kernel_scheme \<Rightarrow> 'z kernel_scheme option" where
  "init call l s = process_func_array call s (init_array_start l) (init_array_end l)"

definition fini :: "'z fptr \<Rightarrow> linked \<Rightarrow> 'z kernel_scheme \<Rightarrow> 'z kernel_scheme option" where
  "fini call l s = process_func_array call s (fini_array_start l) (fini_array_end l)"

definition UART :: "arch \<Rightarrow> addr" where
  "UART a = (case a of RISCV \<Rightarrow> 0x10000000 | ARM64 \<Rightarrow> 0x9000000)"

text \<open>The store a call of the callback makes, and the stores of all its calls so far.\<close>

definition dead_simple_uart_putchar :: "arch \<Rightarrow> byte \<Rightarrow> addr \<times> byte" where
  "dead_simple_uart_putchar a c = (UART a, c)"

definition uart_stores :: "arch \<Rightarrow> linked \<Rightarrow> 'z console_scheme \<Rightarrow> (addr \<times> byte) list" where
  "uart_stores a l s = map (dead_simple_uart_putchar a) (sent_to (uart_putchar l) s)"

definition read_uart :: "'z kernel_scheme \<Rightarrow> byte \<times> 'z kernel_scheme" where
  "read_uart s = (shd (uart_rx s), s\<lparr>uart_rx := stl (uart_rx s)\<rparr>)"

definition foo :: "'z console_scheme \<Rightarrow> 'z console_scheme option" where
  "foo s = map_option fst (printk s (Lit (bytes_of ''Hello from a global constructor!\<newline>'')) [])"

definition bar :: "'z console_scheme \<Rightarrow> 'z console_scheme option" where
  "bar s = map_option fst (printk s (Lit (bytes_of ''Hello from a global destructor!\<newline>'')) [])"

text \<open>The inner loop of \<^verbatim>\<open>fdt_dump\<close> prints as many tabs as the depth says.\<close>

fun tabs_loop :: "nat \<Rightarrow> 'z console_scheme \<Rightarrow> 'z console_scheme option" where
  "tabs_loop 0 s = Some s"
| "tabs_loop (Suc n) s = do { (s', _) \<leftarrow> printk s (Lit (bytes_of [CHR 0x09])) []; tabs_loop n s' }"

partial_function (option) dump_nodes ::
  "'z console_scheme \<Rightarrow> addr \<Rightarrow> addr \<Rightarrow> int \<Rightarrow> 'z console_scheme option" where
  "dump_nodes s fdt node depth =
     (if node \<noteq> NULL \<and> depth \<ge> 0 then
        do {
          s1 \<leftarrow> tabs_loop (nat depth) s;
          (s2, _) \<leftarrow> printk s1 (Lit (bytes_of ''%s\<newline>'')) [VStr (fdt_node_name s1 node)];
          (node', depth') \<leftarrow> fdt_next_node s2 fdt node (Some depth);
          dump_nodes s2 fdt node' (the depth')
        }
      else Some s)"

definition fdt_dump :: "'z console_scheme \<Rightarrow> addr \<Rightarrow> 'z console_scheme option" where
  "fdt_dump s fdt =
     do {
       node \<leftarrow> fdt_node_begin s fdt;
       (s1, _) \<leftarrow> printk s (Lit (bytes_of ''FDT = (%p) {\<newline>'')) [VPtr fdt];
       s2 \<leftarrow> dump_nodes s1 fdt node 0;
       (s3, _) \<leftarrow> printk s2 (Lit (bytes_of ''}\<newline>'')) [];
       Some s3
     }"

section \<open>The loop that reads the UART\<close>

text \<open>How a round of the loop ends.\<close>

datatype decision = Continue | Quit | Panic | Reboot | Shutdown

partial_function (option) wait_change :: "'z kernel_scheme \<Rightarrow> byte \<Rightarrow> 'z kernel_scheme option" where
  "wait_change s old_uart =
     (let (c, s') = read_uart s in if old_uart = c then wait_change s' old_uart else Some s')"

text \<open>One round: every test reads the UART again; the tests for \<^verbatim>\<open>^\<close> and \<^verbatim>\<open>&\<close> do so only if the action is enabled.\<close>

definition test_key :: "bool \<Rightarrow> char \<Rightarrow> 'z kernel_scheme \<Rightarrow> bool \<times> 'z kernel_scheme" where
  "test_key enabled k s = (if enabled then let (c, s') = read_uart s in (c = of_char k, s') else (False, s))"

definition round_step :: "bool \<Rightarrow> bool \<Rightarrow> 'z kernel_scheme \<Rightarrow> (decision \<times> 'z kernel_scheme) option" where
  "round_step syscon_reboot_ok syscon_shutdown_ok s =
     (let (c, s0) = read_uart s in
      do {
        (s1, _) \<leftarrow> printk s0 (Lit (bytes_of ''%c'')) [VInt (ucast c)];
        let (quit, s2) = test_key True CHR ''%'' s1;
        (if quit then Some (Quit, s2)
         else
           let (panic, s3) = test_key True CHR ''!'' s2 in
           if panic then Some (Panic, s3)
           else
             let (reboot, s4) = test_key syscon_reboot_ok CHR ''^'' s3 in
             if reboot then Some (Reboot, s4)
             else
               let (shutdown, s5) = test_key syscon_shutdown_ok CHR ''&'' s4 in
               if shutdown then Some (Shutdown, s5)
               else
                 let (old_uart, s6) = read_uart s5 in
                 map_option (Pair Continue) (wait_change s6 old_uart))
      })"

partial_function (option) main_loop :: "bool \<Rightarrow> bool \<Rightarrow> 'z kernel_scheme \<Rightarrow> (decision \<times> 'z kernel_scheme) option" where
  "main_loop r d s =
     do { (k, s') \<leftarrow> round_step r d s; (if k = Continue then main_loop r d s' else Some (k, s')) }"

section \<open>kmain\<close>

text \<open>How \<^verbatim>\<open>kmain\<close> ends: it returns, or it has stopped the machine in \<^verbatim>\<open>abort\<close> or by writing a register.\<close>

datatype outcome = Returned | Stopped ending

text \<open>The part before the loop, up to the constructors; the two flags say which actions are enabled.\<close>

definition boot_setup :: "linked \<Rightarrow> 'z kernel_scheme \<Rightarrow> addr \<Rightarrow> (bool \<times> bool \<times> 'z kernel_scheme) option" where
  "boot_setup l s fdt =
     do {
       s1 \<leftarrow> fdt_dump s fdt;
       (_, s2) \<leftarrow> fdt_boot_mem_init (left_first l) (kernel_end l) s1 fdt;
       (_, s3) \<leftarrow> boot_mem_dump s2;
       (s4, alloc) \<leftarrow> boot_alloc s3 0x1000 4;
       (s5, _) \<leftarrow> printk s4 (Lit (bytes_of ''alloc = %p\<newline>'')) [VPtr alloc];
       (_, s6) \<leftarrow> boot_mem_dump s5;
       (err1, s7) \<leftarrow> syscon_reboot_init s6 fdt;
       (s8, _) \<leftarrow> (if err1 \<noteq> KERR_SUCCESS then printk s7 (Lit (bytes_of ''Error setting up syscon reboot\<newline>'')) []
                   else Some (s7, 0));
       (err2, s9) \<leftarrow> syscon_shutdown_init s8 fdt;
       (s10, _) \<leftarrow> (if err2 \<noteq> KERR_SUCCESS then printk s9 (Lit (bytes_of ''Error setting up syscon shutdown\<newline>'')) []
                    else Some (s9, 0));
       Some (err1 = KERR_SUCCESS, err2 = KERR_SUCCESS, s10)
     }"

definition finish :: "'z fptr \<Rightarrow> linked \<Rightarrow> decision \<Rightarrow> 'z kernel_scheme \<Rightarrow> (outcome \<times> 'z kernel_scheme) option" where
  "finish call l k s =
     (case k of
        Panic \<Rightarrow> map_option (Pair (Stopped Panicked)) (abort s)
      | Reboot \<Rightarrow> map_option (map_prod Stopped id) (syscon_reboot s)
      | Shutdown \<Rightarrow> map_option (map_prod Stopped id) (syscon_shutdown s)
      | _ \<Rightarrow> map_option (Pair Returned) (fini call l s))"

definition kmain ::
  "arch \<Rightarrow> 'z fptr \<Rightarrow> linked \<Rightarrow> 'z kernel_scheme \<Rightarrow> u64 \<Rightarrow> addr \<Rightarrow> (outcome \<times> 'z kernel_scheme) option" where
  "kmain a call l s hartid fdt =
     do {
       (_, s1) \<leftarrow> register_early_putchar s (uart_putchar l);
       (s2, _) \<leftarrow> (case a of
           RISCV \<Rightarrow> printk s1 (Lit (bytes_of ''Running on hart (%c)\<newline>'')) [VInt (ucast (ucast hartid :: byte) + 48)]
         | ARM64 \<Rightarrow> Some (s1, 0));
       (if fdt_verify s2 fdt \<noteq> FDT_VALID then
          do {
            (s3, _) \<leftarrow> printk s2 (Lit (bytes_of ''Cannot Read the FDT!\<newline>'')) [];
            map_option (Pair (Stopped Panicked)) (abort s3)
          }
        else do {
          (syscon_reboot_ok, syscon_shutdown_ok, s3) \<leftarrow> boot_setup l s2 fdt;
          s4 \<leftarrow> preinit call l s3;
          s5 \<leftarrow> init call l s4;
          (k, s6) \<leftarrow> main_loop syscon_reboot_ok syscon_shutdown_ok s5;
          finish call l k s6
        })
     }"

text \<open>The \<^verbatim>\<open>kmain\<close> of \<^verbatim>\<open>arch/arm64/kernel.c\<close>, which has no hart to print.\<close>

definition kmain_arm64 ::
  "'z fptr \<Rightarrow> linked \<Rightarrow> 'z kernel_scheme \<Rightarrow> addr \<Rightarrow> (outcome \<times> 'z kernel_scheme) option" where
  "kmain_arm64 call l s fdt =
     do {
       (_, s1) \<leftarrow> register_early_putchar s (uart_putchar l);
       (if fdt_verify s1 fdt \<noteq> FDT_VALID then
          do {
            (s2, _) \<leftarrow> printk s1 (Lit (bytes_of ''Cannot Read the FDT!\<newline>'')) [];
            map_option (Pair (Stopped Panicked)) (abort s2)
          }
        else do {
          (syscon_reboot_ok, syscon_shutdown_ok, s2) \<leftarrow> boot_setup l s1 fdt;
          s3 \<leftarrow> preinit call l s2;
          s4 \<leftarrow> init call l s3;
          (k, s5) \<leftarrow> main_loop syscon_reboot_ok syscon_shutdown_ok s4;
          finish call l k s5
        })
     }"

text \<open>So every fact about \<^verbatim>\<open>kmain\<close> at \<^verbatim>\<open>ARM64\<close> is one about the kernel for that architecture.\<close>

lemma kmain_arm64_eq: "kmain_arm64 call l s fdt = kmain ARM64 call l s hartid fdt"
  by (simp add: kmain_def kmain_arm64_def)

lemma uart_stores_eq: "uart_stores a l s = map (Pair (UART a)) (sent_to (uart_putchar l) s)"
  by (simp add: uart_stores_def dead_simple_uart_putchar_def fun_eq_iff)

section \<open>The dump of the tree\<close>

text \<open>The line of a node: a tab for each ancestor, and its name.\<close>

fun node_line :: "token list \<times> int \<Rightarrow> byte list" where
  "node_line (BeginNode nm # us, d) = replicate (nat d) 9 @ shown_name nm @ bytes_of [CHR 0x0A]"
| "node_line (us, d) = []"

definition dump_text :: "token list \<Rightarrow> addr \<Rightarrow> byte list" where
  "dump_text ts fdt = bytes_of ''FDT = ('' @ hex_text fdt @ bytes_of '') {\<newline>'' @
     concat (map node_line (node_list 0 ts)) @ bytes_of ''}\<newline>''"

lemma tabs_loop_eq: "tabs_loop n s = Some (emit s (replicate n 9))"
proof (induction n arbitrary: s)
  case (Suc n)
  have "do { (s', _) \<leftarrow> printk s (Lit (bytes_of [CHR 0x09])) []; tabs_loop n s' } = tabs_loop n (emit s [9])"
    by (rule printk_then) (simp_all add: bytes_of_def)
  then show ?case by (simp add: Suc)
qed simp

lemma name_printk:
  assumes "cstr s p cs"
  shows "do { (s', _) \<leftarrow> printk s (Lit (bytes_of ''%s\<newline>'')) [VStr p]; f s' } = f (emit s (cs @ bytes_of [CHR 0x0A]))"
proof -
  have "printk s (Lit (bytes_of ''%s\<newline>'')) [VStr p] =
      Some (emit s (cs @ bytes_of [CHR 0x0A]), of_nat (length (cs @ bytes_of [CHR 0x0A])))"
    unfolding printk_def
  proof (rule early_sink.formatted_print_eq [where str = "\<lambda>_. cs"])
    show "cstr s (Lit (bytes_of ''%s\<newline>'')) (bytes_of ''%s\<newline>'')" by (simp add: cstr_def bytes_of_def)
  qed (use assms in \<open>simp_all add: bytes_of_def\<close>)
  then show ?thesis by simp
qed

lemma dump_nodes_eq:
  assumes "has_blob s fdt es ts strs" and "suffix us ts" and "node_list d us = ns" and "list_all (\<lambda>(vs, e). 0 \<le> e) ns"
  shows "dump_nodes s fdt (first_ptr s fdt ts ns) (case ns of [] \<Rightarrow> d' | (_, e) # _ \<Rightarrow> e) =
    Some (emit s (concat (map node_line ns)))"
  using assms
proof (induction ns arbitrary: d us d' s)
  case Nil
  then show ?case by (simp add: dump_nodes.simps first_ptr_def)
next
  case (Cons n ns)
  obtain vs e where n: "n = (vs, e)" by force
  let ?s1 = "emit s (replicate (nat e) 9)" and ?s = "emit s (node_line (vs, e))"
  have b: "has_blob ?s fdt es ts strs" "has_blob ?s1 fdt es ts strs" using Cons.prems(1) by simp_all
  have same: "tok_ptr ?s fdt = tok_ptr s fdt" "tok_ptr ?s1 fdt = tok_ptr s fdt"
    by (rule has_blob_tok_ptr(1) [OF Cons.prems(1) b(1)], rule has_blob_tok_ptr(1) [OF Cons.prems(1) b(2)])
  from next_node_depth [OF blob_ok(2) [OF b(1)] Cons.prems(2) Cons.prems(3) [unfolded n]] obtain nm ws
    where vs: "vs = BeginNode nm # ws" "ns = node_list (e + 1) ws" "suffix (BeginNode nm # ws) ts"
      "tok_ptr s fdt ts vs \<noteq> NULL"
      "fdt_next_node ?s fdt (tok_ptr s fdt ts vs) (Some e) =
        Some (first_ptr ?s fdt ts ns, Some (case ns of [] \<Rightarrow> e | (_, f) # _ \<Rightarrow> f))" unfolding same .
  have name: "cstr ?s1 (fdt_node_name ?s1 (tok_ptr s fdt ts vs)) (shown_name nm)"
    using node_name_cstr [OF blob_ok(2) [OF b(2)] vs(3)] by (simp add: same(2) vs(1) shown_name_def)
  have line: "replicate (nat e) 9 @ shown_name nm @ bytes_of [CHR 0x0A] = node_line (vs, e)" by (simp add: vs(1))
  have "dump_nodes s fdt (tok_ptr s fdt ts vs) e =
      dump_nodes ?s fdt (first_ptr ?s fdt ts ns) (case ns of [] \<Rightarrow> e | (_, f) # _ \<Rightarrow> f)"
    using vs(4,5) Cons.prems(4)
    by (subst dump_nodes.simps) (simp add: tabs_loop_eq name_printk [OF name] line n del: node_line.simps)
  also have "\<dots> = Some (emit ?s (concat (map node_line ns)))"
    using Cons.IH [OF b(1) suffix_ConsD [OF vs(3)], of "e + 1" e] vs(2) Cons.prems(4) by simp
  finally show ?case by (simp add: n first_ptr_def)
qed

lemma fdt_dump_eq:
  assumes "has_blob s fdt es ts strs" and "wf_tree ts"
  shows "fdt_dump s fdt = Some (emit s (dump_text ts fdt))"
proof -
  let ?s = "emit s (bytes_of ''FDT = ('' @ hex_text fdt @ bytes_of '') {\<newline>'')"
  have b: "has_blob ?s fdt es ts strs" using assms(1) by simp
  have same: "first_ptr ?s fdt = first_ptr s fdt" 
    unfolding first_ptr_def has_blob_tok_ptr(1) [OF assms(1) b] by (rule refl)
  have d: "list_all (\<lambda>(vs, e). 0 \<le> e) (node_list 0 ts)"
    unfolding wf_tree_rooted(1) [OF assms(2)] by (auto simp: list_all_iff)
  have z: "(case node_list 0 ts of [] \<Rightarrow> 0 | (_, e) # _ \<Rightarrow> e) = 0"
    using wf_tree_rooted(2) [OF assms(2)] by (auto simp: rooted_def)
  have "fdt_node_begin s fdt = Some (first_ptr ?s fdt ts (node_list 0 ts))"
    using fdt_node_begin_eq [OF blob_ok(2) [OF assms(1)] wf_tree_rooted(3) [OF assms(2)]] by (simp add: same)
  moreover have "do { (s', _) \<leftarrow> printk s (Lit (bytes_of ''FDT = (%p) {\<newline>'')) [VPtr fdt]; f s' } = f ?s"
    for f :: "'a console_scheme \<Rightarrow> 'a console_scheme option"
    by (rule printk_then) (auto simp: bytes_of_def hex_text_def)
  moreover have "do { (s', _) \<leftarrow> printk t (Lit (bytes_of ''}\<newline>'')) []; f s' } = f (emit t (bytes_of ''}\<newline>''))"
    for t and f :: "'a console_scheme \<Rightarrow> 'a console_scheme option"
    by (rule printk_then) (auto simp: bytes_of_def)
  ultimately show ?thesis
    using dump_nodes_eq [OF b _ refl d, of 0] by (simp add: fdt_dump_def z dump_text_def)
qed

section \<open>Rounds of the loop\<close>

definition echo :: "byte \<Rightarrow> byte list" where
  "echo c = (if c = 0 then [] else [c])"

lemma ucast_byte [simp]: "ucast (ucast c :: u32) = (c :: byte)"
  by (rule bit_word_eqI) (auto simp: bit_simps)

lemma printk_char:
  fixes c :: byte
  shows "\<exists>k. printk s (Lit (bytes_of ''%c'')) [VInt (ucast c)] = Some (emit s (echo c), k)"
proof (cases "c = 0")
  case True
  have "early_puts s (Lit [0]) = Some s" by (simp add: early_puts_def early_puts_loop.simps)
  then show ?thesis
    unfolding printk_def formatted_print_def
    by (subst print_loop.simps, subst print_loop.simps)
      (simp add: True bytes_of_def print_char_def print_spec_def flush_buf_def printk_puts_def echo_def)
next
  case False
  have "printk s (Lit (bytes_of ''%c'')) [VInt (ucast c)] = Some (emit s [c], of_nat (length [c]))"
    unfolding printk_def
  proof (rule early_sink.formatted_print_eq [where str = "\<lambda>_. []"])
    show "cstr s (Lit (bytes_of ''%c'')) (bytes_of ''%c'')" by (simp add: cstr_def bytes_of_def)
  qed (use False in \<open>simp_all add: bytes_of_def\<close>)
  then show ?thesis using False by (auto simp: echo_def)
qed

lemma emit_uart [simp]:
  "uart_rx (emit s cs) = uart_rx s" "(emit s cs)\<lparr>uart_rx := rx\<rparr> = emit (s\<lparr>uart_rx := rx\<rparr>) cs"
  "shutdown_action (emit s cs) = shutdown_action s" "reboot_action (emit s cs) = reboot_action s"
  for s :: "'z kernel_scheme"
  by (simp_all add: emit_def active_def)

text \<open>What a key means to the loop.\<close>

definition command :: "bool \<Rightarrow> bool \<Rightarrow> byte \<Rightarrow> decision" where
  "command r d c =
     (if c = of_char CHR ''%'' then Quit else if c = of_char CHR ''!'' then Panic
      else if r \<and> c = of_char CHR ''^'' then Reboot else if d \<and> c = of_char CHR ''&'' then Shutdown else Continue)"

lemma wait_change_eq:
  "c \<noteq> c' \<Longrightarrow> uart_rx s = replicate n c @- c' ## rest \<Longrightarrow> wait_change s c = Some (s\<lparr>uart_rx := rest\<rparr>)"
proof (induction n arbitrary: s)
  case 0
  then show ?case by (subst wait_change.simps) (simp add: read_uart_def)
next
  case (Suc n)
  have "wait_change (s\<lparr>uart_rx := replicate n c @- c' ## rest\<rparr>) c =
      Some (s\<lparr>uart_rx := replicate n c @- c' ## rest\<rparr>\<lparr>uart_rx := rest\<rparr>)"
    using Suc.prems by (intro Suc.IH) simp_all
  then show ?case using Suc.prems by (subst wait_change.simps) (simp add: read_uart_def)
qed

lemma hold6: "replicate (n + 6) k @- rx = k ## k ## k ## k ## k ## k ## replicate n k @- rx"
proof -
  have "n + 6 = Suc (Suc (Suc (Suc (Suc (Suc n)))))" by simp
  then show ?thesis by (simp only: replicate_Suc shift.simps)
qed

lemma test_key_eq:
  "uart_rx s = c ## rx \<Longrightarrow>
    test_key enabled k s = (enabled \<and> c = of_char k, if enabled then s\<lparr>uart_rx := rx\<rparr> else s)"
  by (simp add: test_key_def read_uart_def)

text \<open>A round in which the key \<^term>\<open>k\<close> is read at least six times.\<close>

lemma round_held:
  assumes "uart_rx s = k ## k ## k ## k ## k ## k ## rx"
  shows "\<exists>rx'. round_step r d s =
    (if command r d k \<noteq> Continue then Some (command r d k, emit (s\<lparr>uart_rx := rx'\<rparr>) (echo k))
     else map_option (Pair Continue) (wait_change (emit (s\<lparr>uart_rx :=
       (if r then (if d then rx else k ## rx) else (if d then k ## rx else k ## k ## rx))\<rparr>) (echo k)) k))"
proof -
  obtain j where p: "printk (s\<lparr>uart_rx := k ## k ## k ## k ## k ## rx\<rparr>) (Lit (bytes_of ''%c'')) [VInt (ucast k)] =
      Some (emit (s\<lparr>uart_rx := k ## k ## k ## k ## k ## rx\<rparr>) (echo k), j)" using printk_char by blast
  show ?thesis
    by (auto simp: round_step_def read_uart_def [of s] read_uart_def [of "emit x y" for x y] assms p test_key_eq command_def
        simp del: of_char_of of_char_eq_iff)
qed

lemma round_command:
  assumes "uart_rx s = replicate (n + 6) k @- rest" and "command r d k \<noteq> Continue"
  shows "\<exists>rx. round_step r d s = Some (command r d k, emit (s\<lparr>uart_rx := rx\<rparr>) (echo k))"
  using round_held [OF assms(1) [unfolded hold6], of r d] assms(2) by simp

lemma round_echo:
  assumes "uart_rx s = replicate (n + 6) k @- k' ## rest" and "command r d k = Continue" and "k \<noteq> k'"
  shows "round_step r d s = Some (Continue, emit (s\<lparr>uart_rx := rest\<rparr>) (echo k))"
proof -
  let ?rx = "replicate n k @- k' ## rest"
  have w: "wait_change (emit (s\<lparr>uart_rx := replicate m k @- k' ## rest\<rparr>) (echo k)) k =
      Some (emit (s\<lparr>uart_rx := rest\<rparr>) (echo k))" for m
    using wait_change_eq [OF assms(3), of "emit (s\<lparr>uart_rx := replicate m k @- k' ## rest\<rparr>) (echo k)" m rest] by simp
  show ?thesis
    using round_held [OF assms(1) [unfolded hold6], of r d] assms(2) w [of n] w [of "Suc n"] w [of "Suc (Suc n)"]
    by (auto simp: command_def)
qed

text \<open>Keys typed one after the other, each seen by a number of reads.\<close>

fun typed :: "(byte \<times> nat) list \<Rightarrow> byte stream \<Rightarrow> byte stream" where
  "typed [] rx = rx"
| "typed ((k, n) # ks) rx = replicate n k @- typed ks rx"

definition ordinary :: "bool \<Rightarrow> bool \<Rightarrow> byte \<times> nat \<Rightarrow> bool" where
  "ordinary r d kn \<longleftrightarrow> command r d (fst kn) = Continue \<and> 7 \<le> snd kn"

lemma typed_head:
  assumes "list_all (\<lambda>kn. 7 \<le> snd kn) ks" and "ks \<noteq> []"
  shows "typed ks rest = fst (hd ks) ## stl (typed ks rest)"
proof -
  obtain k m ks' where "ks = (k, Suc m) # ks'" using assms by (cases ks; cases "snd (hd ks)") (auto simp: prod_eq_iff)
  then show ?thesis by simp
qed

lemma main_loop_typed:
  fixes s :: "'z kernel_scheme"
  assumes "list_all (ordinary r d) ks" and "command r d k \<noteq> Continue" and "7 \<le> n"
    and "distinct_adj (map fst ks @ [k])" and "uart_rx s = typed (ks @ [(k, n)]) rest \<or> uart_rx s = stl (typed (ks @ [(k, n)]) rest)"
  shows "\<exists>rx. main_loop r d s = Some (command r d k, emit (s\<lparr>uart_rx := rx\<rparr>) (concat (map echo (map fst ks @ [k]))))"
  using assms(1,4,5)
proof (induction ks arbitrary: s)
  case Nil
  obtain m where "n = Suc (m + 6)" using assms(3) by (intro that [of "n - 7"]) simp
  then have "uart_rx s = replicate (Suc m + 6) k @- rest \<or> uart_rx s = replicate (m + 6) k @- rest"
    using Nil.prems(3) by (auto simp: ac_simps)
  then obtain rx where "round_step r d s = Some (command r d k, emit (s\<lparr>uart_rx := rx\<rparr>) (echo k))"
    using round_command [OF _ assms(2)] by blast
  then show ?case using assms(2) by (subst main_loop.simps) auto
next
  case (Cons kn ks)
  let ?ks = "ks @ [(k, n)]"
  obtain j i where kn: "kn = (j, i)" by force
  have "ordinary r d (j, i)" and ks: "list_all (ordinary r d) ks" using Cons.prems(1) by (simp_all add: kn)
  then have j: "command r d j = Continue" "7 \<le> i" "list_all (ordinary r d) ks" by (simp_all add: ordinary_def [of r d "(j, i)"])
  obtain m where i: "i = Suc (m + 6)" using j(2) by (intro that [of "i - 7"]) simp
  have ne: "j \<noteq> fst (hd ?ks)" and da: "distinct_adj (map fst ks @ [k])"
    using Cons.prems(2) by (cases ks; simp add: kn)+
  have "list_all (\<lambda>kn. 7 \<le> snd kn) ?ks" using j(3) assms(3) by (auto simp: list_all_iff ordinary_def)
  then have "typed ?ks rest = fst (hd ?ks) ## stl (typed ?ks rest)" by (rule typed_head) simp
  then have "uart_rx s = replicate (Suc m + 6) j @- fst (hd ?ks) ## stl (typed ?ks rest) \<or>
      uart_rx s = replicate (m + 6) j @- fst (hd ?ks) ## stl (typed ?ks rest)"
    using Cons.prems(3) by (auto simp: kn i ac_simps)
  then have "round_step r d s = Some (Continue, emit (s\<lparr>uart_rx := stl (typed ?ks rest)\<rparr>) (echo j))"
    using round_echo [OF _ j(1) ne] by blast
  moreover obtain rx where "main_loop r d (emit (s\<lparr>uart_rx := stl (typed ?ks rest)\<rparr>) (echo j)) = Some (command r d k,
      emit (emit (s\<lparr>uart_rx := rx\<rparr>) (echo j)) (concat (map echo (map fst ks @ [k]))))"
    using Cons.IH [OF j(3) da, of "emit (s\<lparr>uart_rx := stl (typed ?ks rest)\<rparr>) (echo j)"] by auto
  ultimately show ?case by (subst main_loop.simps) (auto simp: kn)
qed

text \<open>A key that is never released: the loop waits for ever.\<close>

lemma wait_change_stuck:
  assumes "uart_rx s = sconst c"
  shows "wait_change s c = None"
proof (rule ccontr)
  assume "wait_change s c \<noteq> None"
  then obtain t where ret: "wait_change s c = Some t" by auto
  have "uart_rx s \<noteq> sconst c"
  proof (rule wait_change.raw_induct [where P = "\<lambda>s c t. uart_rx s \<noteq> sconst c", OF _ ret], rule notI)
    fix wc c t and s :: "'a kernel_scheme"
    assume IH: "\<And>s c t. wc s c = Some t \<Longrightarrow> uart_rx s \<noteq> sconst c"
      and eq: "(let (c', s') = read_uart s in if c = c' then wc s' c else Some s') = Some t" and rx: "uart_rx s = sconst c"
    then have "wc (s\<lparr>uart_rx := sconst c\<rparr>) c = Some t" by (simp add: read_uart_def)
    from IH [OF this] show False by simp
  qed
  then show False using assms by simp
qed

lemma sconst_unfold: "sconst c = c ## sconst c"
  by (subst siterate.code) simp

lemma main_loop_stuck:
  assumes "command r d k = Continue" and "uart_rx s = replicate n k @- sconst k"
  shows "main_loop r d s = None"
proof -
  have rx: "uart_rx s = sconst k" using assms(2) by (induction n) (simp_all flip: sconst_unfold)
  then have "uart_rx s = k ## k ## k ## k ## k ## k ## sconst k" using sconst_unfold [of k] by metis
  from round_held [OF this, of r d] have "round_step r d s = None"
    using assms(1) wait_change_stuck [of "emit (s\<lparr>uart_rx := sconst k\<rparr>) (echo k)" k]
    by (simp flip: sconst_unfold)
  then show ?thesis by (subst main_loop.simps) simp
qed

section \<open>What every round keeps\<close>

text \<open>The states in which the kernel is at the head of the loop.\<close>

inductive loops :: "bool \<Rightarrow> bool \<Rightarrow> 'z kernel_scheme \<Rightarrow> 'z kernel_scheme \<Rightarrow> bool" for r d where
  enter: "loops r d s s"
| again: "loops r d s t \<Longrightarrow> round_step r d t = Some (Continue, u) \<Longrightarrow> loops r d s u"

lemma wait_change_frame:
  assumes "wait_change s c = Some t"
  shows "\<exists>rx. t = s\<lparr>uart_rx := rx\<rparr>"
  by (rule wait_change.raw_induct [where P = "\<lambda>s c t. \<exists>rx. t = s\<lparr>uart_rx := rx\<rparr>", OF _ assms])
    (fastforce simp: read_uart_def split: if_splits)

lemma round_frame:
  assumes "round_step r d s = Some (k, t)"
  shows "\<exists>c rx. t = emit (s\<lparr>uart_rx := rx\<rparr>) (echo c)"
proof -
  obtain j where p: "printk (s\<lparr>uart_rx := stl (uart_rx s)\<rparr>) (Lit (bytes_of ''%c'')) [VInt (ucast (shd (uart_rx s)))] =
      Some (emit (s\<lparr>uart_rx := stl (uart_rx s)\<rparr>) (echo (shd (uart_rx s))), j)" using printk_char by blast
  then show ?thesis using assms
    by (auto simp: round_step_def test_key_def read_uart_def p Let_def dest!: wait_change_frame split: if_splits) blast+
qed

lemma loops_frame: "loops r d s t \<Longrightarrow> \<exists>cs rx. t = emit (s\<lparr>uart_rx := rx\<rparr>) cs"
proof (induction rule: loops.induct)
  case (enter s)
  have "s = emit (s\<lparr>uart_rx := uart_rx s\<rparr>) []" by simp
  then show ?case by blast
next
  case (again s t u)
  then obtain cs rx c rx' where "t = emit (s\<lparr>uart_rx := rx\<rparr>) cs" "u = emit (t\<lparr>uart_rx := rx'\<rparr>) (echo c)"
    using round_frame by blast
  then have "u = emit (s\<lparr>uart_rx := rx'\<rparr>) (cs @ echo c)" by simp
  then show ?case by blast
qed

section \<open>Arrays of functions\<close>

text \<open>The functions that matter only write to the console.\<close>

definition prints :: "'z fptr \<Rightarrow> addr \<Rightarrow> byte list \<Rightarrow> bool" where
  "prints call p cs \<longleftrightarrow> (\<forall>s. call p s = Some (emit s cs))"

lemma load64_emit [simp]: "load64 (emit s cs) a = load64 s a"
  by (simp add: load64_def read_bytes_def host_join_def)

lemma process_func_array_eq:
  assumes "\<And>i. i < length ps \<Longrightarrow> load64 s (a + of_nat (8 * i)) = ps ! i" and "list_all2 (prints call) ps css"
    and "8 * length ps < 2 ^ 64"
  shows "process_func_array call s a (a + of_nat (8 * length ps)) = Some (emit s (concat css))"
  using assms
proof (induction ps arbitrary: a s css)
  case Nil
  then show ?case by (simp add: process_func_array.simps)
next
  case (Cons p ps)
  then obtain cs css' where css: "css = cs # css'" "prints call p cs" "list_all2 (prints call) ps css'" by (auto simp: list_all2_Cons1)
  have "(of_nat (8 * Suc (length ps)) :: addr) \<noteq> 0" using Cons.prems(3) of_nat_inj64 [of "8 * Suc (length ps)" 0] by simp
  then have "a \<noteq> a + of_nat (8 * length (p # ps))" by simp
  moreover have "load64 s a = p" using Cons.prems(1) [of 0] by simp
  moreover have "process_func_array call (emit s cs) (a + 8) (a + 8 + of_nat (8 * length ps)) =
      Some (emit (emit s cs) (concat css'))"
    using Cons.prems(1) [of "Suc i" for i] Cons.prems(3) by (intro Cons.IH css(3)) (simp_all add: algebra_simps)
  ultimately show ?case using css(1,2)
    by (subst process_func_array.simps) (simp add: prints_def algebra_simps)
qed

section \<open>Properties\<close>

definition virt_kernel :: "byte stream \<Rightarrow> kernel" where
  "virt_kernel rx = sysc.extend virt_sysc \<lparr>uart_rx = rx\<rparr>"

lemma virt_kernel_blob: "has_blob (virt_kernel rx) virt_base virt_reserved virt_tokens virt_strings"
  by (rule has_blob_frame [OF virt_sysc_blob]) (simp_all add: virt_kernel_def sysc.defs)

lemma virt_kernel_rx [simp]: "uart_rx (virt_kernel rx) = rx"
  by (simp add: virt_kernel_def sysc.defs)

text \<open>C30. \<^verbatim>\<open>fdt_dump\<close> prints the tree: every node once, in document order, on a line of its own with one tab for each of
  its ancestors.  It changes nothing but the console.\<close>

theorem fdt_dump_correct:
  assumes "has_blob s fdt es ts strs" and "wf_tree ts"
  shows "fdt_dump s fdt = Some (emit s (bytes_of ''FDT = ('' @ hex_text fdt @ bytes_of '') {\<newline>'' @
    concat (map (\<lambda>(vs, anc). node_line (vs, int (length anc))) (anc_list [] ts)) @ bytes_of ''}\<newline>''))"
  using fdt_dump_eq [OF assms]
  by (simp add: dump_text_def wf_tree_rooted(1) [OF assms(2)] comp_def case_prod_unfold)

theorem fdt_dump_correct_witness:
  "fdt_dump (virt_kernel (sconst 0)) virt_base = Some (emit (virt_kernel (sconst 0))
     (bytes_of ''FDT = ('' @ hex_text virt_base @ bytes_of '') {\<newline>'' @
      bytes_of ''{DEBUG: Nameless Node}\<newline>'' @ 9 # bytes_of ''poweroff\<newline>'' @ 9 # bytes_of ''memory@80000000\<newline>'' @
      9 # bytes_of ''soc\<newline>'' @ 9 # 9 # bytes_of ''test@100000\<newline>'' @ bytes_of ''}\<newline>''))"
proof -
  have "map (\<lambda>(vs, anc). node_line (vs, int (length anc))) (anc_list [] virt_tokens) =
      [bytes_of ''{DEBUG: Nameless Node}\<newline>'', 9 # bytes_of ''poweroff\<newline>'', 9 # bytes_of ''memory@80000000\<newline>'',
       9 # bytes_of ''soc\<newline>'', 9 # 9 # bytes_of ''test@100000\<newline>'']"
    by (simp add: virt_defs) (simp add: shown_name_def bytes_of_def numeral_2_eq_2)
  then show ?thesis
    unfolding fdt_dump_correct [OF virt_kernel_blob virt_tree(1)] by (simp del: map_eq_conv)
qed

text \<open>C16. Keys that are no commands are echoed, each once and in the order typed, and the first command ends the loop
  with its meaning: \<^verbatim>\<open>%\<close> leaves it, \<^verbatim>\<open>!\<close> panics, \<^verbatim>\<open>^\<close> reboots and \<^verbatim>\<open>&\<close> shuts down where the action is enabled.  A key
  must differ from the one before and stay for seven reads of the UART.  Nothing but the console changes.\<close>

theorem main_loop_correct:
  assumes "list_all (ordinary r d) ks" and "command r d k \<noteq> Continue" and "7 \<le> n"
    and "distinct_adj (map fst ks @ [k])"
  shows "\<exists>rx. main_loop r d (s\<lparr>uart_rx := typed (ks @ [(k, n)]) rest\<rparr>) =
    Some (command r d k, emit (s\<lparr>uart_rx := rx\<rparr>) (concat (map echo (map fst ks @ [k]))))"
  using main_loop_typed [OF assms, of "s\<lparr>uart_rx := typed (ks @ [(k, n)]) rest\<rparr>" rest] by auto

theorem main_loop_correct_witness:
  "\<exists>rx. main_loop False True (virt_kernel (typed [(104, 9), (105, 7), (94, 8), (38, 7)] (sconst 0))) =
     Some (Shutdown, emit (virt_kernel rx) [104, 105, 94, 38])"
proof -
  have "(virt_kernel (sconst 0))\<lparr>uart_rx := rx\<rparr> = virt_kernel rx" for rx by (simp add: virt_kernel_def sysc.defs)
  then show ?thesis
    using main_loop_correct [of False True "[(104, 9), (105, 7), (94, 8)]" 38 7 "sconst 0" "virt_kernel (sconst 0)"]
    by (simp add: ordinary_def command_def echo_def)
qed

text \<open>C29. A key that is no command: the loop echoes it once and then waits exactly as long as the key is held, for any number of
  reads; if it is never released the loop waits for ever, so that it does not return.\<close>

theorem main_loop_waits:
  assumes "command r d k = Continue"
  shows "(\<forall>n k' rest. 6 \<le> n \<and> k' \<noteq> k \<longrightarrow> main_loop r d (s\<lparr>uart_rx := replicate n k @- k' ## rest\<rparr>) =
      main_loop r d (emit (s\<lparr>uart_rx := rest\<rparr>) (echo k))) \<and>
    main_loop r d (s\<lparr>uart_rx := sconst k\<rparr>) = None"
proof (intro conjI allI impI)
  fix n :: nat and k' rest
  assume n: "6 \<le> n \<and> k' \<noteq> k"
  then have rx: "uart_rx (s\<lparr>uart_rx := replicate n k @- k' ## rest\<rparr>) = replicate (n - 6 + 6) k @- k' ## rest" by simp
  have "k \<noteq> k'" using n by blast
  from round_echo [OF rx assms this]
  show "main_loop r d (s\<lparr>uart_rx := replicate n k @- k' ## rest\<rparr>) = main_loop r d (emit (s\<lparr>uart_rx := rest\<rparr>) (echo k))"
    by (subst main_loop.simps) simp
qed (use main_loop_stuck [OF assms, of "s\<lparr>uart_rx := sconst k\<rparr>" 0] in simp)

theorem main_loop_waits_witness:
  "main_loop True True (virt_kernel (sconst 65)) = None \<and>
   main_loop True True (virt_kernel (replicate 1000 65 @- 66 ## sconst 66)) = main_loop True True (emit (virt_kernel (sconst 66)) [65])"
proof -
  have "(virt_kernel (sconst 0))\<lparr>uart_rx := rx\<rparr> = virt_kernel rx" for rx by (simp add: virt_kernel_def sysc.defs)
  then show ?thesis using main_loop_waits [of True True 65 "virt_kernel (sconst 0)"]
    by (simp add: command_def echo_def)
qed

text \<open>Invariant: whatever the UART delivers, at the head of every round of the loop memory, the free list, the two actions
  and the table of callbacks are what they were when the loop was entered, and the console has only been appended to,
  the same characters for every callback.\<close>

theorem loops_invariant:
  assumes "loops r d s t"
  shows "mem t = mem s \<and> boot_free_list t = boot_free_list s \<and> shutdown_action t = shutdown_action s \<and>
    reboot_action t = reboot_action s \<and> early_putchar_array t = early_putchar_array s \<and>
    (\<exists>cs. console_log t = console_log s @ broadcast (active s) cs)"
proof -
  obtain cs rx where "t = emit (s\<lparr>uart_rx := rx\<rparr>) cs" using loops_frame [OF assms] by blast
  then show ?thesis by (auto simp: emit_def active_def)
qed

theorem loops_invariant_witness:
  "\<exists>t. loops True True (virt_kernel (replicate 6 65 @- 66 ## sconst 66)) t \<and>
     uart_rx t = sconst 66 \<and> mem t = mem (virt_kernel (sconst 0))"
proof -
  let ?s = "virt_kernel (replicate 6 65 @- 66 ## sconst 66)"
  let ?t = "emit (?s\<lparr>uart_rx := sconst 66\<rparr>) (echo 65)"
  have "round_step True True ?s = Some (Continue, ?t)"
    using round_echo [of ?s 0 65 66 "sconst 66" True True] by (simp add: command_def)
  then have l: "loops True True ?s ?t" by (rule loops.again [OF loops.enter])
  have "mem ?s = mem (virt_kernel (sconst 0))" by (simp add: virt_kernel_def sysc.defs)
  then show ?thesis using loops_invariant [OF l] l by (intro exI [of _ ?t]) simp
qed

end
