(* ===== verification/Fdt_Malformed.thy ===== *)
theory Fdt_Malformed
  imports Fdt_Robust Kernel
begin

text \<open>
  More of \<^verbatim>\<open>kernel/of/fdt.c\<close> and of \<^verbatim>\<open>fdt_dump\<close> on trees that are not well-formed: what still returns, and what a malformed tree
  makes the code do.
\<close>

section \<open>The dump of any tree\<close>

text \<open>What the functions read depends on the memory, the byte order and the configuration only.\<close>

lemma machine_frame:
  fixes s :: "'y machine_scheme" and t :: "'z machine_scheme"
  assumes "mem t = mem s" and "byte_order t = byte_order s" and "config t = config s"
  shows "be32toh t = be32toh s" and "load32 t = load32 s" and "fdt_at t = fdt_at s" and "bounded t fdt z = bounded s fdt z"
proof -
  have h: "host_bytes t 2 x = host_bytes s 2 x" for x :: u16 using assms(2) by (simp add: host_bytes_def)
  then have "sys_little_endian t = sys_little_endian s" "sys_big_endian t = sys_big_endian s"
    using assms(3) by (simp_all add: sys_little_endian_def sys_big_endian_def split: endian_config.splits)
  then show b: "be32toh t = be32toh s" by (simp add: be32toh_def fun_eq_iff)
  show l: "load32 t = load32 s" using assms(1,2) by (simp add: fun_eq_iff load32_def read_bytes_def host_join_def)
  then show a: "fdt_at t = fdt_at s" by (simp add: fun_eq_iff fdt_at_def)
  show "bounded t fdt z = bounded s fdt z" using assms(1) by (simp add: bounded_def struct_end_def fdt_token_begin_def b a)
qed

lemmas frame_emit [simp] = machine_frame [of "emit s cs" s for s cs, OF emit_frame(1-3)]

lemma token_at_emit [simp]: "token_at (emit s cs) fdt k p = token_at s fdt k p"
  by (simp add: token_at_def fdt_struct_ptr_invalid_def)

lemma node_name_bounded:
  assumes "node_at s fdt z p"
  shows "\<exists>cs. cstr s (fdt_node_name s p) cs"
proof (cases "mem s (p + 4) = 0")
  case True
  have "cstr s (Lit (bytes_of ''{DEBUG: Nameless Node}'')) (bytes_of ''{DEBUG: Nameless Node}'')"
    by (simp add: cstr_def bytes_of_def)
  then show ?thesis using True by (auto simp: fdt_node_name_def)
next
  case False
  have p: "place s fdt z p" using token_place [OF assms] .
  then have "unat p + 4 \<le> unat z" "unat z < 2 ^ 63" "mem s z = 0" using in_block_iff [of s fdt z p] by (auto simp: bounded_def)
  moreover from this have "unat (p + 4) = unat p + 4" using unat_add_nowrap [of p 4] by simp
  moreover from this have "p + 4 \<noteq> NULL" by auto
  ultimately show ?thesis using cstr_bounded [of "p + 4" z s] False by (auto simp: fdt_node_name_def)
qed

lemma dump_nodes_ends:
  fixes s :: "'z console_scheme"
  assumes "p \<noteq> NULL \<Longrightarrow> node_at s fdt z p"
  shows "\<exists>cs'. dump_nodes (emit s cs) fdt p depth = Some (emit s cs')"
proof (cases "p = NULL")
  case True
  then show ?thesis by (auto simp: dump_nodes.simps)
next
  case False
  then have "node_at s fdt z p" using assms by simp
  then show ?thesis
  proof (induction p arbitrary: cs depth rule: node_walk.walk_induct)
    case (place p)
    show ?case
    proof (cases "0 \<le> depth")
      case True
      let ?s1 = "emit s (cs @ replicate (nat depth) 9)"
      obtain nm where nm: "cstr ?s1 (fdt_node_name ?s1 p) nm" using node_name_bounded [of ?s1 fdt z p] place(1) by auto
      let ?cs = "(cs @ replicate (nat depth) 9) @ nm @ bytes_of [CHR 0x0A]"
      let ?s2 = "emit s ?cs"
      obtain q d where q: "fdt_next_node ?s2 fdt p (Some depth) = Some (q, d)" "q \<noteq> NULL \<longrightarrow> node_at s fdt z q \<and> unat p < unat q"
        using iterators_pass(1) [OF token_place, of ?s2 fdt z FDT_BEGIN_NODE p "Some depth"] place(1) by (auto simp: passes_def)
      have "dump_nodes (emit s cs) fdt p depth = dump_nodes ?s2 fdt q (the d)"
        using True place_not_null [OF token_place [OF place(1)]] q(1)
        by (subst dump_nodes.simps) (simp add: tabs_loop_eq name_printk [OF nm])
      then show ?thesis
        using q(2) place(2) [of q ?cs "the d"] by (cases "q = NULL") (auto simp: dump_nodes.simps [of _ _ NULL])
    qed (auto simp: dump_nodes.simps)
  qed
qed

lemma fdt_dump_ends:
  fixes s :: "'z console_scheme"
  assumes "bounded s fdt z"
  shows "\<exists>cs. fdt_dump s fdt = Some (emit s cs)"
proof -
  let ?c = "bytes_of ''FDT = ('' @ hex_text fdt @ bytes_of '') {\<newline>''"
  obtain p where p: "fdt_node_begin s fdt = Some p" "p \<noteq> NULL \<Longrightarrow> node_at s fdt z p"
    using node_begin_reaches [OF assms] assms by (auto simp: reaches_def)
  from dump_nodes_ends [OF p(2), where cs = ?c and depth = 0] obtain cs where
    d: "dump_nodes (emit s ?c) fdt p 0 = Some (emit s cs)" by blast
  have "do { (s', _) \<leftarrow> printk s (Lit (bytes_of ''FDT = (%p) {\<newline>'')) [VPtr fdt]; f s' } = f (emit s ?c)"
    for f :: "'z console_scheme \<Rightarrow> 'z console_scheme option"
    by (rule printk_then) (auto simp: bytes_of_def hex_text_def)
  moreover have "do { (s', _) \<leftarrow> printk t (Lit (bytes_of ''}\<newline>'')) []; f s' } = f (emit t (bytes_of ''}\<newline>''))"
    for t and f :: "'z console_scheme \<Rightarrow> 'z console_scheme option"
    by (rule printk_then) (auto simp: bytes_of_def)
  ultimately show ?thesis using p(1) d by (simp add: fdt_dump_def) blast
qed

section \<open>Unbalanced trees\<close>

text \<open>The loop of \<^verbatim>\<open>fdt_node_get_parents\<close> stores outside of its array at the first node with a negative depth.\<close>

lemma parents_loop_outside:
  assumes "fdt_struct s fdt ts" and "suffix us ts" and "node_list d us = xs @ (vs, e) # ys" and "e < 0"
    and "\<forall>(ws, f) \<in> set xs. 0 \<le> f \<and> f \<le> m" and "\<forall>(ws, f) \<in> set (xs @ [(vs, e)]). tok_ptr s fdt ts ws \<noteq> p"
  shows "parents_loop s fdt p m (first_ptr s fdt ts (node_list d us)) (case node_list d us of [] \<Rightarrow> d' | (_, f) # _ \<Rightarrow> f) br =
    Some (Inl e)"
  using assms(2,3,5,6)
proof (induction xs arbitrary: d us d' br)
  case Nil
  from next_node_depth [OF assms(1) Nil(1) Nil(2) [simplified]] have "tok_ptr s fdt ts vs \<noteq> NULL" by blast
  then show ?case using Nil assms(4) by (subst parents_loop.simps) (simp add: first_ptr_def)
next
  case (Cons x xs)
  obtain ws f where x: "x = (ws, f)" by force
  have l: "node_list d us = (ws, f) # xs @ (vs, e) # ys" using Cons.prems(2) x by simp
  from next_node_depth [OF assms(1) Cons.prems(1) l] obtain nm zs
    where vs: "ws = BeginNode nm # zs" "xs @ (vs, e) # ys = node_list (f + 1) zs" "suffix (BeginNode nm # zs) ts"
      "tok_ptr s fdt ts ws \<noteq> NULL"
      "fdt_next_node s fdt (tok_ptr s fdt ts ws) (Some f) = Some (first_ptr s fdt ts (xs @ (vs, e) # ys),
        Some (case xs @ (vs, e) # ys of [] \<Rightarrow> f | (_, g) # _ \<Rightarrow> g))" .
  have "parents_loop s fdt p m (first_ptr s fdt ts (xs @ (vs, e) # ys)) (case xs @ (vs, e) # ys of [] \<Rightarrow> f | (_, g) # _ \<Rightarrow> g) br' =
      Some (Inl e)" for br'
    using Cons.IH [OF suffix_ConsD [OF vs(3)] vs(2) [symmetric], of f br'] Cons.prems(3,4) vs(2) by simp
  then show ?case using vs(4,5) Cons.prems(3,4)
    by (subst parents_loop.simps) (simp add: l first_ptr_def x)
qed

section \<open>Lists of strings that are not terminated\<close>

definition lines :: "byte list list \<Rightarrow> byte list" where
  "lines xs = concat (map (\<lambda>x. x @ [0]) xs)"

lemma compatible_overrun:
  assumes "holds s a (lines (xs @ [cs]))" and "cstr s c cs" and "list_all (\<lambda>x. 0 \<notin> set x) xs"
    and "a \<noteq> NULL" and "unat a + length (lines (xs @ [cs])) < 2 ^ 64"
    and "\<forall>k \<le> length xs. n \<noteq> of_nat (length (lines (take k xs)))"
  shows "compatible_loop s c n a = Some True"
  using assms(1,3-6)
proof (induction xs arbitrary: a n)
  case Nil
  then have n: "n \<noteq> 0" by (simp add: lines_def)
  have a: "cstr s (Mem a) cs" using Nil assms(2) by (simp add: cstr_def lines_def)
  then show ?case using n strlen_cstr [OF a] strcmp_cstr [OF a assms(2)]
    by (subst compatible_loop.simps) (simp add: word_gt_0 str_diff_eq_0 cstr_def)
next
  case (Cons x xs)
  have l: "lines ((x # xs) @ [cs]) = x @ 0 # lines (xs @ [cs])" by (simp add: lines_def)
  have a: "cstr s (Mem a) x" using Cons.prems l by (simp add: cstr_def)
  let ?a = "a + of_nat (Suc (length x))"
  have n: "n \<noteq> 0" using Cons.prems(5) [rule_format, of 0] by (simp add: lines_def)
  have "unat ?a = unat a + Suc (length x)" using Cons.prems(4) l by (intro unat_add_nowrap) simp
  moreover have "?a \<noteq> NULL" using Cons.prems(3,4) l by (intro offset_not_null) auto
  moreover have "n - of_nat (Suc (length x)) \<noteq> of_nat (length (lines (take k xs)))" if "k \<le> length xs" for k
  proof
    assume "n - of_nat (Suc (length x)) = of_nat (length (lines (take k xs)))"
    then have "n = of_nat (length (lines (take (Suc k) (x # xs))))" by (simp add: lines_def diff_eq_eq algebra_simps)
    then show False using Cons.prems(5) [rule_format, of "Suc k"] that by simp
  qed
  ultimately have "compatible_loop s c (n - of_nat (Suc (length x))) ?a = Some True"
    using Cons.prems l by (intro Cons.IH) (simp_all add: add.assoc [symmetric] add.commute)
  then show ?case using n strlen_cstr [OF a] strcmp_cstr [OF a assms(2)]
    by (subst compatible_loop.simps) (simp add: word_gt_0 add.commute)
qed

text \<open>A property of a tree and all that follows it in the structure block.\<close>

lemma prop_and_rest:
  assumes "fdt_struct s fdt ts" and "suffix (Prop off v # ws) ts"
  defines "p \<equiv> fdt_prop_val (tok_ptr s fdt ts (Prop off v # ws))" and "rest \<equiv> v @ pad (length v) @ toks_bytes ws"
  shows "holds s p rest" and "unat p + length rest < 2 ^ 64" and "length rest < 2 ^ 32"
proof -
  obtain pre where ts: "ts = pre @ Prop off v # ws" using assms(2) by (auto simp: suffix_def)
  let ?b = "fdt_token_begin s fdt" and ?n = "length (toks_bytes pre) + 12"
  have all: "holds s ?b (toks_bytes pre @ tok_bytes (Prop off v) @ toks_bytes ws)"
    "unat ?b + length (toks_bytes ts) < 2 ^ 64" "length (toks_bytes ts) < 2 ^ 32"
    using assms(1) by (simp_all add: fdt_struct_def ts)
  have len: "length (toks_bytes ts) = ?n + length rest" by (simp add: ts rest_def tok_bytes_def)
  have p: "p = ?b + of_nat ?n" by (simp add: p_def fdt_prop_val_def tok_ptr_suffix [OF ts] add.assoc)
  show "holds s p rest" using all(1) unfolding p rest_def by (simp add: tok_bytes_def add.assoc)
  have "unat p = unat ?b + ?n" unfolding p using all(2) len by (intro unat_add_nowrap) simp
  then show "unat p + length rest < 2 ^ 64" using all(2) len by simp
  show "length rest < 2 ^ 32" using all(3) len by simp
qed

lemma lines_take_le: "length (lines (take k xs)) \<le> length (lines (xs @ ys))"
proof -
  have "lines xs = lines (take k xs) @ lines (drop k xs)" by (metis lines_def append_take_drop_id concat_append map_append)
  then have "length (lines (take k xs)) \<le> length (lines xs)" by simp
  then show ?thesis by (simp add: lines_def)
qed

section \<open>A malformed tree\<close>

text \<open>The value of \<^verbatim>\<open>compatible\<close> has no terminator, and an end-node token too many puts a node above the root.\<close>

definition odd_tokens :: "token list" where
  "odd_tokens = [BeginNode [], Prop 0 (bytes_of ''abcd''), Prop 11 [0, 120, 0, 0], EndNode, EndNode,
     BeginNode [97], BeginNode [98], EndNode, End]"

definition odd_machine :: console where
  "odd_machine = machine.extend (blob_machine virt_base (fdt_bytes [] odd_tokens virt_strings))
     \<lparr>early_putchar_array = [0x80000100, 0, 0, 0, 0, 0, 0, 0], console_log = []\<rparr>"

lemma odd_blob: "has_blob odd_machine virt_base [] odd_tokens virt_strings"
proof -
  have "length (fdt_bytes [] odd_tokens virt_strings) < 1024"
    by (simp add: fdt_bytes_def odd_tokens_def virt_strings_def length_tok_bytes)
  then have "wf_blob virt_base [] odd_tokens virt_strings"
    by (simp add: wf_blob_def virt_base_def) (simp add: odd_tokens_def virt_strings_def cstring_def bytes_of_def)
  from has_blob_machine [OF this] show ?thesis
    by (rule has_blob_frame) (simp_all add: odd_machine_def machine.defs)
qed

section \<open>Properties\<close>

text \<open>C21. Whatever bytes the structure block holds, \<^verbatim>\<open>fdt_dump\<close> returns and has only written to the console.\<close>

theorem fdt_dump_total:
  fixes s :: "'z console_scheme"
  assumes "bounded s fdt z"
  shows "\<exists>cs. fdt_dump s fdt = Some (emit s cs)"
  using assms by (rule fdt_dump_ends)

theorem fdt_dump_total_witness:
  "\<exists>cs. fdt_dump (machine.extend noise \<lparr>early_putchar_array = [], console_log = []\<rparr>) 8 =
     Some (emit (machine.extend noise \<lparr>early_putchar_array = [], console_log = []\<rparr>) cs)"
proof -
  let ?s = "machine.extend noise \<lparr>early_putchar_array = [], console_log = []\<rparr> :: console"
  have "bounded ?s 8 0x10000000" using machine_frame(4) [of ?s noise] noise_bounded(1) by (simp add: machine.defs)
  then show ?thesis by (rule fdt_dump_total)
qed

text \<open>C38. In a tree with too many end-node tokens a node can have a negative depth.  For every node behind the first such node \<^verbatim>\<open>fdt_node_get_parents\<close>
  stores in front of its array: the tree passes the check of the greatest depth, and the loop comes to the store to
  \<^verbatim>\<open>curr_branch[depth]\<close> with the negative depth as its index.\<close>

theorem fdt_node_get_parents_unbalanced:
  assumes "fdt_struct s fdt ts" and "rooted ts" and "node_list 0 ts = xs @ (vs, e) # ys" and "e < 0"
    and "\<forall>(ws, f) \<in> set xs. 0 \<le> f" and "suffix us ts" and "us \<notin> fst ` set (xs @ [(vs, e)])"
  shows "\<exists>m cur. fdt_max_depth s fdt = Some m \<and> 0 \<le> m \<and> fdt_node_begin s fdt = Some cur \<and>
    parents_loop s fdt (tok_ptr s fdt ts us) m cur 0 Map.empty = Some (Inl e) \<and>
    fdt_node_get_parents s fdt (tok_ptr s fdt ts us) parents_len = None"
proof -
  let ?m = "Max (snd ` set (node_list 0 ts))"
  have ne: "ts \<noteq> []" using assms(3) by auto
  have apart: "tok_ptr s fdt ts ws \<noteq> tok_ptr s fdt ts us" if "(ws, f) \<in> set (xs @ [(vs, e)])" for ws f
  proof
    assume eq: "tok_ptr s fdt ts ws = tok_ptr s fdt ts us"
    have "suffix ws ts" using that assms(3) node_list_suffix [of ws f 0 ts] by auto
    from tok_ptr_inj [OF assms(1) this assms(6) eq] show False using that assms(7) by force
  qed
  obtain ws ns where r: "node_list 0 ts = (ws, 0) # ns" using assms(2) by (auto simp: rooted_def)
  have max: "f \<le> ?m" if "(ws, f) \<in> set (node_list 0 ts)" for ws f using that by (intro Max_ge) (auto intro: rev_image_eqI)
  then have "\<forall>(ws, f) \<in> set xs. 0 \<le> f \<and> f \<le> ?m" using assms(3,5) by auto
  from parents_loop_outside [OF assms(1) suffix_order.refl assms(3,4) this, of "tok_ptr s fdt ts us" 0 Map.empty] apart
  have "parents_loop s fdt (tok_ptr s fdt ts us) ?m (first_ptr s fdt ts (node_list 0 ts)) 0 Map.empty = Some (Inl e)" by (auto simp: r)
  moreover have "0 \<le> ?m" by (rule max [of ws]) (simp add: r)
  ultimately show ?thesis
    using fdt_max_depth_eq [OF assms(1,2)] fdt_node_begin_eq [OF assms(1) ne, of 0] by (simp add: fdt_node_get_parents_def)
qed

theorem fdt_node_get_parents_unbalanced_witness:
  "\<exists>m cur. parents_loop odd_machine virt_base (tok_ptr odd_machine virt_base odd_tokens (drop 6 odd_tokens)) m cur 0 Map.empty =
      Some (Inl (- 1)) \<and>
    fdt_node_get_parents odd_machine virt_base (tok_ptr odd_machine virt_base odd_tokens (drop 6 odd_tokens)) 4 = None"
proof -
  have hyps: "fdt_struct odd_machine virt_base odd_tokens" "rooted odd_tokens"
    "node_list 0 odd_tokens = [(odd_tokens, 0)] @ (drop 5 odd_tokens, - 1) # [(drop 6 odd_tokens, 0)]" "(- 1 :: int) < 0"
    "\<forall>(ws, f) \<in> set [(odd_tokens, 0 :: int)]. 0 \<le> f" "suffix (drop 6 odd_tokens) odd_tokens"
    "drop 6 odd_tokens \<notin> fst ` set ([(odd_tokens, 0)] @ [(drop 5 odd_tokens, - 1 :: int)])"
    using blob_ok(2) [OF odd_blob] suffix_drop [of 6 odd_tokens] by (simp_all add: rooted_def odd_tokens_def)
  show ?thesis using fdt_node_get_parents_unbalanced [OF hyps, of 4] by blast
qed

text \<open>C39. If no string of a \<^verbatim>\<open>compatible\<close> value ends where the value ends, \<^verbatim>\<open>fdt_node_is_compatible\<close> reads on in the tokens that
  follow, and says yes to a string that starts behind the property.\<close>

theorem fdt_node_is_compatible_overrun:
  assumes "fdt_struct s fdt ts" and "fdt_strings s fdt strs" and "cstr s c cs" and "suffix (BeginNode nm # us) ts"
    and "find (named strs (bytes_of ''compatible'')) (prop_list us) = Some (Prop off v # ws)"
    and "prefix (lines (xs @ [cs])) (v @ pad (length v) @ toks_bytes ws)" and "list_all (\<lambda>x. 0 \<notin> set x) xs"
    and "length v < length (lines xs)" and "\<forall>k \<le> length xs. length v \<noteq> length (lines (take k xs))"
  shows "fdt_node_is_compatible s fdt (tok_ptr s fdt ts (BeginNode nm # us)) c = Some True"
proof -
  let ?vs = "Prop off v # ws" and ?l = "lines (xs @ [cs])"
  let ?p = "tok_ptr s fdt ts ?vs"
  have "?vs \<in> set (prop_list us)" using find_SomeD [OF assms(5)] by simp
  then have sfx: "suffix ?vs ts" using prop_list_suffix suffix_ConsD [OF assms(4)] suffix_order.trans by blast
  note rest = prop_and_rest [OF assms(1) sfx]
  obtain zs where zs: "v @ pad (length v) @ toks_bytes ws = ?l @ zs" using assms(6) by (auto elim: prefixE)
  have p: "?p \<noteq> NULL" "fdt_prop_val_len s ?p = of_nat (length v)" "fdt_prop_val ?p \<noteq> NULL"
    using prop_fields [OF assms(1) sfx] tok_ptr_not_null [OF assms(1) sfx] by simp_all
  have h: "holds s (fdt_prop_val ?p) ?l" "length ?l < 2 ^ 32" "unat (fdt_prop_val ?p) + length ?l < 2 ^ 64"
    using rest unfolding zs by simp_all
  have "length v < 2 ^ 32" using rest(3) by simp
  then have "(of_nat (length v) :: size_t) \<noteq> of_nat (length (lines (take k xs)))" if "k \<le> length xs" for k
    using assms(9) that lines_take_le [of k xs "[cs]"] h(2)
    by (auto simp: word_unat_eq_iff unat_of_nat)
  then have "compatible_loop s c (of_nat (length v)) (fdt_prop_val ?p) = Some True"
    by (intro compatible_overrun [OF h(1) assms(3,7) p(3) h(3)]) blast
  then show ?thesis
    using fdt_get_prop_by_name_eq [OF assms(1,2) key_cstrs(1) assms(4)] assms(5) p(1,2)
    by (simp add: fdt_node_is_compatible_def prop_result_def)
qed

theorem fdt_node_is_compatible_overrun_witness:
  "node_prop virt_strings (bytes_of ''compatible'') odd_tokens = Some (bytes_of ''abcd'') \<and>
   fdt_node_is_compatible odd_machine virt_base (tok_ptr odd_machine virt_base odd_tokens odd_tokens) (Lit [120]) = Some True"
proof
  let ?us = "tl odd_tokens" and ?ws = "drop 2 odd_tokens" and ?xs = "[bytes_of ''abcd'', [], [], [3], [], [], [4], [], [], [11]]"
  have ts: "odd_tokens = BeginNode [] # ?us" by (simp add: odd_tokens_def)
  have found: "find (named virt_strings (bytes_of ''compatible'')) (prop_list ?us) = Some (Prop 0 (bytes_of ''abcd'') # ?ws)"
    by (simp add: odd_tokens_def virt_names)
  show "node_prop virt_strings (bytes_of ''compatible'') odd_tokens = Some (bytes_of ''abcd'')"
    by (subst ts) (simp add: node_prop.simps found)
  have "fdt_node_is_compatible odd_machine virt_base (tok_ptr odd_machine virt_base odd_tokens (BeginNode [] # ?us)) (Lit [120]) = Some True"
  proof (rule fdt_node_is_compatible_overrun [OF blob_ok(2,3) [OF odd_blob] _ _ found, where xs = ?xs and cs = "[120]"])
    show "cstr odd_machine (Lit [120]) [120]" by (simp add: cstr_def)
    show "suffix (BeginNode [] # ?us) odd_tokens" using ts by simp
    show "prefix (lines (?xs @ [[120]])) (bytes_of ''abcd'' @ pad (length (bytes_of ''abcd'')) @ toks_bytes ?ws)"
      by (simp add: lines_def odd_tokens_def tok_bytes_def pad_def be_bytes_def FDT_PROP_def le_bytes_numeral bytes_of_def)
    show "\<forall>k \<le> length ?xs. length (bytes_of ''abcd'') \<noteq> length (lines (take k ?xs))"
    proof (intro allI impI)
      fix k
      show "length (bytes_of ''abcd'') \<noteq> length (lines (take k ?xs))" by (cases k) (simp_all add: lines_def)
    qed
  qed (simp_all add: lines_def bytes_of_def)
  then show "fdt_node_is_compatible odd_machine virt_base (tok_ptr odd_machine virt_base odd_tokens odd_tokens) (Lit [120]) = Some True"
    using ts by simp
qed

end
