(* ===== verification/Boot_Spec.thy ===== *)
theory Boot_Spec
  imports Free_List
begin

text \<open>
  What \<^verbatim>\<open>boot_alloc\<close> computes, without memory and words: best fit on a list of free regions.
\<close>

section \<open>Best fit on a list of regions\<close>

text \<open>What remains of the region of \<^term>\<open>n\<close> bytes at \<^term>\<open>a\<close> if \<^term>\<open>z\<close> bytes aligned to \<^term>\<open>2 ^ k\<close> are taken from its end,
  or from its start; a negative number if this is not possible.  At the start of an aligned region the code skips
  \<^term>\<open>2 ^ k\<close> bytes.\<close>

definition rest_after :: "nat \<Rightarrow> nat \<Rightarrow> nat \<times> nat \<Rightarrow> int" where
  "rest_after z k = (\<lambda>(a, n). int n - int z - (int a + int n - int z) mod 2 ^ k)"

definition skip_before :: "nat \<Rightarrow> nat \<Rightarrow> nat" where
  "skip_before k a = 2 ^ k - a mod 2 ^ k"

definition rest_before :: "nat \<Rightarrow> nat \<Rightarrow> nat \<times> nat \<Rightarrow> int" where
  "rest_before z k = (\<lambda>(a, n). int n - int z - int (skip_before k a))"

definition rest_size :: "nat \<Rightarrow> nat \<Rightarrow> nat \<times> nat \<Rightarrow> int" where
  "rest_size z k r = max (rest_after z k r) (rest_before z k r)"

text \<open>The block taken from a region, and the region that remains if it can hold its own struct of 24 bytes.\<close>

definition carve :: "nat \<Rightarrow> nat \<Rightarrow> nat \<times> nat \<Rightarrow> nat \<times> (nat \<times> nat) list" where
  "carve z k = (\<lambda>(a, n).
     let m = nat (rest_size z k (a, n)) in
     if rest_before z k (a, n) \<le> rest_after z k (a, n) then (a + m, if m < 24 then [] else [(a, m)])
     else (a + skip_before k a, if m < 24 then [] else [(a + (z + skip_before k a), m)]))"

definition alloc_spec :: "nat \<Rightarrow> nat \<Rightarrow> (nat \<times> nat) list \<Rightarrow> (nat \<times> (nat \<times> nat) list) option" where
  "alloc_spec z k rs =
     (case filter (\<lambda>r. 0 \<le> rest_size z k r) rs of
        [] \<Rightarrow> None
      | c # cs \<Rightarrow>
          let best = arg_min_list (rest_size z k) (c # cs); (p, left) = carve z k best
          in Some (p, concat (map (\<lambda>r. if r = best then left else [r]) rs)))"

abbreviation plain :: "(addr \<times> size_t) list \<Rightarrow> (nat \<times> nat) list" where
  "plain rs \<equiv> map (map_prod unat unat) rs"

section \<open>The search is a minimum\<close>

lemma arg_min_list_snoc:
  fixes f :: "'a \<Rightarrow> 'b :: linorder"
  assumes "xs \<noteq> []"
  shows "arg_min_list f (xs @ [x]) = (if f x < f (arg_min_list f xs) then x else arg_min_list f xs)"
  using assms
proof (induction f xs rule: arg_min_list.induct)
  case (2 f x y zs)
  then show ?case by (auto simp: Let_def)
qed auto

lemma sint_nonneg:
  fixes x :: size_t
  assumes "0 \<le> sint x"
  shows "sint x = uint x"
proof -
  have s: "sint x = signed_take_bit 63 (uint x)" by (simp add: sint_uint)
  then have b: "\<not> bit (uint x) 63" using assms by (simp add: signed_take_bit_nonnegative_iff)
  have "uint x = take_bit (Suc 63) (uint x)" using take_bit_int_eq_self [of "uint x" 64] uint_lt2p [of x] by simp
  also have "\<dots> = take_bit 63 (uint x)" unfolding take_bit_Suc_from_most using b by simp
  finally show ?thesis using s b by (simp add: signed_take_bit_eq_if_positive)
qed

definition best_of :: "'z boot_scheme \<Rightarrow> size_t \<Rightarrow> size_t \<Rightarrow> (addr \<times> size_t) list \<Rightarrow> fit" where
  "best_of s sz al rs =
     (if rs = [] then (NULL, - 1, False)
      else let (a, n) = arg_min_list (\<lambda>(a, n). sint (greater_rest s sz al a)) rs
           in (a, greater_rest s sz al a, region_size_alloc_after s a sz al \<noteq> greater_rest s sz al a))"

lemma fold_best_of:
  "fold (\<lambda>(a, n). better_fit s sz al a) rs (NULL, - 1, False) =
    best_of s sz al (filter (\<lambda>(a, n). 0 \<le> sint (greater_rest s sz al a)) rs)"
proof (induction rs rule: rev_induct)
  case Nil
  then show ?case by (simp add: best_of_def)
next
  case (snoc x rs)
  obtain a n where x: "x = (a, n)" by force
  let ?g = "greater_rest s sz al" and ?cs = "filter (\<lambda>(a, n). 0 \<le> sint (greater_rest s sz al a)) rs"
  have step: "better_fit s sz al a (r0, f0, b0) =
      (if 0 \<le> sint (?g a) \<and> f0 > ?g a then (a, ?g a, region_size_alloc_after s a sz al \<noteq> ?g a) else (r0, f0, b0))" for r0 f0 b0
    by (simp add: better_fit_def greater_rest_def Let_def)
  show ?case
  proof (cases "?cs = []")
    case True
    have "?g a < - 1" if "0 \<le> sint (?g a)" using that word_order.not_eq_extremum [of "?g a"] by fastforce
    then show ?thesis using True by (simp add: snoc x step best_of_def)
  next
    case False
    obtain b m where b: "arg_min_list (\<lambda>(a, n). sint (?g a)) ?cs = (b, m)" by force
    have "(b, m) \<in> set ?cs" using arg_min_list_in [OF False, of "\<lambda>(a, n). sint (?g a)"] b by simp
    then have "0 \<le> sint (?g b)" by simp
    then have "?g a < ?g b \<longleftrightarrow> sint (?g a) < sint (?g b)" if "0 \<le> sint (?g a)"
      using that sint_nonneg by (simp add: word_less_def)
    then show ?thesis using False b by (auto simp: snoc x step best_of_def arg_min_list_snoc)
  qed
qed

section \<open>Words and numbers\<close>

text \<open>For a region of the list the code computes these numbers.\<close>

lemma rests_eq:
  assumes "unat a + unat n < 2 ^ 64" and "unat n < 2 ^ 63" and "region_size s a = n" and "request_ok sz al"
  defines "r \<equiv> (unat a, unat n)"
  shows "sint (region_size_alloc_after s a sz al) = rest_after (unat sz) (unat al) r"
    and "sint (region_size_alloc_before s a sz al) = rest_before (unat sz) (unat al) r"
    and "sint (greater_rest s sz al a) = rest_size (unat sz) (unat al) r"
    and "unat (alloc_before_unalignment a al) = skip_before (unat al) (unat a)"
proof -
  let ?k = "unat al" and ?z = "unat sz"
  have sz: "?z < 2 ^ 62" and k: "?k < 62" using assms(4) by (simp_all add: request_ok_def)
  note ub = unalignment_bounds [OF assms(4)]
  have "uint (a + n - sz) = (uint a + uint n - uint sz) mod 2 ^ 64"
    unfolding uint_word_ariths by (simp add: mod_simps)
  moreover have "(2 :: int) ^ ?k dvd 2 ^ 64" using k by (intro le_imp_power_dvd) simp
  ultimately have "uint (a + n - sz) mod 2 ^ ?k = (uint a + uint n - uint sz) mod 2 ^ ?k" by (simp only: mod_mod_cancel)
  moreover have "int (unat (alloc_after_unalignment s a sz al)) = uint (a + n - sz) mod 2 ^ ?k"
    unfolding ub(1) [of s a] assms(3) zmod_int by (simp only: uint_nat of_nat_power of_nat_numeral)
  ultimately have u: "int (unat (alloc_after_unalignment s a sz al)) = (int (unat a) + int (unat n) - int ?z) mod 2 ^ ?k"
    by (simp only: uint_nat)
  show after: "sint (region_size_alloc_after s a sz al) = rest_after ?z ?k r"
    using remainder(2) [OF assms(2) sz less_imp_le [OF ub(3) [of s a]]] u assms(3)
    by (simp add: region_size_alloc_after_def rest_after_def r_def)
  show skip: "unat (alloc_before_unalignment a al) = skip_before ?k (unat a)" using ub(2) [of a] by (simp add: skip_before_def)
  show before: "sint (region_size_alloc_before s a sz al) = rest_before ?z ?k r"
    using remainder(2) [OF assms(2) sz ub(4) [of a]] assms(3) skip
    by (simp add: region_size_alloc_before_def rest_before_def r_def)
  show "sint (greater_rest s sz al a) = rest_size ?z ?k r"
    using after before by (auto simp: greater_rest_def Let_def rest_size_def)
qed

lemma region_facts:
  assumes "free_list_ok s rs" and "(a, n) \<in> set rs"
  shows "unat a + unat n < 2 ^ 64" and "unat n < 2 ^ 63" and "region_size s a = n" and "a \<noteq> NULL"
proof -
  obtain xs ys where rs: "rs = xs @ (a, n) # ys" using assms(2) by (meson split_list)
  then obtain e q where "located s xs a n ys e q" and size: "region_size s a = n" using free_list_located assms(1) by blast
  note d = locatedD [OF this(1)]
  show "unat a + unat n < 2 ^ 64" "unat n < 2 ^ 63" "region_size s a = n" using d(9,10) size by simp_all
  show "a \<noteq> NULL" using d(8) by auto
qed

lemma arg_min_list_map: "xs \<noteq> [] \<Longrightarrow> arg_min_list f (map g xs) = g (arg_min_list (f \<circ> g) xs)"
  by (induction "f \<circ> g" xs rule: arg_min_list.induct) (auto simp: Let_def)

lemma arg_min_list_cong: "(\<And>x. x \<in> set xs \<Longrightarrow> f x = g x) \<Longrightarrow> xs \<noteq> [] \<Longrightarrow> arg_min_list f xs = arg_min_list g xs"
proof (induction f xs rule: arg_min_list.induct)
  case (2 f x y zs)
  then have "arg_min_list f (y # zs) = arg_min_list g (y # zs)" by simp
  moreover have "arg_min_list g (y # zs) \<in> set (y # zs)" by (rule arg_min_list_in) simp
  ultimately show ?case using 2(2) by (auto simp: Let_def)
qed auto

text \<open>The candidates and the best of them, in words and in numbers.\<close>

lemma candidates:
  assumes "free_list_ok s rs" and "request_ok sz al"
  defines "cs \<equiv> filter (\<lambda>(a, n). 0 \<le> sint (greater_rest s sz al a)) rs"
  shows "filter (\<lambda>r. 0 \<le> rest_size (unat sz) (unat al) r) (plain rs) = plain cs"
    and "cs \<noteq> [] \<Longrightarrow> arg_min_list (rest_size (unat sz) (unat al)) (plain cs) =
      map_prod unat unat (arg_min_list (\<lambda>(a, n). sint (greater_rest s sz al a)) cs)"
proof -
  let ?f = "rest_size (unat sz) (unat al)"
  have eq: "?f (map_prod unat unat r) = (case r of (a, n) \<Rightarrow> sint (greater_rest s sz al a))" if "r \<in> set rs" for r
  proof (cases r)
    case (Pair a n)
    then show ?thesis using rests_eq(3) [OF region_facts(1-3) [OF assms(1)] assms(2)] that by simp
  qed
  then show "filter (\<lambda>r. 0 \<le> ?f r) (plain rs) = plain cs"
    by (auto simp: cs_def filter_map comp_def intro!: arg_cong [where f = plain] filter_cong)
  assume ne: "cs \<noteq> []"
  have "arg_min_list (?f \<circ> map_prod unat unat) cs = arg_min_list (\<lambda>(a, n). sint (greater_rest s sz al a)) cs"
    using eq by (intro arg_min_list_cong [OF _ ne]) (auto simp: cs_def)
  then show "arg_min_list ?f (plain cs) = map_prod unat unat (arg_min_list (\<lambda>(a, n). sint (greater_rest s sz al a)) cs)"
    using arg_min_list_map [OF ne, of ?f "map_prod unat unat"] by simp
qed

section \<open>Refinement\<close>

lemma replace_region:
  assumes "ordered 1 (xs @ (a, n) # ys)"
  shows "concat (map (\<lambda>r. if r = (unat a, unat n) then left else [r]) (plain (xs @ (a, n) # ys))) = plain xs @ left @ plain ys"
proof -
  have "24 \<le> unat n" using ordered_mem [OF assms, of a n] by simp
  then have "unat a \<in> {unat a ..< unat a + unat n}" by simp
  then have new: "(a, n) \<notin> set (xs @ ys)" using ordered_disjoint [OF assms] by (fastforce simp: free_bytes_def)
  have "concat (map (\<lambda>r. if r = (unat a, unat n) then left else [r]) (plain zs)) = plain zs" if "(a, n) \<notin> set zs" for zs
    using that by (induction zs) (auto simp: word_unat_eq_iff)
  then show ?thesis using new by simp
qed

lemma carve_eq:
  assumes loc: "located s xs a n ys e q" and size: "region_size s a = n" and req: "request_ok sz al"
    and nonneg: "0 \<le> rest_size (unat sz) (unat al) (unat a, unat n)"
  defines "before \<equiv> region_size_alloc_after s a sz al \<noteq> greater_rest s sz al a"
  shows "\<exists>t p left. (if before then alloc_before s a sz al else alloc_after s a sz al) = Some (t, p) \<and> p \<noteq> NULL \<and>
    carve (unat sz) (unat al) (unat a, unat n) = (unat p, plain left) \<and> free_list_ok t (xs @ left @ ys)"
proof -
  let ?r = "(unat a, unat n)" and ?z = "unat sz" and ?k = "unat al"
  note d = locatedD [OF loc]
  note eq = rests_eq [OF d(9,10) size req] and ub = unalignment_bounds [OF req]
  have sz: "?z < 2 ^ 62" using req by (simp add: request_ok_def)
  have inj: "x = y \<longleftrightarrow> sint x = sint y" for x y :: size_t by (auto intro: signed_word_eqI)
  have b: "before \<longleftrightarrow> rest_after ?z ?k ?r < rest_before ?z ?k ?r"
    unfolding before_def inj eq rest_size_def by auto
  define m where "m = greater_rest s sz al a"
  have "uint m = rest_size ?z ?k ?r" using sint_nonneg [of m] eq(3) nonneg by (simp add: m_def)
  then have "unat m = nat (rest_size ?z ?k ?r)" by (simp flip: nat_uint_eq)
  then have m24: "m < 24 \<longleftrightarrow> nat (rest_size ?z ?k ?r) < 24" "unat m = nat (rest_size ?z ?k ?r)"
    by (simp_all add: word_less_nat_alt)
  show ?thesis
  proof (cases before)
    case False
    let ?u = "alloc_after_unalignment s a sz al"
    have g: "n - (sz + ?u) = m" using False size by (simp add: before_def m_def region_size_alloc_after_def)
    then have "0 \<le> sint (n - (sz + ?u))" using eq(3) nonneg by (simp add: m_def)
    then have fit: "?z + unat ?u \<le> unat n" using remainder(4) [OF d(10) sz less_imp_le [OF ub(3) [of s a]]] by simp
    from alloc_after_eq [OF loc size req this] obtain t where
      t: "alloc_after s a sz al = Some (t, a + m)" "allocated s (xs @ (a, n) # ys) sz al t (a + m) (xs @ (if m < 24 then [] else [(a, m)]) @ ys)"
      unfolding g by blast
    have "unat m \<le> unat n" using remainder(3) [OF d(10) sz less_imp_le [OF ub(3) [of s a]] fit] g by simp
    then have "unat (a + m) = unat a + unat m" using d(9) by (intro unat_add64) simp
    then have "carve ?z ?k ?r = (unat (a + m), plain (if m < 24 then [] else [(a, m)]))"
      using False b m24 by (simp add: carve_def Let_def)
    moreover have "(if before then alloc_before s a sz al else alloc_after s a sz al) = Some (t, a + m)" using t(1) False by simp
    ultimately show ?thesis using t(2) unfolding allocated_def by blast
  next
    case True
    let ?u = "alloc_before_unalignment a al"
    have g: "n - (sz + ?u) = m"
      using True size by (auto simp: before_def m_def greater_rest_def Let_def region_size_alloc_before_def split: if_splits)
    then have "0 \<le> sint (n - (sz + ?u))" using eq(3) nonneg by (simp add: m_def)
    then have fit: "?z + unat ?u \<le> unat n" using remainder(4) [OF d(10) sz ub(4) [of a]] by simp
    from alloc_before_eq [OF loc size req this] obtain t where t: "alloc_before s a sz al = Some (t, a + ?u)"
      "allocated s (xs @ (a, n) # ys) sz al t (a + ?u) (xs @ (if m < 24 then [] else [(a + (sz + ?u), m)]) @ ys)"
      unfolding g by blast
    have "unat (sz + ?u) = ?z + unat ?u" using remainder(1) [OF d(10) sz ub(4) [of a]] .
    then have "unat (a + ?u) = unat a + unat ?u" "unat (a + (sz + ?u)) = unat a + (?z + unat ?u)"
      using unat_add64 [of a ?u] unat_add64 [of a "sz + ?u"] fit d(9) by simp_all
    then have "carve ?z ?k ?r = (unat (a + ?u), plain (if m < 24 then [] else [(a + (sz + ?u), m)]))"
      using True b m24 eq(4) by (simp add: carve_def Let_def)
    moreover have "(if before then alloc_before s a sz al else alloc_after s a sz al) = Some (t, a + ?u)" using t(1) True by simp
    ultimately show ?thesis using t(2) unfolding allocated_def by blast
  qed
qed

lemma boot_alloc_spec:
  assumes "free_list_ok s rs" and "request_ok sz al"
  shows "\<exists>t p. boot_alloc s sz al = Some (t, p) \<and>
    (case alloc_spec (unat sz) (unat al) (plain rs) of
       None \<Rightarrow> p = NULL \<and> t = s
     | Some (q, ps) \<Rightarrow> p \<noteq> NULL \<and> unat p = q \<and> (\<exists>rs'. plain rs' = ps \<and> free_list_ok t rs'))"
proof -
  let ?cs = "filter (\<lambda>(a, n). 0 \<le> sint (greater_rest s sz al a)) rs"
  note c = candidates [OF assms]
  obtain e where sg: "seg s NULL (boot_free_list s) rs e NULL" and o: "ordered 1 rs" using assms(1) by (auto simp: free_list_ok_def)
  have loop: "alloc_loop s sz al (boot_free_list_begin s) (NULL, - 1, False) = Some (best_of s sz al ?cs)"
    using alloc_loop_eq [OF sg, of sz al "(NULL, - 1, False)"] by (simp add: fold_best_of boot_free_list_begin_def)
  show ?thesis
  proof (cases "?cs = []")
    case True
    then show ?thesis using c(1) loop by (simp add: boot_alloc_def alloc_spec_def best_of_def)
  next
    case False
    obtain a n where an: "arg_min_list (\<lambda>(a, n). sint (greater_rest s sz al a)) ?cs = (a, n)" by force
    have "(a, n) \<in> set ?cs" using arg_min_list_in [OF False, of "\<lambda>(a, n). sint (greater_rest s sz al a)"] an by simp
    then have mem: "(a, n) \<in> set rs" "0 \<le> sint (greater_rest s sz al a)" by simp_all
    obtain xs ys where rs: "rs = xs @ (a, n) # ys" using mem(1) by (meson split_list)
    obtain e q where loc: "located s xs a n ys e q" and size: "region_size s a = n" using free_list_located assms(1) rs by blast
    note d = locatedD [OF loc]
    have "0 \<le> rest_size (unat sz) (unat al) (unat a, unat n)" using mem(2) rests_eq(3) [OF d(9,10) size assms(2)] by simp
    from carve_eq [OF loc size assms(2) this] obtain t p left where
      t: "(if region_size_alloc_after s a sz al \<noteq> greater_rest s sz al a then alloc_before s a sz al else alloc_after s a sz al) =
        Some (t, p)" "p \<noteq> NULL" "carve (unat sz) (unat al) (unat a, unat n) = (unat p, plain left)" "free_list_ok t (xs @ left @ ys)"
      by blast
    have "a \<noteq> NULL" using region_facts(4) [OF assms(1) mem(1)] .
    then have "boot_alloc s sz al = Some (t, p)" using loop t(1) False an by (simp add: boot_alloc_def best_of_def)
    moreover have "alloc_spec (unat sz) (unat al) (plain rs) = Some (unat p, plain (xs @ left @ ys))"
    proof -
      have "plain ?cs \<noteq> []" using False by simp
      then obtain r0 rs0 where pl: "plain ?cs = r0 # rs0" by (cases "plain ?cs") auto
      have "arg_min_list (rest_size (unat sz) (unat al)) (r0 # rs0) = (unat a, unat n)" using c(2) [OF False] an pl by simp
      then show ?thesis using replace_region [OF o [unfolded rs], of "plain left"]
        unfolding alloc_spec_def c(1) pl by (simp add: t(3) flip: rs)
    qed
    ultimately show ?thesis using t(2,4) by (auto intro: exI [of _ "xs @ left @ ys"])
  qed
qed

section \<open>What an allocation costs\<close>

definition total_size :: "(nat \<times> nat) list \<Rightarrow> nat" where
  "total_size rs = sum_list (map snd rs)"

lemma carve_total:
  assumes "carve z k (a, n) = (p, left)" and "0 \<le> rest_size z k (a, n)"
  shows "total_size left + z \<le> n \<and> n < total_size left + z + 2 ^ k + 24"
proof -
  define u where "u = (int a + int n - int z) mod 2 ^ k"
  have u: "0 \<le> u" "u < 2 ^ k" by (simp_all add: u_def)
  have b: "0 < skip_before k a" "skip_before k a \<le> 2 ^ k" by (simp_all add: skip_before_def)
  have ra: "rest_after z k (a, n) = int n - int z - u" by (simp add: rest_after_def u_def)
  have rb: "rest_before z k (a, n) = int n - int z - int (skip_before k a)" by (simp add: rest_before_def)
  define m where "m = nat (rest_size z k (a, n))"
  have m: "int m = max (int n - int z - u) (int n - int z - int (skip_before k a))" using assms(2) by (simp add: m_def rest_size_def ra rb)
  have "total_size left = (if m < 24 then 0 else m)"
    using assms(1) by (auto simp: carve_def Let_def total_size_def m_def split: if_splits)
  moreover have "int (skip_before k a) \<le> 2 ^ k" using b(2) of_nat_mono [of "skip_before k a" "2 ^ k", where 'a = int] by simp
  then have "int n < int m + int z + 2 ^ k + 1 \<and> int m + int z \<le> int n" using m u b(1) by linarith
  then have "int n < int (m + z + 2 ^ k + 1) \<and> int (m + z) \<le> int n" by simp
  then have "n < m + z + 2 ^ k + 1 \<and> m + z \<le> n" unfolding of_nat_less_iff of_nat_le_iff .
  ultimately show ?thesis by auto
qed

lemma total_replace:
  "distinct rs \<Longrightarrow> r \<in> set rs \<Longrightarrow> total_size (concat (map (\<lambda>x. if x = r then left else [x]) rs)) + snd r = total_size rs + total_size left"
proof (induction rs)
  case (Cons x rs)
  have "concat (map (\<lambda>x. if x = r then left else [x]) rs) = rs" if "r \<notin> set rs" using that by (induction rs) auto
  then show ?case using Cons by (auto simp: total_size_def)
qed simp

lemma spec_total:
  assumes "alloc_spec z k rs = Some (p, rs')" and "distinct rs"
  shows "total_size rs' + z \<le> total_size rs \<and> total_size rs < total_size rs' + z + 2 ^ k + 24"
proof -
  let ?cs = "filter (\<lambda>r. 0 \<le> rest_size z k r) rs"
  let ?r = "arg_min_list (rest_size z k) ?cs"
  have ne: "?cs \<noteq> []" using assms(1) by (auto simp: alloc_spec_def)
  then have "?r \<in> set ?cs" by (rule arg_min_list_in)
  then have r: "?r \<in> set rs" "0 \<le> rest_size z k ?r" by simp_all
  obtain left where left: "carve z k ?r = (p, left)" "rs' = concat (map (\<lambda>x. if x = ?r then left else [x]) rs)"
    using assms(1) ne unfolding alloc_spec_def by (auto simp: Let_def split: list.splits prod.splits)
  obtain a n where "?r = (a, n)" by force
  then show ?thesis using carve_total [of z k a n p left] total_replace [OF assms(2) r(1), of left] left r(2) by auto
qed

lemma distinct_plain:
  assumes "ordered lo rs"
  shows "distinct (plain rs)"
  using assms
proof (induction rs arbitrary: lo)
  case (Cons r rs)
  obtain a n where r: "r = (a, n)" by force
  have o: "ordered lo ([] @ (a, n) # rs)" using Cons.prems r by simp
  have "24 \<le> unat n" using ordered_mem [OF o, of a n] by simp
  then have "unat a \<in> {unat a ..< unat a + unat n}" by simp
  then have "(a, n) \<notin> set rs" using ordered_disjoint [OF o] by (fastforce simp: free_bytes_def)
  moreover have "ordered (unat a + unat n) rs" using Cons.prems by (simp add: r)
  ultimately show ?case using Cons.IH by (auto simp: r word_unat_eq_iff [symmetric] map_prod_def)
qed simp

section \<open>Properties\<close>

text \<open>C4. Refinement: on every well-formed free list and for every request, \<^verbatim>\<open>boot_alloc\<close> does what best fit on the list of
  regions says.  Among the regions that can hold the block it takes the first of those that keep the least, counting for
  each region the end at which more remains; it returns the block at that end, or the null pointer if there is no such
  region; and the list in memory is then the list with that region shrunk, or removed if less than 24 bytes remain.\<close>

theorem boot_alloc_refines:
  assumes "free_list_ok s rs" and "request_ok sz al"
  shows "\<exists>t p. boot_alloc s sz al = Some (t, p) \<and>
    (case alloc_spec (unat sz) (unat al) (plain rs) of
       None \<Rightarrow> p = NULL \<and> t = s
     | Some (q, ps) \<Rightarrow> p \<noteq> NULL \<and> unat p = q \<and> (\<exists>rs'. plain rs' = ps \<and> free_list_ok t rs'))"
  using assms by (rule boot_alloc_spec)

theorem boot_alloc_refines_witness:
  "\<exists>(s :: boot) t rs'. free_list_ok s [(0x80200000, 0x1000)] \<and> boot_alloc s 256 4 = Some (t, 0x80200f00) \<and>
     plain rs' = [(0x80200000, 0xf00)] \<and> free_list_ok t rs'"
proof -
  obtain s :: boot where s: "free_list_ok s [(0x80200000, 0x1000)]" using demo_region by blast
  have spec: "alloc_spec (unat (256 :: size_t)) (unat (4 :: size_t)) (plain [(0x80200000, 0x1000)]) = Some (0x80200f00, [(0x80200000, 0xf00)])"
    by (simp add: alloc_spec_def rest_size_def rest_after_def rest_before_def skip_before_def carve_def Let_def)
  have "request_ok 256 4" by (simp add: request_ok_def)
  from boot_alloc_refines [OF s this] obtain t p rs' where
    t: "boot_alloc s 256 4 = Some (t, p)" "unat p = 0x80200f00" "plain rs' = [(0x80200000, 0xf00)]" "free_list_ok t rs'"
    unfolding spec option.case prod.case by (elim exE conjE) (rule that)
  have "p = 0x80200f00" using t(2) by (simp add: word_unat_eq_iff)
  then show ?thesis using s t by (intro exI [of _ s] exI [of _ t] exI [of _ rs']) simp
qed

text \<open>C37. The cost of an allocation: the free memory shrinks by the size of the block and by less than the alignment and 24 bytes more,
  whatever the list looks like.\<close>

theorem boot_alloc_waste:
  assumes "free_list_ok s rs" and "request_ok sz al" and "boot_alloc s sz al = Some (t, p)" and "p \<noteq> NULL"
  shows "\<exists>rs'. free_list_ok t rs' \<and> total_size (plain rs') + unat sz \<le> total_size (plain rs) \<and>
    total_size (plain rs) < total_size (plain rs') + unat sz + 2 ^ unat al + 24"
proof -
  have "distinct (plain rs)" using assms(1) by (auto simp: free_list_ok_def intro: distinct_plain)
  then show ?thesis
    using boot_alloc_spec [OF assms(1,2)] assms(3,4) spec_total [of "unat sz" "unat al" "plain rs"]
    by (auto split: option.splits)
qed

theorem boot_alloc_waste_witness:
  "\<exists>(s :: boot) t p rs'. boot_alloc s 256 4 = Some (t, p) \<and> free_list_ok t rs' \<and> total_size (plain rs') + 256 \<le> 0x1000 \<and>
     0x1000 < total_size (plain rs') + 296"
proof -
  obtain s :: boot where s: "free_list_ok s [(0x80200000, 0x1000)]" using demo_region by blast
  have req: "request_ok 256 4" by (simp add: request_ok_def)
  obtain t p where t: "boot_alloc s 256 4 = Some (t, p)" "p \<noteq> NULL"
    using boot_alloc_eq [OF s req] demo_fits by fastforce
  show ?thesis using boot_alloc_waste [OF s req t] t(1) by (auto simp: total_size_def)
qed

end
