(* ===== verification/Boot_Sequence.thy ===== *)
theory Boot_Sequence
  imports Kernel
begin

text \<open>
  The composition of the components in \<^verbatim>\<open>kmain\<close>: from the registration of the UART callback through the device tree,
  the boot allocator and the system controller to the loop.  No new code is modelled here.
\<close>

section \<open>Following the state\<close>

lemma after_emit: "same_devices (emit s cs) t \<Longrightarrow> same_devices (emit s (cs @ cs')) (emit t cs')"
  by (simp add: same_devices_def emit_def active_def broadcast_def)

lemma same_devices_trans: "same_devices s t \<Longrightarrow> same_devices t u \<Longrightarrow> same_devices s u"
  by (simp add: same_devices_def)

lemma same_rest_kernel:
  fixes s t :: "'z kernel_scheme"
  assumes "same_rest s t"
  shows "shutdown_action t = shutdown_action s" and "reboot_action t = reboot_action s" and "uart_rx t = uart_rx s"
    and "same_devices s t"
proof -
  have m: "boot.more t = boot.more s" using assms by (simp add: same_rest_def)
  show "shutdown_action t = shutdown_action s" and "reboot_action t = reboot_action s" and "uart_rx t = uart_rx s"
    by (insert m, (cases s, cases t, simp)+)
  show "same_devices s t" using assms by (simp add: same_rest_def)
qed

lemma writes_only_emit [simp]:
  "writes_only R (emit s cs) t = writes_only R s t" "writes_only R s (emit t cs) = writes_only R s t"
  by (simp_all add: writes_only_def)

lemma has_blob_writes:
  assumes "has_blob s fdt es ts strs" and "writes_only R s t" and "same_devices s t" and "R \<inter> block fdt (fdt_size s fdt) = {}"
  shows "has_blob t fdt es ts strs"
proof (rule has_blob_frame [OF assms(1)])
  show "byte_order t = byte_order s" "config t = config s" using assms(3) by (simp_all add: same_devices_def)
  fix x :: addr
  assume "unat fdt \<le> unat x" and "unat x < unat fdt + length (fdt_bytes es ts strs)"
  then have "unat x \<in> block fdt (fdt_size s fdt)" using blob_ok(5) [OF assms(1)] by (simp add: block_def)
  then show "mem t x = mem s x" using assms(2,4) by (auto simp: writes_only_def)
qed

section \<open>The allocation test\<close>

definition boot_dump :: "(addr \<times> size_t) list \<Rightarrow> byte list" where
  "boot_dump rs = bytes_of ''--- BOOT ALLOC FREE REGIONS ---\<newline>'' @ concat (map region_line rs) @
     bytes_of ''-------------------------------\<newline>''"

definition alloc_line :: "addr \<Rightarrow> byte list" where
  "alloc_line p = bytes_of ''alloc = '' @ hex_text p @ bytes_of ''\<newline>''"

lemma alloc_line_printk:
  "do { (s', _) \<leftarrow> printk s (Lit (bytes_of ''alloc = %p\<newline>'')) [VPtr p]; f s' } = f (emit s (alloc_line p))"
  unfolding alloc_line_def by (rule printk_then) (auto simp: bytes_of_def hex_text_def)

text \<open>The page the kernel allocates and then keeps: aligned, inside the free memory, and no longer free.  There is none only if it
  fits nowhere.\<close>

definition page_ok :: "(addr \<times> size_t) list \<Rightarrow> addr \<Rightarrow> (addr \<times> size_t) list \<Rightarrow> bool" where
  "page_ok free p rs \<longleftrightarrow>
     (if p = NULL then rs = free \<and> (\<forall>(a, n) \<in> set free. \<not> fits (unat a) (unat n) 0x1000 4)
      else 16 dvd unat p \<and> block p 0x1000 \<subseteq> free_bytes free \<and> free_bytes rs \<subseteq> free_bytes free - block p 0x1000)"

lemma boot_alloc_page:
  fixes s :: "'z boot_scheme"
  assumes "free_list_ok s free"
  shows "\<exists>t p rs. boot_alloc s 0x1000 4 = Some (t, p) \<and> free_list_ok t rs \<and> page_ok free p rs \<and>
    writes_only (free_bytes free) s t \<and> same_rest s t"
proof -
  have "request_ok 0x1000 4" by (simp add: request_ok_def)
  from boot_alloc_eq [OF assms this] obtain t p rs where
    r: "boot_alloc s 0x1000 4 = Some (t, p)"
      "if p = NULL then t = s \<and> (\<forall>(a, n) \<in> set free. \<not> fits (unat a) (unat n) (unat (0x1000 :: size_t)) (unat (4 :: size_t)))
       else allocated s free 0x1000 4 t p rs" by blast
  have "same_rest s t" using boot_alloc_same [OF r(1)] .
  then show ?thesis
    using r assms by (cases "p = NULL") (auto simp: allocated_def page_ok_def)
qed

lemma page_none:
  assumes "page_ok [] p rs"
  shows "p = NULL \<and> rs = []"
proof -
  have "unat p \<in> block p 0x1000" by (simp add: block_def)
  then show ?thesis using assms by (auto simp: page_ok_def split: if_splits)
qed

section \<open>Before the loop\<close>

text \<open>The machine a boot starts from: the tree, and the memory that becomes free.\<close>

definition bootable ::
  "'z kernel_scheme \<Rightarrow> linked \<Rightarrow> addr \<Rightarrow> (u64 \<times> u64) list \<Rightarrow> token list \<Rightarrow> byte list \<Rightarrow>
    (addr \<times> size_t) list \<Rightarrow> bool" where
  "bootable s l fdt es ts strs free \<longleftrightarrow>
     has_blob s fdt es ts strs \<and> wf_compatible strs ts \<and> wf_phandle strs ts \<and> boot_free_list s = NULL \<and> wf_tree ts \<and>
     memory_gives (left_first l) (kernel_end l) es fdt (fdt_size s fdt) (memory_reports ts strs ts) free"

definition problem :: "string \<Rightarrow> kerror + generic_syscon_action \<Rightarrow> byte list" where
  "problem name r = (case r of Inl _ \<Rightarrow> bytes_of (''Error setting up syscon '' @ name @ [CHR 0x0A]) | Inr _ \<Rightarrow> [])"

definition setup_text ::
  "addr \<Rightarrow> token list \<Rightarrow> byte list \<Rightarrow> (addr \<times> size_t) list \<Rightarrow> addr \<Rightarrow> (addr \<times> size_t) list \<Rightarrow> byte list" where
  "setup_text fdt ts strs free p rs =
     dump_text ts fdt @ report_lines (memory_reports ts strs ts) @ totals (reported (memory_reports ts strs ts)) (free_size free) @
     boot_dump free @ alloc_line p @ boot_dump rs @
     problem ''reboot'' (syscon_spec ts strs (bytes_of ''syscon-reboot'')) @
     problem ''shutdown'' (syscon_spec ts strs (bytes_of ''syscon-poweroff''))"

text \<open>The action a slot holds after initialisation.\<close>

definition enabled_as :: "kerror + generic_syscon_action \<Rightarrow> generic_syscon_action \<Rightarrow> bool" where
  "enabled_as r act \<longleftrightarrow> (case r of Inl _ \<Rightarrow> \<not> sa_found act | Inr x \<Rightarrow> act = x)"

lemma spec_error: "syscon_spec ts strs cs = Inl e \<Longrightarrow> e = KERR_NO_EXIST \<or> e = KERR_INVALID"
  by (auto simp: syscon_spec_def Let_def split: if_splits option.splits prod.splits)

lemma init_step:
  assumes "tree_ok s fdt ts strs" and "0 \<notin> set (bytes_of name)" and "length name < 2 ^ 64"
  defines "r \<equiv> syscon_spec ts strs (bytes_of name)"
  shows "\<exists>err act. syscon_init_generic_action s action fdt (Lit (bytes_of name)) = Some (err, act) \<and>
    (err = KERR_SUCCESS \<longleftrightarrow> \<not> isl r) \<and> enabled_as r act"
proof -
  obtain err act where "syscon_init_generic_action s action fdt (Lit (bytes_of name)) = Some (err, act)"
    "case r of Inl e \<Rightarrow> err = e \<and> \<not> sa_found act | Inr r \<Rightarrow> err = KERR_SUCCESS \<and> act = r"
    using slot_init [OF assms(1-3), of action] unfolding r_def by blast
  then show ?thesis using spec_error [of ts strs "bytes_of name"]
    by (cases r) (auto simp: enabled_as_def simp flip: r_def)
qed

lemma problem_printk:
  assumes "err = KERR_SUCCESS \<longleftrightarrow> \<not> isl r" and "name = ''reboot'' \<or> name = ''shutdown''"
  shows "do { (s', _) \<leftarrow> (if err \<noteq> KERR_SUCCESS then printk s (Lit (bytes_of (''Error setting up syscon '' @ name @ [CHR 0x0A]))) []
      else Some (s, 0)); f s' } = f (emit s (problem name r))"
proof (cases r)
  case (Inl e)
  have "do { (s', _) \<leftarrow> printk s (Lit (bytes_of (''Error setting up syscon '' @ name @ [CHR 0x0A]))) []; f s' } =
      f (emit s (bytes_of (''Error setting up syscon '' @ name @ [CHR 0x0A])))"
    using assms(2) by (intro printk_then) (auto simp: bytes_of_def)
  then show ?thesis using assms(1) Inl by (simp add: problem_def)
qed (use assms(1) in \<open>simp add: problem_def\<close>)

lemma problem_lines:
  assumes "err = KERR_SUCCESS \<longleftrightarrow> \<not> isl r"
  shows "do { (s', _) \<leftarrow> (if err \<noteq> KERR_SUCCESS then printk s (Lit (bytes_of ''Error setting up syscon reboot\<newline>'')) []
      else Some (s, 0)); f s' } = f (emit s (problem ''reboot'' r))"
    and "do { (s', _) \<leftarrow> (if err \<noteq> KERR_SUCCESS then printk s (Lit (bytes_of ''Error setting up syscon shutdown\<newline>'')) []
      else Some (s, 0)); f s' } = f (emit s (problem ''shutdown'' r))"
  using problem_printk [OF assms, of "''reboot''" s f] problem_printk [OF assms, of "''shutdown''" s f] by (simp_all only: append.simps simp_thms)

lemma boot_mem_dump_text: "free_list_ok s rs \<Longrightarrow> boot_mem_dump s = Some (KERR_SUCCESS, emit s (boot_dump rs))"
  by (simp add: boot_mem_dump_eq boot_dump_def)

lemma free_list_ok_frame:
  fixes s t :: "'z boot_scheme"
  assumes "mem t = mem s" and "byte_order t = byte_order s" and "boot_free_list t = boot_free_list s"
  shows "free_list_ok t rs = free_list_ok s rs"
proof -
  have "seg t prev p rs e q = seg s prev p rs e q" for prev p e q
    using assms(1,2) by (intro seg_frame) (simp add: region_defs load64_def read_bytes_def host_join_def)
  then show ?thesis using assms(3) by (simp add: free_list_ok_def)
qed

lemma gives_disjoint:
  assumes "memory_gives lf k es fdt fn reps free"
  shows "free_bytes free \<inter> block fdt fn = {}"
  using assms
proof cases
  case (gives_first start sz a n reps' nm)
  then show ?thesis using trim_inside(5) [OF gives_first(6)] by (auto simp: fdt_inside_def block_def)
qed simp

lemma tree_ok_blob:
  "has_blob s fdt es ts strs \<Longrightarrow> wf_tree ts \<Longrightarrow> wf_compatible strs ts \<Longrightarrow> wf_phandle strs ts \<Longrightarrow> tree_ok s fdt ts strs"
  by (simp add: tree_ok_def blob_ok)

text \<open>The first half: the tree is shown, its memory found and shown, and a page allocated.\<close>

lemma setup_memory:
  fixes s :: "'z kernel_scheme"
  assumes "bootable s l fdt es ts strs free"
  defines "R \<equiv> memory_reports ts strs ts"
  obtains t u p rs where "fdt_boot_mem_init (left_first l) (kernel_end l) (emit s (dump_text ts fdt)) fdt = Some (KERR_SUCCESS, t)"
    and "free_list_ok t free" and "boot_alloc (emit t (boot_dump free)) 0x1000 4 = Some (u, p)" and "free_list_ok u rs"
    and "page_ok free p rs" and "writes_only (free_bytes free) s u" and "has_blob u fdt es ts strs" and "uart_rx u = uart_rx s"
    and "same_devices (emit s (dump_text ts fdt @ report_lines R @ totals (reported R) (free_size free) @ boot_dump free)) u"
proof -
  have b: "has_blob s fdt es ts strs" "boot_free_list s = NULL" "wf_tree ts"
    and gives: "memory_gives (left_first l) (kernel_end l) es fdt (fdt_size s fdt) R free"
    using assms by (simp_all add: bootable_def)
  let ?d = "dump_text ts fdt" and ?m = "report_lines R @ totals (reported R) (free_size free)"
  let ?s1 = "emit s ?d"
  have blob1: "has_blob ?s1 fdt es ts strs" "boot_free_list ?s1 = NULL" "fdt_size ?s1 fdt = fdt_size s fdt"
    using b(1,2) has_blob_tok_ptr(2) [OF b(1), of ?s1] by simp_all
  obtain t where t: "fdt_boot_mem_init (left_first l) (kernel_end l) ?s1 fdt = Some (KERR_SUCCESS, t)" "free_list_ok t free"
    "writes_only (free_bytes free) s t" "has_blob t fdt es ts strs" "same_rest (emit ?s1 ?m) t"
    using boot_mem_init_eq [OF blob1(1,2) b(3)] gives blob1(3) unfolding R_def by fastforce
  let ?t = "emit t (boot_dump free)"
  obtain u p rs where u: "boot_alloc ?t 0x1000 4 = Some (u, p)" "free_list_ok u rs" "page_ok free p rs"
    "writes_only (free_bytes free) t u" "same_rest ?t u"
    using boot_alloc_page [of ?t free] t(2) by auto
  have "has_blob ?t fdt es ts strs" "fdt_size ?t fdt = fdt_size s fdt"
    using t(4) has_blob_tok_ptr(2) [OF b(1), of ?t] by simp_all
  then have blob: "has_blob u fdt es ts strs"
    using has_blob_writes [of ?t fdt es ts strs "free_bytes free" u] u(4,5) gives_disjoint [OF gives] by (simp add: same_rest_kernel(4))
  have "same_devices (emit s (?d @ ?m @ boot_dump free)) ?t"
    using after_emit [of s "?d @ ?m" t "boot_dump free"] same_rest_kernel(4) [OF t(5)] by simp
  then have "same_devices (emit s (?d @ ?m @ boot_dump free)) u"
    using same_devices_trans same_rest_kernel(4) [OF u(5)] by blast
  moreover have "uart_rx u = uart_rx s" using same_rest_kernel(3) [OF t(5)] same_rest_kernel(3) [OF u(5)] by simp
  ultimately show ?thesis using that [OF t(1,2) u(1-3) writes_only_trans [OF t(3) u(4)] blob] by simp
qed

text \<open>The second half: the two actions.\<close>

lemma setup_actions:
  fixes u :: "'z kernel_scheme"
  assumes "has_blob u fdt es ts strs" and "wf_tree ts" and "wf_compatible strs ts" and "wf_phandle strs ts"
  defines "r1 \<equiv> syscon_spec ts strs (bytes_of ''syscon-reboot'')" and "r2 \<equiv> syscon_spec ts strs (bytes_of ''syscon-poweroff'')"
  obtains err1 act1 err2 act2 where "syscon_reboot_init u fdt = Some (err1, u\<lparr>reboot_action := act1\<rparr>)"
    and "syscon_shutdown_init (emit (u\<lparr>reboot_action := act1\<rparr>) cs) fdt =
      Some (err2, (emit (u\<lparr>reboot_action := act1\<rparr>) cs)\<lparr>shutdown_action := act2\<rparr>)"
    and "err1 = KERR_SUCCESS \<longleftrightarrow> \<not> isl r1" and "enabled_as r1 act1" and "err2 = KERR_SUCCESS \<longleftrightarrow> \<not> isl r2" and "enabled_as r2 act2"
proof -
  have "tree_ok u fdt ts strs" by (rule tree_ok_blob [OF assms(1-4)])
  from init_step [OF this, of "''syscon-reboot''" "reboot_action u"] obtain err1 act1 where
    i1: "syscon_init_generic_action u (reboot_action u) fdt (Lit (bytes_of ''syscon-reboot'')) = Some (err1, act1)"
      "err1 = KERR_SUCCESS \<longleftrightarrow> \<not> isl r1" "enabled_as r1 act1" unfolding r1_def by (auto simp: bytes_of_def)
  let ?v = "emit (u\<lparr>reboot_action := act1\<rparr>) cs"
  have "has_blob ?v fdt es ts strs" using has_blob_frame [OF assms(1), of "u\<lparr>reboot_action := act1\<rparr>"] by simp
  then have "tree_ok ?v fdt ts strs" by (rule tree_ok_blob [OF _ assms(2-4)])
  from init_step [OF this, of "''syscon-poweroff''" "shutdown_action ?v"] obtain err2 act2 where
    i2: "syscon_init_generic_action ?v (shutdown_action ?v) fdt (Lit (bytes_of ''syscon-poweroff'')) = Some (err2, act2)"
      "err2 = KERR_SUCCESS \<longleftrightarrow> \<not> isl r2" "enabled_as r2 act2" unfolding r2_def by (auto simp: bytes_of_def)
  show ?thesis
    by (rule that [OF _ _ i1(2,3) i2(2,3)]) (use i1(1) i2(1) in \<open>simp_all add: syscon_reboot_init_def syscon_shutdown_init_def\<close>)
qed

lemma boot_setup_eq:
  fixes s :: "'z kernel_scheme"
  assumes "bootable s l fdt es ts strs free"
  defines "r1 \<equiv> syscon_spec ts strs (bytes_of ''syscon-reboot'')" and "r2 \<equiv> syscon_spec ts strs (bytes_of ''syscon-poweroff'')"
  shows "\<exists>p rs t. boot_setup l s fdt = Some (\<not> isl r1, \<not> isl r2, t) \<and>
    has_blob t fdt es ts strs \<and> free_list_ok t rs \<and> page_ok free p rs \<and> writes_only (free_bytes free) s t \<and>
    same_devices (emit s (setup_text fdt ts strs free p rs)) t \<and> uart_rx t = uart_rx s \<and>
    enabled_as r1 (reboot_action t) \<and> enabled_as r2 (shutdown_action t)"
proof -
  have wf: "wf_tree ts" "wf_compatible strs ts" "wf_phandle strs ts" and blob: "has_blob s fdt es ts strs"
    using assms(1) by (simp_all add: bootable_def)
  obtain v u p rs where m: "fdt_boot_mem_init (left_first l) (kernel_end l) (emit s (dump_text ts fdt)) fdt = Some (KERR_SUCCESS, v)"
      "free_list_ok v free" "boot_alloc (emit v (boot_dump free)) 0x1000 4 = Some (u, p)" "free_list_ok u rs"
      "page_ok free p rs" "writes_only (free_bytes free) s u" "has_blob u fdt es ts strs" "uart_rx u = uart_rx s"
      "same_devices (emit s (dump_text ts fdt @ report_lines (memory_reports ts strs ts) @
        totals (reported (memory_reports ts strs ts)) (free_size free) @ boot_dump free)) u"
    using setup_memory [OF assms(1)] by blast
  let ?u = "emit u (alloc_line p @ boot_dump rs)"
  have "has_blob ?u fdt es ts strs" using m(7) by simp
  from setup_actions [OF this wf, folded r1_def r2_def, of "problem ''reboot'' r1"] obtain err1 act1 err2 act2 where
    i: "syscon_reboot_init ?u fdt = Some (err1, ?u\<lparr>reboot_action := act1\<rparr>)"
      "syscon_shutdown_init (emit (?u\<lparr>reboot_action := act1\<rparr>) (problem ''reboot'' r1)) fdt =
        Some (err2, (emit (?u\<lparr>reboot_action := act1\<rparr>) (problem ''reboot'' r1))\<lparr>shutdown_action := act2\<rparr>)"
      "err1 = KERR_SUCCESS \<longleftrightarrow> \<not> isl r1" "enabled_as r1 act1" "err2 = KERR_SUCCESS \<longleftrightarrow> \<not> isl r2" "enabled_as r2 act2" by blast
  let ?t = "emit ((emit (?u\<lparr>reboot_action := act1\<rparr>) (problem ''reboot'' r1))\<lparr>shutdown_action := act2\<rparr>) (problem ''shutdown'' r2)"
  have d: "boot_mem_dump (emit u (alloc_line p)) = Some (KERR_SUCCESS, ?u)"
    using boot_mem_dump_text [of "emit u (alloc_line p)" rs] m(4) by simp
  have "boot_setup l s fdt = Some (\<not> isl r1, \<not> isl r2, ?t)" unfolding i(3,5) [symmetric]
    by (simp only: boot_setup_def fdt_dump_eq [OF blob wf(1)] m(1,3) boot_mem_dump_text [OF m(2)] d i(1,2) alloc_line_printk
        Option.bind.simps prod.case problem_lines(1) [OF i(3)] problem_lines(2) [OF i(5)])
  moreover have "has_blob ?t fdt es ts strs" by (rule has_blob_frame [OF m(7)]) simp_all
  moreover have "free_list_ok ?t rs" using m(4) free_list_ok_frame [of ?t u rs] by simp
  moreover have "writes_only (free_bytes free) s ?t" "uart_rx ?t = uart_rx s" using m(6,8) by (simp_all add: writes_only_def)
  moreover have "same_devices (emit s (setup_text fdt ts strs free p rs)) ?t"
    using m(9) by (simp add: setup_text_def same_devices_def emit_def active_def broadcast_def flip: r1_def r2_def)
  ultimately show ?thesis using m(5) i(4,6) by (intro exI [of _ p] exI [of _ rs] exI [of _ ?t]) simp
qed

section \<open>The console\<close>

definition greeting :: "arch \<Rightarrow> u64 \<Rightarrow> byte list" where
  "greeting a hartid = (case a of
     RISCV \<Rightarrow> bytes_of ''Running on hart ('' @ [ucast hartid + 48] @ bytes_of '')\<newline>'' | ARM64 \<Rightarrow> [])"

text \<open>An empty table of callbacks; and the hart can be printed, as one character.\<close>

definition console_fresh :: "'z console_scheme \<Rightarrow> bool" where
  "console_fresh s \<longleftrightarrow> early_putchar_array s = replicate EARLY_OUTPUT_MAX_PUTCHAR NULL \<and> console_log s = []"

definition printable_hart :: "arch \<Rightarrow> u64 \<Rightarrow> bool" where
  "printable_hart a hartid \<longleftrightarrow> a = RISCV \<longrightarrow> ucast hartid + 48 \<noteq> (0 :: byte)"

definition registered :: "'z console_scheme \<Rightarrow> addr \<Rightarrow> 'z console_scheme" where
  "registered s cb = s\<lparr>early_putchar_array := replicate 7 NULL @ [cb]\<rparr>"

lemma register_fresh:
  assumes "console_fresh s"
  shows "register_early_putchar s cb = Some (KERR_SUCCESS, registered s cb)"
proof -
  have "replicate 8 NULL = [NULL, NULL, NULL, NULL, NULL, NULL, NULL, NULL]"
    and r: "replicate 7 NULL @ [cb] = [NULL, NULL, NULL, NULL, NULL, NULL, NULL, cb]" by (simp_all add: numeral_eq_Suc)
  then have "early_putchar_array s = [NULL, NULL, NULL, NULL, NULL, NULL, NULL, NULL]"
    using assms by (simp add: console_fresh_def EARLY_OUTPUT_MAX_PUTCHAR_def)
  then show ?thesis unfolding registered_def r by (simp add: register_early_putchar_def)
qed

lemma sent_registered:
  assumes "console_fresh s" and "cb \<noteq> NULL" and "same_devices (emit (registered s cb) cs) t"
  shows "sent_to cb t = cs"
proof -
  have a: "active (registered s cb) = [cb]" using assms(2) by (simp add: active_def registered_def)
  have "sent_to cb t = sent_to cb (emit (registered s cb) cs)" using assms(3) by (simp add: same_devices_def sent_to_def)
  also have "\<dots> = sent_to cb (registered s cb) @ cs" using sent_to_emit [of "registered s cb" cb cs] a by simp
  finally show ?thesis using assms(1) by (simp add: sent_to_def registered_def console_fresh_def)
qed

lemma ucast_hart: "ucast (ucast b + 48 :: u32) = (b + 48 :: byte)"
proof -
  have "ucast (x + y :: u32) = (ucast x + ucast y :: byte)" for x y
    by (simp add: unsigned_ucast_eq word_unat_eq_iff unat_word_ariths take_bit_eq_mod mod_simps mod_mod_cancel)
  from this [of "ucast b" 48] show ?thesis by simp
qed

lemma greeting_printk:
  assumes "printable_hart a hartid"
  shows "do { (s', _) \<leftarrow> (case a of
      RISCV \<Rightarrow> printk s (Lit (bytes_of ''Running on hart (%c)\<newline>'')) [VInt (ucast (ucast hartid :: byte) + 48)]
    | ARM64 \<Rightarrow> Some (s, 0)); f s' } = f (emit s (greeting a hartid))"
proof (cases a)
  case RISCV
  have "printk s (Lit (bytes_of ''Running on hart (%c)\<newline>'')) [VInt (ucast (ucast hartid :: byte) + 48)] =
      Some (emit s (greeting a hartid), of_nat (length (greeting a hartid)))"
    unfolding printk_def
  proof (rule early_sink.formatted_print_eq [where str = "\<lambda>_. []"])
    show "cstr s (Lit (bytes_of ''Running on hart (%c)\<newline>'')) (bytes_of ''Running on hart (%c)\<newline>'')"
      by (simp add: cstr_def bytes_of_def)
  qed (use assms RISCV in \<open>simp_all add: bytes_of_def greeting_def printable_hart_def ucast_hart\<close>)
  then show ?thesis using RISCV by simp
qed (simp add: greeting_def)

lemma header_frame:
  assumes "mem t = mem s" and "byte_order t = byte_order s" and "config t = config s"
  shows "fdt_verify t fdt = fdt_verify s fdt" and "fdt_size t fdt = fdt_size s fdt"
proof -
  have "host_bytes t 2 x = host_bytes s 2 x" for x :: u16 using assms(2) by (simp add: host_bytes_def)
  then have "sys_little_endian t = sys_little_endian s" "sys_big_endian t = sys_big_endian s"
    using assms(3) by (simp_all add: sys_little_endian_def sys_big_endian_def split: endian_config.splits)
  then have b: "be32toh t = be32toh s" by (simp add: be32toh_def fun_eq_iff)
  have "load32 t = load32 s" using assms(1,2) by (simp add: fun_eq_iff load32_def read_bytes_def host_join_def)
  then have "fdt_at t = fdt_at s" by (simp add: fun_eq_iff fdt_at_def)
  with b show "fdt_verify t fdt = fdt_verify s fdt" and "fdt_size t fdt = fdt_size s fdt"
    by (simp_all add: fdt_verify_def fdt_size_def)
qed

lemma registered_simps [simp]:
  "mem (registered s cb) = mem s" "byte_order (registered s cb) = byte_order s" "config (registered s cb) = config s"
  by (simp_all add: registered_def)

lemma registered_kernel [simp]:
  "boot_free_list (registered s cb) = boot_free_list s" "uart_rx (registered s cb) = uart_rx s"
  for s :: "'z kernel_scheme"
  by (simp_all add: registered_def)

lemma bootable_frame:
  assumes "bootable s l fdt es ts strs free" and "mem t = mem s" and "byte_order t = byte_order s"
    and "config t = config s" and "boot_free_list t = boot_free_list s"
  shows "bootable t l fdt es ts strs free"
  using assms(1,5) has_blob_frame [of s fdt es ts strs t] assms(2-4) header_frame(2) [OF assms(2-4)] by (auto simp: bootable_def)

section \<open>Constructors and destructors\<close>

text \<open>An array of functions that only print, together \<^term>\<open>cs\<close>, which memory outside \<^term>\<open>R\<close> holds.\<close>

definition func_array :: "'z fptr \<Rightarrow> 'z kernel_scheme \<Rightarrow> nat set \<Rightarrow> addr \<Rightarrow> addr \<Rightarrow> byte list \<Rightarrow> bool" where
  "func_array call s R start stop cs \<longleftrightarrow>
     (\<exists>ps css. list_all2 (prints call) ps css \<and> cs = concat css \<and> stop = start + of_nat (8 * length ps) \<and>
        8 * length ps < 2 ^ 64 \<and>
        (\<forall>i < length ps. load64 s (start + of_nat (8 * i)) = ps ! i \<and> (\<forall>j < 8. unat (start + of_nat (8 * i) + of_nat j) \<notin> R)))"

lemma func_array_mono: "func_array call s R start stop cs \<Longrightarrow> R' \<subseteq> R \<Longrightarrow> func_array call s R' start stop cs"
  unfolding func_array_def by (elim exE conjE) blast

lemma load64_writes:
  assumes "writes_only R s t" and "byte_order t = byte_order s" and "\<forall>j < 8. unat (p + of_nat j) \<notin> R"
  shows "load64 t p = load64 s p"
proof -
  have "mem t (p + of_nat j) = mem s (p + of_nat j)" if "j < 8" for j using assms(1,3) that by (auto simp: writes_only_def)
  then have "read_bytes t p 8 = read_bytes s p 8" by (auto simp: read_bytes_def)
  then show ?thesis using assms(2) by (simp add: load64_def host_join_def)
qed

lemma func_array_run:
  assumes "func_array call s R start stop cs" and "writes_only R s t" and "byte_order t = byte_order s"
  shows "process_func_array call t start stop = Some (emit t cs)"
proof -
  obtain ps css where a: "list_all2 (prints call) ps css" "cs = concat css" "stop = start + of_nat (8 * length ps)"
    "8 * length ps < 2 ^ 64"
    "\<forall>i < length ps. load64 s (start + of_nat (8 * i)) = ps ! i \<and> (\<forall>j < 8. unat (start + of_nat (8 * i) + of_nat j) \<notin> R)"
    using assms(1) by (auto simp: func_array_def)
  have "load64 t (start + of_nat (8 * i)) = ps ! i" if "i < length ps" for i
    using load64_writes [OF assms(2,3)] a(5) that by simp
  from process_func_array_eq [OF this a(1,4)] show ?thesis by (simp add: a(2,3))
qed

section \<open>From power on to the end\<close>

text \<open>What a command makes of the machine: how \<^verbatim>\<open>kmain\<close> ends, what it prints last, and the memory it leaves.\<close>

definition way_out :: "decision \<Rightarrow> outcome" where
  "way_out k = (case k of Panic \<Rightarrow> Stopped Panicked | Reboot \<Rightarrow> Stopped Register_Written | Shutdown \<Rightarrow> Stopped Register_Written
     | _ \<Rightarrow> Returned)"

definition last_words :: "byte list \<Rightarrow> decision \<Rightarrow> byte list" where
  "last_words fin k = (case k of Panic \<Rightarrow> panic_text | Reboot \<Rightarrow> [] | Shutdown \<Rightarrow> [] | _ \<Rightarrow> fin)"

definition set_register :: "generic_syscon_action \<Rightarrow> 'z machine_scheme \<Rightarrow> 'z machine_scheme" where
  "set_register x s = store32 s (sa_reg x) (masked x (load32 s (sa_reg x)))"

definition acted :: "token list \<Rightarrow> byte list \<Rightarrow> decision \<Rightarrow> 'z machine_scheme \<Rightarrow> 'z machine_scheme" where
  "acted ts strs k s = (case k of
     Reboot \<Rightarrow> set_register (projr (syscon_spec ts strs (bytes_of ''syscon-reboot''))) s
   | Shutdown \<Rightarrow> set_register (projr (syscon_spec ts strs (bytes_of ''syscon-poweroff''))) s
   | _ \<Rightarrow> s)"

lemma spec_enabled: "syscon_spec ts strs cs = Inr x \<Longrightarrow> sa_found x"
  by (auto simp: syscon_spec_def Let_def split: if_splits option.splits prod.splits)

lemma trigger_enabled:
  assumes "enabled_as (syscon_spec ts strs cs) act" and "\<not> isl (syscon_spec ts strs cs)"
  shows "trigger_action act s = Some (Register_Written, set_register (projr (syscon_spec ts strs cs)) s)"
proof -
  obtain x where x: "syscon_spec ts strs cs = Inr x" using assms(2) by (auto simp: isl_def) (metis sum.exhaust)
  then show ?thesis using assms(1) spec_enabled [OF x]
    by (simp add: enabled_as_def trigger_action_def set_register_def masked_def Let_def)
qed

lemma set_register_devices [simp]:
  "same_devices s (set_register x s)" by (simp add: same_devices_def set_register_def store32_def write_bytes_def)

lemma finish_eq:
  fixes u :: "'z kernel_scheme"
  assumes "k = command (\<not> isl (syscon_spec ts strs (bytes_of ''syscon-reboot'')))
        (\<not> isl (syscon_spec ts strs (bytes_of ''syscon-poweroff''))) c" and "k \<noteq> Continue"
    and "enabled_as (syscon_spec ts strs (bytes_of ''syscon-reboot'')) (reboot_action u)"
    and "enabled_as (syscon_spec ts strs (bytes_of ''syscon-poweroff'')) (shutdown_action u)"
    and "fini call l u = Some (emit u fin)"
  shows "finish call l k u = Some (way_out k, acted ts strs k (emit u (last_words fin k)))"
proof (cases k)
  case Reboot
  then have "\<not> isl (syscon_spec ts strs (bytes_of ''syscon-reboot''))" using assms(1) by (auto simp: command_def split: if_splits)
  from trigger_enabled [OF assms(3) this, of u] show ?thesis
    by (simp add: Reboot finish_def syscon_reboot_def way_out_def last_words_def acted_def)
next
  case Shutdown
  then have "\<not> isl (syscon_spec ts strs (bytes_of ''syscon-poweroff''))" using assms(1) by (auto simp: command_def split: if_splits)
  from trigger_enabled [OF assms(4) this, of u] show ?thesis
    by (simp add: Shutdown finish_def syscon_shutdown_def way_out_def last_words_def acted_def)
qed (use assms(2,5) in \<open>simp_all add: finish_def way_out_def last_words_def acted_def abort_eq\<close>)

lemma acted_devices [simp]: "same_devices s (acted ts strs k s)"
  by (cases k) (simp_all add: acted_def, simp_all add: same_devices_def)

lemma acted_frame:
  assumes "mem t = mem s" and "byte_order t = byte_order s"
  shows "mem (acted ts strs k t) = mem (acted ts strs k s)"
proof -
  have "host_bytes t 4 w = host_bytes s 4 w" for w :: u32 using assms(2) by (simp add: host_bytes_def)
  moreover have "load32 t p = load32 s p" for p using assms by (simp add: load32_def read_bytes_def host_join_def)
  moreover have "mem (write_bytes t p bs) = mem (write_bytes s p bs)" for p bs by (simp add: write_bytes_def assms(1) cong: if_cong)
  ultimately have "mem (set_register x t) = mem (set_register x s)" for x by (simp add: set_register_def store32_def)
  then show ?thesis using assms(1) by (simp add: acted_def split: decision.splits)
qed

lemma kmain_start:
  fixes s :: "'z kernel_scheme"
  assumes "console_fresh s" and "printable_hart ar hartid"
  shows "kmain ar call l s hartid fdt =
    (let s2 = emit (registered s (uart_putchar l)) (greeting ar hartid) in
     if fdt_verify s fdt \<noteq> FDT_VALID then
       Some (Stopped Panicked, emit s2 (bytes_of ''Cannot Read the FDT!\<newline>'' @ panic_text))
     else do {
       (r, d, s3) \<leftarrow> boot_setup l s2 fdt;
       s4 \<leftarrow> preinit call l s3;
       s5 \<leftarrow> init call l s4;
       (k, s6) \<leftarrow> main_loop r d s5;
       finish call l k s6
     })"
proof -
  have p: "do { (s', _) \<leftarrow> printk u (Lit (bytes_of ''Cannot Read the FDT!\<newline>'')) []; f s' } =
      f (emit u (bytes_of ''Cannot Read the FDT!\<newline>''))" for u :: "'z kernel_scheme" and f :: "'z kernel_scheme \<Rightarrow> (outcome \<times> 'z kernel_scheme) option"
    by (rule printk_then) (auto simp: bytes_of_def)
  have v: "fdt_verify (emit (registered s (uart_putchar l)) cs) fdt = fdt_verify s fdt" for cs by (rule header_frame) simp_all
  show ?thesis
    by (simp only: kmain_def register_fresh [OF assms(1)] Option.bind.simps prod.case greeting_printk [OF assms(2)] v p abort_eq
        Let_def option.map emit_append append_assoc)
qed

text \<open>A run of \<^verbatim>\<open>kmain\<close>, for whatever memory becomes free.\<close>

lemma kmain_run:
  fixes s :: "'z kernel_scheme"
  assumes boot: "bootable s l fdt es ts strs free" and fresh: "console_fresh s"
    and cb: "uart_putchar l \<noteq> NULL" and hart: "printable_hart ar hartid"
    and pre: "func_array call s (free_bytes free) (preinit_array_start l) (preinit_array_end l) before"
    and ctor: "func_array call s (free_bytes free) (init_array_start l) (init_array_end l) ctors"
    and dtor: "func_array call s (free_bytes free) (fini_array_start l) (fini_array_end l) dtors"
    and r: "r = (\<not> isl (syscon_spec ts strs (bytes_of ''syscon-reboot'')))"
    and d: "d = (\<not> isl (syscon_spec ts strs (bytes_of ''syscon-poweroff'')))"
    and keys: "list_all (ordinary r d) ks" "command r d k \<noteq> Continue" "7 \<le> m" "distinct_adj (map fst ks @ [k])"
      "uart_rx s = typed (ks @ [(k, m)]) rest"
  shows "\<exists>p rs u t. kmain ar call l s hartid fdt = Some (way_out (command r d k), t) \<and>
    page_ok free p rs \<and> free_list_ok u rs \<and> writes_only (free_bytes free) s u \<and> byte_order u = byte_order s \<and> mem t = mem (acted ts strs (command r d k) u) \<and>
    sent_to (uart_putchar l) t = greeting ar hartid @ setup_text fdt ts strs free p rs @ before @ ctors @
      concat (map echo (map fst ks @ [k])) @ last_words dtors (command r d k)"
proof -
  let ?s1 = "registered s (uart_putchar l)" and ?c = "command r d k"
  let ?s2 = "emit ?s1 (greeting ar hartid)"
  have "bootable ?s2 l fdt es ts strs free" by (rule bootable_frame [OF boot]) simp_all
  from boot_setup_eq [OF this, folded r d] obtain p rs s3 where
    s3: "boot_setup l ?s2 fdt = Some (r, d, s3)" "free_list_ok s3 rs" "page_ok free p rs" "writes_only (free_bytes free) s s3"
      "same_devices (emit ?s2 (setup_text fdt ts strs free p rs)) s3" "uart_rx s3 = uart_rx s"
      "enabled_as (syscon_spec ts strs (bytes_of ''syscon-reboot'')) (reboot_action s3)"
      "enabled_as (syscon_spec ts strs (bytes_of ''syscon-poweroff'')) (shutdown_action s3)"
    by (auto simp: writes_only_def)
  have order: "byte_order s3 = byte_order s" using s3(5) by (simp add: same_devices_def)
  obtain rx where loop: "main_loop r d (emit s3 (before @ ctors)) =
      Some (?c, emit (s3\<lparr>uart_rx := rx\<rparr>) (before @ ctors @ concat (map echo (map fst ks @ [k]))))"
    using main_loop_typed [OF keys(1-4), of "emit s3 (before @ ctors)" rest] keys(5) s3(6) by auto
  let ?u = "emit (s3\<lparr>uart_rx := rx\<rparr>) (before @ ctors @ concat (map echo (map fst ks @ [k])))"
  let ?t = "acted ts strs ?c (emit ?u (last_words dtors ?c))"
  have "fini call l ?u = Some (emit ?u dtors)"
    unfolding fini_def by (rule func_array_run [OF dtor]) (use s3(4) order in \<open>simp_all add: writes_only_def\<close>)
  from finish_eq [OF _ keys(2) _ _ this] have fin: "finish call l ?c ?u = Some (way_out ?c, ?t)" using s3(7,8) r d by simp
  have "preinit call l s3 = Some (emit s3 before)" "init call l (emit s3 before) = Some (emit s3 (before @ ctors))"
    using func_array_run [OF pre s3(4) order] func_array_run [OF ctor, of "emit s3 before"] s3(4) order
    by (simp_all add: preinit_def init_def)
  moreover have "fdt_verify s fdt = FDT_VALID" using boot by (auto simp: bootable_def intro: blob_ok(1))
  ultimately have "kmain ar call l s hartid fdt = Some (way_out ?c, ?t)"
    by (simp only: kmain_start [OF fresh hart] Let_def s3(1) loop fin Option.bind.simps prod.case) simp
  moreover have "sent_to (uart_putchar l) ?t = greeting ar hartid @ setup_text fdt ts strs free p rs @ before @ ctors @
      concat (map echo (map fst ks @ [k])) @ last_words dtors ?c"
  proof (rule sent_registered [OF fresh cb])
    have "same_devices (emit ?s1 (greeting ar hartid @ setup_text fdt ts strs free p rs)) (s3\<lparr>uart_rx := rx\<rparr>)"
      using s3(5) by (simp add: same_devices_def)
    from same_devices_trans [OF after_emit [OF this] acted_devices]
    show "same_devices (emit ?s1 (greeting ar hartid @ setup_text fdt ts strs free p rs @ before @ ctors @
      concat (map echo (map fst ks @ [k])) @ last_words dtors ?c)) ?t" by (simp add: append_assoc)
  qed
  moreover have "mem ?t = mem (acted ts strs ?c s3)" by (rule acted_frame) simp_all
  ultimately show ?thesis using s3(2-4) order by blast
qed

section \<open>A machine to boot\<close>

text \<open>The \<^verbatim>\<open>virt\<close> board at power on, with one constructor and one destructor.\<close>

definition virt_linked :: linked where
  "virt_linked = \<lparr>left_first = True, kernel_end = 0x80200000, uart_putchar = 0x80000100,
     preinit_array_start = 0x80010000, preinit_array_end = 0x80010000,
     init_array_start = 0x80010000, init_array_end = 0x80010008,
     fini_array_start = 0x80010008, fini_array_end = 0x80010010\<rparr>"

definition virt_call :: "unit fptr" where
  "virt_call p s = (if p = 0x80000200 then foo s else if p = 0x80000300 then bar s else None)"

definition virt_cold :: "byte stream \<Rightarrow> kernel" where
  "virt_cold rx = store64 (store64 ((virt_kernel rx)\<lparr>early_putchar_array := replicate EARLY_OUTPUT_MAX_PUTCHAR NULL,
     console_log := []\<rparr>) 0x80010000 0x80000200) 0x80010008 0x80000300"

lemma store64_kernel [simp]:
  "boot_free_list (store64 s p w) = boot_free_list s" "uart_rx (store64 s p w) = uart_rx s"
  "early_putchar_array (store64 s p w) = early_putchar_array s" "console_log (store64 s p w) = console_log s"
  for s :: "'z kernel_scheme"
  by (simp_all add: store64_def write_bytes_def)

lemma mem_store64_other:
  assumes "disjoint p 8 x 1"
  shows "mem (store64 s p w) x = mem s x"
  using unat_sub_ge [OF assms, of 0] by (simp add: store64_def mem_write_bytes)

lemma virt_cold_blob: "has_blob (virt_cold rx) virt_base virt_reserved virt_tokens virt_strings"
proof (rule has_blob_frame [OF virt_kernel_blob])
  fix x :: addr
  assume "unat virt_base \<le> unat x" and "unat x < unat virt_base + length (fdt_bytes virt_reserved virt_tokens virt_strings)"
  then have "disjoint 0x80010000 8 x 1" "disjoint 0x80010008 8 x 1"
    using virt_length by (simp_all add: disjoint_def virt_base_def)
  then show "mem (virt_cold rx) x = mem (virt_kernel rx) x" by (simp add: virt_cold_def mem_store64_other)
qed (simp_all add: virt_cold_def)

text \<open>The same board with a kernel that ends above its memory.\<close>

definition huge_linked :: linked where
  "huge_linked = virt_linked\<lparr>kernel_end := 0x90000000\<rparr>"

lemma huge_bootable: "bootable (virt_cold rx) huge_linked virt_base virt_reserved virt_tokens virt_strings []"
proof -
  have "memory_gives lf 0x90000000 virt_reserved virt_base fn (memory_reports virt_tokens virt_strings virt_tokens) []" for lf fn
    by (rule gives_nothing) (auto simp: virt_reports virt_reserved_def nothing_new_def digit_def nowrap_def block_def usable_def)
  then show ?thesis using virt_cold_blob virt_names_wf virt_tree(1)
    by (auto simp: bootable_def huge_linked_def) (simp add: virt_cold_def virt_kernel_def virt_sysc_def virt_boot_def machine.defs boot.defs sysc.defs)
qed

lemma virt_bootable:
  "bootable (virt_cold rx) virt_linked virt_base virt_reserved virt_tokens virt_strings [(0x80200000, 0x7c00000)]"
proof -
  have "fdt_size (virt_cold rx) virt_base = fdt_size virt_boot virt_base"
    by (rule has_blob_tok_ptr(2) [OF virt_blobs(2) virt_cold_blob])
  then show ?thesis using virt_cold_blob virt_names_wf virt_tree(1) virt_gives
    by (auto simp: bootable_def virt_linked_def) (simp add: virt_cold_def virt_kernel_def virt_sysc_def virt_boot_def machine.defs boot.defs sysc.defs)
qed

lemma virt_console: "console_fresh (virt_cold rx)"
  by (simp add: console_fresh_def virt_cold_def)

lemma foo_bar_eq:
  "foo s = Some (emit s (bytes_of ''Hello from a global constructor!\<newline>''))"
  "bar s = Some (emit s (bytes_of ''Hello from a global destructor!\<newline>''))"
  using printk_plain [of "bytes_of ''Hello from a global constructor!\<newline>''" s]
    printk_plain [of "bytes_of ''Hello from a global destructor!\<newline>''" s]
  by (simp_all add: foo_def bar_def) (simp_all add: bytes_of_def)

lemma virt_arrays:
  "func_array virt_call (virt_cold rx) (free_bytes [(0x80200000, 0x7c00000)]) (preinit_array_start virt_linked)
     (preinit_array_end virt_linked) []"
  "func_array virt_call (virt_cold rx) (free_bytes [(0x80200000, 0x7c00000)]) (init_array_start virt_linked)
     (init_array_end virt_linked) (bytes_of ''Hello from a global constructor!\<newline>'')"
  "func_array virt_call (virt_cold rx) (free_bytes [(0x80200000, 0x7c00000)]) (fini_array_start virt_linked)
     (fini_array_end virt_linked) (bytes_of ''Hello from a global destructor!\<newline>'')"
proof -
  have p: "prints virt_call 0x80000200 (bytes_of ''Hello from a global constructor!\<newline>'')"
    "prints virt_call 0x80000300 (bytes_of ''Hello from a global destructor!\<newline>'')"
    by (simp_all add: prints_def virt_call_def foo_bar_eq)
  have l: "load64 (virt_cold rx) 0x80010000 = 0x80000200" "load64 (virt_cold rx) 0x80010008 = 0x80000300"
    by (simp_all add: virt_cold_def mem_simps disjoint_def)
  have o: "unat (0x80010000 + of_nat j :: addr) \<notin> free_bytes [(0x80200000, 0x7c00000)]"
    "unat (0x80010008 + of_nat j :: addr) \<notin> free_bytes [(0x80200000, 0x7c00000)]" if "j < 8" for j
    using that unat_add_nowrap [of "0x80010000" j] unat_add_nowrap [of "0x80010008" j] by (simp_all add: block_def)
  show "func_array virt_call (virt_cold rx) (free_bytes [(0x80200000, 0x7c00000)]) (preinit_array_start virt_linked)
     (preinit_array_end virt_linked) []"
    unfolding func_array_def by (intro exI [of _ "[]"]) (simp add: virt_linked_def)
  show "func_array virt_call (virt_cold rx) (free_bytes [(0x80200000, 0x7c00000)]) (init_array_start virt_linked)
     (init_array_end virt_linked) (bytes_of ''Hello from a global constructor!\<newline>'')"
    unfolding func_array_def
    by (intro exI [of _ "[0x80000200]"] exI [of _ "[bytes_of ''Hello from a global constructor!\<newline>'']"])
      (simp add: virt_linked_def p l o [simplified])
  show "func_array virt_call (virt_cold rx) (free_bytes [(0x80200000, 0x7c00000)]) (fini_array_start virt_linked)
     (fini_array_end virt_linked) (bytes_of ''Hello from a global destructor!\<newline>'')"
    unfolding func_array_def
    by (intro exI [of _ "[0x80000300]"] exI [of _ "[bytes_of ''Hello from a global destructor!\<newline>'']"])
      (simp add: virt_linked_def p l o [simplified])
qed

lemma huge_arrays:
  "func_array virt_call (virt_cold rx) {} (preinit_array_start huge_linked) (preinit_array_end huge_linked) []"
  "func_array virt_call (virt_cold rx) {} (init_array_start huge_linked) (init_array_end huge_linked)
     (bytes_of ''Hello from a global constructor!\<newline>'')"
  "func_array virt_call (virt_cold rx) {} (fini_array_start huge_linked) (fini_array_end huge_linked)
     (bytes_of ''Hello from a global destructor!\<newline>'')"
  using virt_arrays [THEN func_array_mono, of "{}"] by (simp_all add: huge_linked_def)

end
