(* ===== verification/Boot_Client.thy ===== *)
theory Boot_Client
  imports Free_List
begin

text \<open>
  The boot allocator under any use the note in \<^verbatim>\<open>include/kernel/mem/boot.h\<close> allows: regions given to it with \<^verbatim>\<open>boot_free\<close>, none of
  them twice, and blocks taken from it with \<^verbatim>\<open>boot_alloc\<close>, in any order; but no region at one of the two places where \<^verbatim>\<open>boot_free\<close>
  goes wrong.  One is below the first region (\<^verbatim>\<open>Free_List\<close>); the other is shown here.
\<close>

section \<open>Definitions\<close>

text \<open>Where \<^verbatim>\<open>boot_free\<close> takes the first region to end: 24 times too far.\<close>

definition apparent_end :: "'z boot_scheme \<Rightarrow> addr" where
  "apparent_end s = boot_free_list s + 24 * region_size s (boot_free_list s)"

definition givable :: "addr \<Rightarrow> size_t \<Rightarrow> bool" where
  "givable start sz \<longleftrightarrow> start \<noteq> NULL \<and> unat sz < 2 ^ 63 \<and> unat start + unat sz < 2 ^ 64"

text \<open>The places where \<^verbatim>\<open>boot_free\<close> does what its documentation says: not at the apparent end of the first region, and not below
  it.\<close>

definition sound_place :: "'z boot_scheme \<Rightarrow> addr \<Rightarrow> size_t \<Rightarrow> bool" where
  "sound_place s start sz \<longleftrightarrow> boot_free_list s = NULL \<or>
     apparent_end s \<noteq> start \<and> \<not> (start + sz < boot_free_list s \<and> start < apparent_end s)"

text \<open>The states a client can reach, with the memory it has given to the allocator and the blocks it holds.\<close>

inductive client :: "'z boot_scheme \<Rightarrow> nat set \<Rightarrow> (addr \<times> size_t) list \<Rightarrow> bool" where
  fresh: "boot_free_list s = NULL \<Longrightarrow> client s {} []"
| take: "client s given held \<Longrightarrow> request_ok sz al \<Longrightarrow> boot_alloc s sz al = Some (t, p) \<Longrightarrow>
    client t given (if p = NULL then held else (p, sz) # held)"
| give: "client s given held \<Longrightarrow> givable start sz \<Longrightarrow> block start sz \<inter> given = {} \<Longrightarrow>
    sound_place s start sz \<Longrightarrow> boot_free s start sz = Some (err, t) \<Longrightarrow>
    client t (if err = KERR_SUCCESS then given \<union> block start sz else given) held"

definition held_bytes :: "(addr \<times> size_t) list \<Rightarrow> nat set" where
  "held_bytes held = (\<Union>(p, sz) \<in> set held. block p sz)"

text \<open>The free list is well-formed, the blocks are disjoint, and blocks and free memory share no byte and are part of what
  the client has given.\<close>

definition owned :: "'z boot_scheme \<Rightarrow> nat set \<Rightarrow> (addr \<times> size_t) list \<Rightarrow> bool" where
  "owned s given held \<longleftrightarrow> (\<exists>rs. free_list_ok s rs \<and> free_bytes rs \<subseteq> given - held_bytes held) \<and> held_bytes held \<subseteq> given \<and>
     sorted_wrt (\<lambda>(p, sz) (q, sz'). block p sz \<inter> block q sz' = {}) held"

section \<open>Preservation\<close>

lemma held_bytes_simps [simp]:
  "held_bytes [] = {}" "held_bytes ((p, sz) # held) = block p sz \<union> held_bytes held"
  by (simp_all add: held_bytes_def)

lemma empty_list: "boot_free_list s = NULL \<Longrightarrow> free_list_ok s rs \<longleftrightarrow> rs = []"
  by (cases rs) (auto simp: free_list_ok_def)

lemma owned_alloc:
  assumes "owned s given held" and "request_ok sz al" and "boot_alloc s sz al = Some (t, p)"
  shows "owned t given (if p = NULL then held else (p, sz) # held)"
proof -
  obtain rs where rs: "free_list_ok s rs" "free_bytes rs \<subseteq> given - held_bytes held" using assms(1) by (auto simp: owned_def)
  from free_list_alloc.alloc_step [OF rs(1) assms(2,3)] obtain rs' where
    rs': "free_list_ok t rs'" "free_bytes rs' \<subseteq> free_bytes rs"
      "p \<noteq> NULL \<Longrightarrow> block p sz \<subseteq> free_bytes rs \<and> free_bytes rs' \<inter> block p sz = {}" by blast
  have "block p sz \<inter> block q sz' = {}" if "p \<noteq> NULL" "(q, sz') \<in> set held" for q sz'
    using that rs(2) rs'(3) by (fastforce simp: held_bytes_def)
  then have "sorted_wrt (\<lambda>(p, sz) (q, sz'). block p sz \<inter> block q sz' = {}) (if p = NULL then held else (p, sz) # held)"
    using assms(1) by (auto simp: owned_def)
  moreover have "free_bytes rs' \<subseteq> given - held_bytes (if p = NULL then held else (p, sz) # held)"
    using rs(2) rs'(2,3) by (cases "p = NULL") auto
  moreover have "held_bytes (if p = NULL then held else (p, sz) # held) \<subseteq> given"
    using assms(1) rs(2) rs'(3) by (cases "p = NULL") (auto simp: owned_def)
  ultimately show ?thesis using rs'(1) unfolding owned_def by blast
qed

lemma boot_free_sound:
  assumes "free_list_ok s rs" and "givable start sz" and "sound_place s start sz"
  shows "\<exists>err t. boot_free s start sz = Some (err, t) \<and>
    (if err = KERR_SUCCESS then rs = [] \<and> free_list_ok t [(start, sz)] \<and> writes_only (block start sz) s t else t = s)"
proof (cases "boot_free_list s = NULL")
  case True
  then show ?thesis
    using boot_free_empty [OF True, of start sz] assms empty_list [OF True]
    by (cases "unat sz < 24") (auto simp: givable_def boot_free_unfold region_struct_size_def word_less_nat_alt)
next
  case False
  then obtain a n rs' where rs: "rs = (a, n) # rs'" using assms(1) by (cases rs) (auto simp: free_list_ok_def)
  then have "boot_free_list s = a" "apparent_end s = a + 24 * n" using assms(1) by (auto simp: apparent_end_def free_list_ok_def)
  then show ?thesis using boot_free_nonempty [of s a n rs' start sz] assms rs False by (auto simp: sound_place_def)
qed

lemma free_cases:
  assumes "free_list_ok s rs" and "givable start sz" and "sound_place s start sz" and "boot_free s start sz = Some (err, t)"
  shows "if err = KERR_SUCCESS then rs = [] \<and> free_list_ok t [(start, sz)] \<and> writes_only (block start sz) s t else t = s"
  using boot_free_sound [OF assms(1-3)] assms(4) by auto

lemma owned_free:
  assumes "owned s given held" and "givable start sz" and "block start sz \<inter> given = {}"
    and "sound_place s start sz" and "boot_free s start sz = Some (err, t)"
  shows "owned t (if err = KERR_SUCCESS then given \<union> block start sz else given) held"
proof -
  obtain rs where rs: "free_list_ok s rs" "free_bytes rs \<subseteq> given - held_bytes held" using assms(1) by (auto simp: owned_def)
  note step = free_cases [OF rs(1) assms(2,4,5)]
  show ?thesis
  proof (cases "err = KERR_SUCCESS")
    case True
    then have "free_list_ok t [(start, sz)]" using step by simp
    moreover have "free_bytes [(start, sz)] = block start sz" by (simp add: free_bytes_def block_def)
    ultimately show ?thesis using True assms(1,3) unfolding owned_def by (simp, blast)
  qed (use step assms(1) in simp)
qed

lemma client_owns: "client s given held \<Longrightarrow> owned s given held"
proof (induction rule: client.induct)
  case (fresh s)
  then show ?case by (auto simp: owned_def empty_list free_bytes_def)
qed (auto dest: owned_alloc owned_free)

section \<open>The wrong merge\<close>

lemma merge_eq:
  assumes "free_list_ok s [(a, n)]" and "start = a + 24 * n" and "unat n + unat sz < 2 ^ 63" and "unat a + unat n + unat sz < 2 ^ 64"
  shows "\<exists>t. boot_free s start sz = Some (KERR_SUCCESS, t) \<and> free_list_ok t [(a, n + sz)]"
proof -
  have s: "boot_free_list s = a" "a \<noteq> NULL" "region_prev s a = NULL" "region_size s a = n" "region_next s a = NULL"
      "1 \<le> unat a" "24 \<le> unat n"
    using assms(1) by (auto simp: free_list_ok_def)
  let ?t = "set_size s a (n + sz)"
  have "boot_free s start sz = Some (KERR_SUCCESS, ?t)"
    using s assms(2) by (simp add: boot_free_unfold free_body_def Let_def boot_free_list_next_def region_struct_size_def)
  moreover have "unat (n + sz) = unat n + unat sz" using assms(3) by (intro unat_add64) simp
  then have "free_list_ok ?t [(a, n + sz)]" using s assms(3,4) by (auto simp: free_list_ok_def)
  ultimately show ?thesis by blast
qed

section \<open>Properties\<close>

text \<open>C7. A client interleaves taking blocks, and giving regions, no byte twice and none at the two places where \<^verbatim>\<open>boot_free\<close> goes
  wrong: at 24 times the size of the first region above it (C35), and below it (C34).  In every state it can reach each further
  such call returns, the free list is well-formed, the blocks the client holds do not overlap, none of them overlaps memory that
  is still free, and all of this is memory the client has given.\<close>

theorem client_owned:
  assumes "client s given held"
  shows "owned s given held \<and> (\<forall>sz al. request_ok sz al \<longrightarrow> boot_alloc s sz al \<noteq> None) \<and>
    (\<forall>start sz. givable start sz \<and> sound_place s start sz \<longrightarrow> boot_free s start sz \<noteq> None)"
proof -
  have o: "owned s given held" using assms by (rule client_owns)
  then obtain rs where rs: "free_list_ok s rs" by (auto simp: owned_def)
  then show ?thesis using o boot_alloc_eq [OF rs] boot_free_sound [OF rs] by fastforce
qed

theorem client_owned_witness:
  "\<exists>(s :: boot) p. client s (block 0x80200000 0x1000) [(p, 256)] \<and> owned s (block 0x80200000 0x1000) [(p, 256)]"
proof -
  obtain s :: boot where s: "boot_free demo_boot 0x80200000 0x1000 = Some (KERR_SUCCESS, s)" "free_list_ok s [(0x80200000, 0x1000)]"
    using demo_region by blast
  have "client demo_boot {} []" by (rule fresh) (simp add: demo_boot_def)
  from give [OF this _ _ _ s(1)] have c: "client s (block 0x80200000 0x1000) []"
    by (simp add: givable_def sound_place_def demo_boot_def)
  have req: "request_ok 256 4" by (simp add: request_ok_def)
  obtain t p where "boot_alloc s 256 4 = Some (t, p)" "p \<noteq> NULL"
    using boot_alloc_eq [OF s(2) req] demo_fits by fastforce
  with take [OF c req] have "client t (block 0x80200000 0x1000) [(p, 256)]" by fastforce
  then show ?thesis using client_owned by blast
qed

text \<open>C35. The end of the first region is computed with arithmetic on a struct pointer.  A region given at 24 times the size of the
  only free region is taken to be adjacent to it: the call reports success, the region itself is lost, and as many bytes behind
  the free region, which nobody has given, are free from then on.\<close>

theorem boot_free_wrong_merge:
  assumes "free_list_ok s [(a, n)]" and "start = a + 24 * n" and "unat n + unat sz < 2 ^ 63" and "unat a + unat n + unat sz < 2 ^ 64"
  shows "\<exists>t. boot_free s start sz = Some (KERR_SUCCESS, t) \<and> free_list_ok t [(a, n + sz)] \<and>
    free_bytes [(a, n + sz)] = free_bytes [(a, n)] \<union> {unat a + unat n ..< unat a + unat n + unat sz}"
proof -
  have "unat (n + sz) = unat n + unat sz" using assms(3) by (intro unat_add64) simp
  then have "free_bytes [(a, n + sz)] = free_bytes [(a, n)] \<union> {unat a + unat n ..< unat a + unat n + unat sz}"
    by (auto simp: free_bytes_def)
  then show ?thesis using merge_eq [OF assms] by blast
qed

theorem boot_free_wrong_merge_witness:
  "\<exists>(s :: boot) t. free_list_ok s [(0x80200000, 0x1000)] \<and> boot_free s 0x80218000 0x2000 = Some (KERR_SUCCESS, t) \<and>
     free_list_ok t [(0x80200000, 0x3000)]"
proof -
  obtain s :: boot where s: "free_list_ok s [(0x80200000, 0x1000)]" using demo_region by blast
  show ?thesis using boot_free_wrong_merge [OF s, of "0x80218000" "0x2000"] s by auto
qed

end
