(* ===== verification/Kernel_Inv.thy ===== *)
theory Kernel_Inv
  imports Boot_Sequence Boot_Client Fdt_Malformed
begin

text \<open>
  The kernel's functions as one set of calls, in any order.  Each call has a condition on its arguments and on the state it is made
  in (\<open>admissible\<close>).  In every state that admissible calls lead to, the state is well-formed, every further admissible call
  returns, and memory is written only where the calls allow it.  The functions that only read, those of \<^verbatim>\<open>fdt.c\<close> and the
  comparisons of strings, are no calls here; \<^verbatim>\<open>kmain\<close> itself is the subject of the root theory.
\<close>

section \<open>Definitions\<close>

text \<open>The functions that change the state, with their arguments.\<close>

datatype service =
    Register addr | Unregister addr | Put_Char byte | Put_String cptr | Print cptr "varg list" | Abort
  | Dump_Tree addr | Find_Memory addr | Give addr size_t | Take size_t size_t | Dump_Free_List
  | Init_Reboot addr | Init_Shutdown addr | Trigger_Reboot | Trigger_Shutdown | Read_Key bool bool
  | Copy addr addr size_t | Move addr addr size_t | Fill addr u32 size_t | Fill_Explicit addr u32 size_t

fun perform :: "linked \<Rightarrow> service \<Rightarrow> 'z kernel_scheme \<Rightarrow> 'z kernel_scheme option" where
  "perform l (Register cb) s = map_option snd (register_early_putchar s cb)"
| "perform l (Unregister cb) s = Some (snd (unregister_early_putchar s cb))"
| "perform l (Put_Char c) s = Some (early_putchar s c)"
| "perform l (Put_String str) s = early_puts s str"
| "perform l (Print fmt args) s = map_option fst (printk s fmt args)"
| "perform l Abort s = abort s"
| "perform l (Dump_Tree fdt) s = fdt_dump s fdt"
| "perform l (Find_Memory fdt) s = map_option snd (fdt_boot_mem_init (left_first l) (kernel_end l) s fdt)"
| "perform l (Give start sz) s = map_option snd (boot_free s start sz)"
| "perform l (Take sz al) s = map_option fst (boot_alloc s sz al)"
| "perform l Dump_Free_List s = map_option snd (boot_mem_dump s)"
| "perform l (Init_Reboot fdt) s = map_option snd (syscon_reboot_init s fdt)"
| "perform l (Init_Shutdown fdt) s = map_option snd (syscon_shutdown_init s fdt)"
| "perform l Trigger_Reboot s = map_option snd (syscon_reboot s)"
| "perform l Trigger_Shutdown s = map_option snd (syscon_shutdown s)"
| "perform l (Read_Key r d) s = map_option snd (round_step r d s)"
| "perform l (Copy dest src n) s = map_option fst (memcpy s dest src n)"
| "perform l (Move dest src n) s = map_option fst (memmove s dest src n)"
| "perform l (Fill dest ch n) s = map_option fst (memset s dest ch n)"
| "perform l (Fill_Explicit dest ch n) s = map_option fst (memset_explicit s dest ch n)"

text \<open>Bytes that no free region contains, and a range of such bytes that a call may write.\<close>

definition off_list :: "'z boot_scheme \<Rightarrow> nat set \<Rightarrow> bool" where
  "off_list s M \<longleftrightarrow> (\<forall>rs. free_list_ok s rs \<longrightarrow> M \<inter> free_bytes rs = {})"

definition target_ok :: "'z boot_scheme \<Rightarrow> addr \<Rightarrow> size_t \<Rightarrow> bool" where
  "target_ok s dest n \<longleftrightarrow> dest \<noteq> NULL \<and> nowrap dest n \<and> off_list s (block dest n)"

definition register_bytes :: "generic_syscon_action \<Rightarrow> nat set" where
  "register_bytes act = (if sa_found act then block (sa_reg act) 4 else {})"

definition register_ok :: "'z boot_scheme \<Rightarrow> generic_syscon_action \<Rightarrow> bool" where
  "register_ok s act \<longleftrightarrow> (sa_found act \<longrightarrow> nowrap (sa_reg act) 4) \<and> off_list s (register_bytes act)"

text \<open>The UART never delivers one byte for ever.\<close>

definition lively :: "'z kernel_scheme \<Rightarrow> bool" where
  "lively s \<longleftrightarrow> (\<forall>n. \<exists>m. sdrop n (uart_rx s) !! m \<noteq> shd (sdrop n (uart_rx s)))"

text \<open>Which calls are admissible in a state; the memory a call adds to what the allocator has been given; and the memory outside
  the allocator that it may write.\<close>

inductive admissible :: "linked \<Rightarrow> 'z kernel_scheme \<Rightarrow> service \<Rightarrow> nat set \<Rightarrow> nat set \<Rightarrow> bool" for l s where
  register: "cb \<noteq> NULL \<Longrightarrow> cb \<in> set (active s) \<or> table_room s \<Longrightarrow> admissible l s (Register cb) {} {}"
| unregister: "cb \<noteq> NULL \<Longrightarrow> admissible l s (Unregister cb) {} {}"
| put_char: "admissible l s (Put_Char c) {} {}"
| put_string: "cstr s str cs \<Longrightarrow> admissible l s (Put_String str) {} {}"
| print: "cstr s fmt cs \<Longrightarrow> cs \<noteq> [] \<Longrightarrow> render str False cs args = Some os \<Longrightarrow> list_all (arg_ok s str) args \<Longrightarrow>
    admissible l s (Print fmt args) {} {}"
| panic: "admissible l s Abort {} {}"
| dump_tree: "bounded s fdt z \<Longrightarrow> admissible l s (Dump_Tree fdt) {} {}"
| find_memory: "bootable s l fdt es ts strs free \<Longrightarrow> admissible l s (Find_Memory fdt) (free_bytes free) {}"
| give: "givable start sz \<Longrightarrow> sound_place s start sz \<Longrightarrow>
    admissible l s (Give start sz) (if boot_free_list s = NULL \<and> 24 \<le> unat sz then block start sz else {}) {}"
| take: "request_ok sz al \<Longrightarrow> admissible l s (Take sz al) {} {}"
| dump_free_list: "admissible l s Dump_Free_List {} {}"
| init_reboot: "tree_ok s fdt ts strs \<Longrightarrow> admissible l s (Init_Reboot fdt) {} {}"
| init_shutdown: "tree_ok s fdt ts strs \<Longrightarrow> admissible l s (Init_Shutdown fdt) {} {}"
| trigger_reboot: "register_ok s (reboot_action s) \<Longrightarrow>
    admissible l s Trigger_Reboot {} (register_bytes (reboot_action s))"
| trigger_shutdown: "register_ok s (shutdown_action s) \<Longrightarrow>
    admissible l s Trigger_Shutdown {} (register_bytes (shutdown_action s))"
| read_key: "lively s \<Longrightarrow> admissible l s (Read_Key r d) {} {}"
| copy: "target_ok s dest n \<Longrightarrow> src \<noteq> NULL \<Longrightarrow> admissible l s (Copy dest src n) {} (block dest n)"
| move: "target_ok s dest n \<Longrightarrow> src \<noteq> NULL \<Longrightarrow> admissible l s (Move dest src n) {} (block dest n)"
| fill: "target_ok s dest n \<Longrightarrow> admissible l s (Fill dest ch n) {} (block dest n)"
| fill_explicit: "target_ok s dest n \<Longrightarrow> admissible l s (Fill_Explicit dest ch n) {} (block dest n)"

text \<open>Any number of admissible calls.\<close>

inductive runs :: "linked \<Rightarrow> 'z kernel_scheme \<Rightarrow> nat set \<Rightarrow> nat set \<Rightarrow> 'z kernel_scheme \<Rightarrow> bool" for l s where
  start: "runs l s {} {} s"
| call: "runs l s given touched t \<Longrightarrow> admissible l t c new extra \<Longrightarrow> perform l c t = Some u \<Longrightarrow>
    runs l s (given \<union> new) (touched \<union> extra) u"

section \<open>The invariant\<close>

text \<open>The table of callbacks has its eight slots and no callback twice, a null pointer was never called, and the free list is
  well-formed and consists of memory given to the allocator.\<close>

definition kernel_ok :: "nat set \<Rightarrow> 'z boot_scheme \<Rightarrow> bool" where
  "kernel_ok given s \<longleftrightarrow> table_ok s \<and> list_all (\<lambda>(cb, c). cb \<noteq> NULL) (console_log s) \<and>
     (\<exists>rs. free_list_ok s rs \<and> free_bytes rs \<subseteq> given)"

text \<open>What the calls between two states may have changed: memory given to the allocator, and the log, which grows.\<close>

definition keeps_rest :: "nat set \<Rightarrow> 'z console_scheme \<Rightarrow> 'z console_scheme \<Rightarrow> bool" where
  "keeps_rest given s t \<longleftrightarrow> writes_only given s t \<and> byte_order t = byte_order s \<and> config t = config s \<and>
     prefix (console_log s) (console_log t)"

lemma kernel_ok_emit [simp]: "kernel_ok given (emit s cs) = kernel_ok given s"
proof -
  have "list_all (\<lambda>(cb, c). cb \<noteq> NULL) (broadcast (active s) cs)" by (auto simp: list_all_iff broadcast_def active_def)
  then show ?thesis by (simp add: kernel_ok_def table_ok_def) (simp add: emit_def)
qed

lemma keeps_emit [simp]: "keeps_rest given s (emit s cs)"
  by (simp add: keeps_rest_def) (simp add: emit_def)

lemma keeps_refl [simp]: "keeps_rest given s s"
  by (simp add: keeps_rest_def)

lemma keeps_trans: "keeps_rest given s t \<Longrightarrow> keeps_rest given t u \<Longrightarrow> keeps_rest given s u"
  by (auto simp: keeps_rest_def intro: writes_only_trans prefix_order.trans)

lemma keeps_mono: "keeps_rest given s t \<Longrightarrow> given \<subseteq> given' \<Longrightarrow> keeps_rest given' s t"
  by (auto simp: keeps_rest_def writes_only_def)

lemma kernel_ok_mono: "kernel_ok given s \<Longrightarrow> given \<subseteq> given' \<Longrightarrow> kernel_ok given' s"
  by (auto simp: kernel_ok_def)

lemma ok_frame:
  fixes s t :: "'z boot_scheme"
  assumes "kernel_ok given s" and "mem t = mem s" and "byte_order t = byte_order s" and "config t = config s"
    and "boot_free_list t = boot_free_list s" and "console_log t = console_log s" and "table_ok t"
  shows "kernel_ok given t \<and> keeps_rest given s t"
  using free_list_ok_frame [OF assms(2,3,5)] assms(1,4,6,7) assms(2,3) by (auto simp: kernel_ok_def keeps_rest_def writes_only_def)

lemma ok_list:
  assumes "kernel_ok given s" and "same_devices s t" and "free_list_ok t rs" and "free_bytes rs \<subseteq> given" and "writes_only given s t"
  shows "kernel_ok given t \<and> keeps_rest given s t"
  using assms by (auto simp: kernel_ok_def keeps_rest_def table_ok_def active_def same_devices_def)

lemma unregister_keeps: "table_ok s \<Longrightarrow> cb \<noteq> NULL \<Longrightarrow> unregister_early_putchar s cb = (err, t) \<Longrightarrow> table_ok t"
  using early_registry.unregister_old [of s cb] early_registry.unregister_new [of s cb] by (cases "cb \<in> set (active s)") auto

lemma callbacks_frame:
  fixes s t :: "'z boot_scheme"
  assumes "register_early_putchar s cb = Some (err, t) \<or> unregister_early_putchar s cb = (err, t)"
  shows "mem t = mem s" and "byte_order t = byte_order s" and "config t = config s"
    and "boot_free_list t = boot_free_list s" and "console_log t = console_log s"
  using assms by (auto simp: register_early_putchar_def unregister_early_putchar_def split: option.splits if_splits)

text \<open>A call that only writes memory, and not the free memory.\<close>

definition updates :: "nat set \<Rightarrow> 'z machine_scheme \<Rightarrow> 'z machine_scheme \<Rightarrow> bool" where
  "updates R s t \<longleftrightarrow> (\<exists>m. t = s\<lparr>mem := m\<rparr>) \<and> writes_only R s t"

lemma updates_refl [simp]: "updates R s s"
  unfolding updates_def by (intro conjI exI [of _ "mem s"]) simp_all

lemma updates_trans: "updates R s t \<Longrightarrow> updates R t u \<Longrightarrow> updates R s u"
  unfolding updates_def by (auto intro: writes_only_trans)

lemma updates_store8: "unat a \<in> R \<Longrightarrow> updates R s (store8 s a b)"
  by (auto simp: updates_def store8_def writes_only_def)

lemma unat_in_block: "nowrap dest n \<Longrightarrow> i < n \<Longrightarrow> unat (dest + i) \<in> block dest n"
  unfolding nowrap_def block_def by (simp add: unat_add64 word_less_nat_alt)

lemma copy_up_updates: "nowrap dest n \<Longrightarrow> updates (block dest n) s (copy_up s dest src n i)"
proof (induction s dest src n i rule: copy_up.induct)
  case (1 s dest src n i)
  show ?case
  proof (cases "i < n")
    case True
    from 1 True updates_trans [OF updates_store8 [OF unat_in_block [OF 1(2) True]]] show ?thesis by (subst copy_up.simps) auto
  qed (subst copy_up.simps, simp)
qed

lemma copy_down_updates: "nowrap dest n \<Longrightarrow> i \<le> n \<Longrightarrow> updates (block dest n) s (copy_down s dest src i)"
proof (induction s dest src i rule: copy_down.induct)
  case (1 s dest src i)
  show ?case
  proof (cases "0 < i")
    case True
    then have "unat (i - 1) = unat i - 1" "0 < unat i" by (auto simp: unat_minus_one word_gt_0 unat_gt_0)
    then have "i - 1 < n" "i - 1 \<le> n" using 1(3) by (auto simp: word_less_nat_alt word_le_nat_alt)
    with 1 True updates_trans [OF updates_store8 [OF unat_in_block [OF 1(2)]]] show ?thesis by (subst copy_down.simps) auto
  qed (subst copy_down.simps, simp)
qed

lemma memset_loop_updates: "nowrap dest n \<Longrightarrow> updates (block dest n) s (memset_loop s dest v n i)"
proof (induction s dest v n i rule: memset_loop.induct)
  case (1 s dest v n i)
  show ?case
  proof (cases "i < n")
    case True
    from 1 True updates_trans [OF updates_store8 [OF unat_in_block [OF 1(2) True]]] show ?thesis by (subst memset_loop.simps) auto
  qed (subst memset_loop.simps, simp)
qed

lemma store32_updates:
  assumes "nowrap a 4"
  shows "updates (block a 4) s (store32 s a w)"
proof -
  have "unat x \<in> block a 4" if "unat (x - a) < 4" for x
    using unat_in_block [OF assms, of "x - a"] that by (simp add: word_less_nat_alt)
  moreover have "length (host_bytes s 4 w) = 4" by simp
  ultimately show ?thesis by (auto simp: updates_def store32_def write_bytes_def writes_only_def)
qed

lemma free_list_ok_updates:
  fixes s t :: "'z boot_scheme"
  assumes "free_list_ok s rs" and "updates R s t" and "R \<inter> free_bytes rs = {}"
  shows "free_list_ok t rs"
proof -
  have t: "byte_order t = byte_order s" "boot_free_list t = boot_free_list s" "writes_only R s t"
    using assms(2) by (auto simp: updates_def)
  have ord: "ordered 1 rs" using assms(1) by (simp add: free_list_ok_def)
  have load: "load64 t (a + of_nat k) = load64 s (a + of_nat k)" if r: "(a, n) \<in> set rs" and k: "k \<le> 16" for a n k
  proof (rule load64_writes [OF t(3,1)], intro allI impI)
    fix j :: nat assume j: "j < 8"
    note h = region_in_free [OF r ord]
    have "unat (a + of_nat (k + j)) = unat a + (k + j)" using h(2) k j by (intro unat_add_nowrap) simp
    then have "unat (a + of_nat (k + j)) \<in> free_bytes rs" using h(1) k j by auto
    then show "unat (a + of_nat k + of_nat j) \<notin> R" using assms(3) by (auto simp: add.assoc)
  qed
  have "seg t prev p rs e q = seg s prev p rs e q" for prev p e q
  proof (rule seg_frame)
    fix a n assume "(a, n) \<in> set rs"
    from load [OF this, of 0] load [OF this, of 8] load [OF this, of 16]
    show "region_next t a = region_next s a \<and> region_prev t a = region_prev s a \<and> region_size t a = region_size s a"
      by (simp add: region_defs)
  qed
  then show ?thesis using assms(1) t(2) by (simp add: free_list_ok_def)
qed

lemma ok_updates:
  fixes s t :: "'z boot_scheme"
  assumes "kernel_ok given s" and "updates R s t" and "off_list s R"
  shows "kernel_ok given t \<and> keeps_rest (given \<union> R) s t"
proof -
  obtain rs where rs: "free_list_ok s rs" "free_bytes rs \<subseteq> given" using assms(1) by (auto simp: kernel_ok_def)
  have "free_list_ok t rs" using free_list_ok_updates [OF rs(1) assms(2)] assms(3) rs(1) by (simp add: off_list_def)
  moreover have "table_ok t = table_ok s" "console_log t = console_log s" "byte_order t = byte_order s" "config t = config s"
    using assms(2) by (auto simp: updates_def table_ok_def active_def)
  ultimately show ?thesis using assms(1,2) rs(2) by (auto simp: kernel_ok_def keeps_rest_def updates_def writes_only_def)
qed

section \<open>Each call\<close>

text \<open>What is to show of a call.\<close>

definition sound :: "nat set \<Rightarrow> nat set \<Rightarrow> 'z boot_scheme \<Rightarrow> 'z boot_scheme option \<Rightarrow> bool" where
  "sound given extra s r \<longleftrightarrow> (\<exists>u. r = Some u \<and> kernel_ok given u \<and> keeps_rest (given \<union> extra) s u)"

lemma soundI: "r = Some u \<Longrightarrow> kernel_ok given u \<and> keeps_rest (given \<union> extra) s u \<Longrightarrow> sound given extra s r"
  by (simp add: sound_def)

lemma sound_emit: "kernel_ok given s \<Longrightarrow> r = Some (emit s cs) \<Longrightarrow> sound given {} s r"
  by (simp add: sound_def)

lemma sound_register:
  fixes s :: "'z kernel_scheme"
  assumes "kernel_ok given s" and "cb \<noteq> NULL" and "cb \<in> set (active s) \<or> table_room s"
  shows "sound given {} s (map_option snd (register_early_putchar s cb))"
proof -
  have table: "table_ok s" using assms(1) by (simp add: kernel_ok_def)
  obtain err t where t: "register_early_putchar s cb = Some (err, t)" "table_ok t"
    using early_registry.register_old [OF table assms(2)] early_registry.register_new [OF table _ assms(2)] assms(3) table by blast
  show ?thesis using ok_frame [OF assms(1) callbacks_frame [of s cb err t] t(2)] t(1) by (intro soundI [where u = t]) simp_all
qed

text \<open>Registering goes wrong exactly for a new callback in a full table.\<close>

lemma register_undefined:
  assumes "table_ok s" and "cb \<noteq> NULL"
  shows "register_early_putchar s cb = None \<longleftrightarrow> \<not> (cb \<in> set (active s) \<or> table_room s)"
proof (cases "cb \<in> set (active s) \<or> table_room s")
  case True
  then show ?thesis
    using early_registry.register_old [OF assms] early_registry.register_new [OF assms(1) _ assms(2)] by fastforce
next
  case False
  then have "\<forall>c \<in> set (early_putchar_array s). c \<noteq> NULL \<and> c \<noteq> cb" using assms(2) by (auto simp: active_def table_room_def)
  then have "register_loop (early_putchar_array s) cb 0 (- 1) = Some (- 1)" by (rule register_loop_full)
  then show ?thesis using False assms(1)
    by (simp add: register_early_putchar_def table_ok_def EARLY_OUTPUT_MAX_PUTCHAR_def unsigned_minus_1_eq_mask mask_eq_exp_minus_1)
qed

lemma sound_unregister:
  fixes s :: "'z kernel_scheme"
  assumes "kernel_ok given s" and "cb \<noteq> NULL"
  shows "sound given {} s (Some (snd (unregister_early_putchar s cb)))"
proof -
  have table: "table_ok s" using assms(1) by (simp add: kernel_ok_def)
  obtain err t where t: "unregister_early_putchar s cb = (err, t)" by force
  show ?thesis
    using ok_frame [OF assms(1) callbacks_frame [of s cb err t] unregister_keeps [OF table assms(2) t]] t by (intro soundI [where u = t]) simp_all
qed

lemma sound_find_memory:
  assumes "kernel_ok given s" and "bootable s l fdt es ts strs free"
  shows "sound (given \<union> free_bytes free) {} s (map_option snd (fdt_boot_mem_init (left_first l) (kernel_end l) s fdt))"
proof -
  let ?R = "memory_reports ts strs ts"
  let ?s = "emit s (report_lines ?R @ totals (reported ?R) (free_size free))"
  obtain t where t: "fdt_boot_mem_init (left_first l) (kernel_end l) s fdt = Some (KERR_SUCCESS, t)" "free_list_ok t free"
      "writes_only (free_bytes free) s t" "same_rest ?s t"
    using assms(2) boot_mem_init_eq [of s fdt es ts strs "left_first l" "kernel_end l" free] unfolding bootable_def by blast
  from this have "kernel_ok (given \<union> free_bytes free) t \<and> keeps_rest (given \<union> free_bytes free) ?s t"
    using kernel_ok_mono [OF assms(1), of "given \<union> free_bytes free"]
    by (intro ok_list [where rs = free]) (auto simp: same_rest_def writes_only_def)
  then show ?thesis using keeps_trans [OF keeps_emit] t(1) by (intro soundI [where u = t]) auto
qed

lemma sound_give:
  fixes s :: "'z kernel_scheme"
  assumes "kernel_ok given s" and "givable start sz" and "sound_place s start sz"
  defines "new \<equiv> if boot_free_list s = NULL \<and> 24 \<le> unat sz then block start sz else {}"
  shows "sound (given \<union> new) {} s (map_option snd (boot_free s start sz))"
proof -
  obtain rs where rs: "free_list_ok s rs" using assms(1) by (auto simp: kernel_ok_def)
  from boot_free_sound [OF rs assms(2,3)] obtain err t where t: "boot_free s start sz = Some (err, t)"
    "if err = KERR_SUCCESS then rs = [] \<and> free_list_ok t [(start, sz)] \<and> writes_only (block start sz) s t else t = s" by blast
  show ?thesis
  proof (cases "err = KERR_SUCCESS")
    case True
    then have "boot_free_list s = NULL" using t(2) rs by (auto simp: free_list_ok_def)
    moreover from this have "24 \<le> unat sz"
      using t(1) True by (auto simp: boot_free_unfold region_struct_size_def word_less_nat_alt split: if_splits)
    ultimately have new: "new = block start sz" by (simp add: new_def)
    have "kernel_ok (given \<union> new) t \<and> keeps_rest (given \<union> new) s t"
      using t True boot_free_same [OF t(1)] kernel_ok_mono [OF assms(1)] new
      by (intro ok_list [where rs = "[(start, sz)]"]) (auto simp: same_rest_def free_bytes_def block_def writes_only_def)
    then show ?thesis using t(1) by (intro soundI [where u = t]) simp_all
  next
    case False
    then show ?thesis using t kernel_ok_mono [OF assms(1), of "given \<union> new"] by (intro soundI [where u = s]) simp_all
  qed
qed

text \<open>Giving memory goes wrong exactly below the first free region.\<close>

lemma give_undefined:
  assumes "givable start sz"
  shows "boot_free s start sz = None \<longleftrightarrow>
    boot_free_list s \<noteq> NULL \<and> apparent_end s \<noteq> start \<and> start + sz < boot_free_list s \<and> start < apparent_end s"
proof (cases "boot_free_list s = NULL")
  case True
  then show ?thesis using assms by (simp add: boot_free_unfold givable_def)
next
  case False
  have e: "boot_free_list s + region_struct_size * region_size s (boot_free_list s) = apparent_end s"
    by (simp add: apparent_end_def region_struct_size_def)
  show ?thesis using False by (auto simp: boot_free_unfold free_body_def Let_def e split: if_splits)
qed

lemma ok_take:
  assumes "kernel_ok given s" and "request_ok sz al" and "boot_alloc s sz al = Some (t, p)"
  shows "kernel_ok given t \<and> keeps_rest given s t"
proof -
  obtain rs where rs: "free_list_ok s rs" "free_bytes rs \<subseteq> given" using assms(1) by (auto simp: kernel_ok_def)
  obtain rs' where rs': "free_list_ok t rs'" "free_bytes rs' \<subseteq> free_bytes rs"
    using free_list_alloc.alloc_step [OF rs(1) assms(2,3)] by blast
  show ?thesis using rs(2) rs'(2) boot_alloc_same [OF assms(3)] boot_alloc_writes [OF rs(1) assms(2,3)]
    by (intro ok_list [OF assms(1) _ rs'(1)]) (auto simp: same_rest_def writes_only_def)
qed

lemma lively_simps [simp]:
  "lively (emit s cs) = lively s" "lively s \<Longrightarrow> lively (s\<lparr>uart_rx := stl (uart_rx s)\<rparr>)"
proof -
  show "lively (emit s cs) = lively s" by (simp add: lively_def)
  assume "lively s"
  then have "\<exists>m. sdrop (Suc n) (uart_rx s) !! m \<noteq> shd (sdrop (Suc n) (uart_rx s))" for n unfolding lively_def by blast
  then show "lively (s\<lparr>uart_rx := stl (uart_rx s)\<rparr>)" by (simp add: lively_def)
qed

lemma wait_change_returns: "uart_rx s !! m \<noteq> c \<Longrightarrow> wait_change s c \<noteq> None"
proof (induction m arbitrary: s)
  case 0
  then show ?case by (subst wait_change.simps) (auto simp: read_uart_def)
next
  case (Suc m)
  from Suc.IH [of "s\<lparr>uart_rx := stl (uart_rx s)\<rparr>"] Suc.prems
  show ?case by (subst wait_change.simps) (auto simp: read_uart_def)
qed

lemma wait_lively:
  assumes "lively s"
  shows "wait_change (s\<lparr>uart_rx := stl (uart_rx s)\<rparr>) (shd (uart_rx s)) \<noteq> None"
proof -
  obtain m where m: "uart_rx s !! m \<noteq> shd (uart_rx s)" using assms [unfolded lively_def, rule_format, of 0] by auto
  then obtain m' where "m = Suc m'" by (cases m) auto
  with m show ?thesis by (intro wait_change_returns [of _ m']) simp
qed

lemma test_key_lively:
  assumes "lively s"
  shows "lively (snd (test_key e k s))"
  using assms by (simp add: test_key_def read_uart_def)

lemma round_returns:
  assumes "lively s"
  shows "round_step r d s \<noteq> None"
proof -
  let ?s0 = "s\<lparr>uart_rx := stl (uart_rx s)\<rparr>" and ?c = "shd (uart_rx s)"
  obtain n where p: "printk ?s0 (Lit (bytes_of ''%c'')) [VInt (ucast ?c)] = Some (emit ?s0 (echo ?c), n)" using printk_char by blast
  let ?s1 = "emit ?s0 (echo ?c)"
  obtain q2 s2 where s2: "test_key True CHR ''%'' ?s1 = (q2, s2)" by force
  obtain q3 s3 where s3: "test_key True CHR ''!'' s2 = (q3, s3)" by force
  obtain q4 s4 where s4: "test_key r CHR ''^'' s3 = (q4, s4)" by force
  obtain q5 s5 where s5: "test_key d CHR ''&'' s4 = (q5, s5)" by force
  have "lively ?s1" using assms by simp
  then have "lively s5"
    using test_key_lively [of ?s1 True "CHR ''%''"] test_key_lively [of s2 True "CHR ''!''"] test_key_lively [of s3 r "CHR ''^''"]
      test_key_lively [of s4 d "CHR ''&''"] unfolding s2 s3 s4 s5 by simp
  from wait_lively [OF this] show ?thesis
    by (simp add: round_step_def read_uart_def [of s] read_uart_def [of s5] p s2 s3 s4 s5)
qed

lemma sound_key:
  fixes s :: "'z kernel_scheme"
  assumes "kernel_ok given s" and "lively s"
  shows "sound given {} s (map_option snd (round_step r d s))"
proof -
  obtain k t where t: "round_step r d s = Some (k, t)" using round_returns [OF assms(2), of r d] by auto
  obtain c rx where e: "t = emit (s\<lparr>uart_rx := rx\<rparr>) (echo c)" using round_frame [OF t] by blast
  have "kernel_ok given (s\<lparr>uart_rx := rx\<rparr>) \<and> keeps_rest given s (s\<lparr>uart_rx := rx\<rparr>)"
    using assms(1) by (intro ok_frame) (auto simp: kernel_ok_def table_ok_def active_def)
  then show ?thesis using keeps_trans [OF _ keeps_emit] t e by (intro soundI [where u = t]) auto
qed

lemma sound_dump_list:
  fixes s :: "'z kernel_scheme"
  assumes "kernel_ok given s"
  shows "sound given {} s (map_option snd (boot_mem_dump s))"
proof -
  obtain rs where "free_list_ok s rs" using assms by (auto simp: kernel_ok_def)
  from boot_mem_dump_text [OF this] sound_emit [OF assms] show ?thesis by simp
qed

lemma sound_take':
  fixes s :: "'z kernel_scheme"
  assumes "kernel_ok given s" and "request_ok sz al"
  shows "sound given {} s (map_option fst (boot_alloc s sz al))"
proof -
  obtain rs where "free_list_ok s rs" using assms(1) by (auto simp: kernel_ok_def)
  from boot_alloc_eq [OF this assms(2)] obtain t p where t: "boot_alloc s sz al = Some (t, p)" by blast
  show ?thesis using ok_take [OF assms t] t by (intro soundI [where u = t]) simp_all
qed

lemma sound_init:
  fixes s :: "'z kernel_scheme"
  assumes "kernel_ok given s" and "tree_ok s fdt ts strs"
  shows "sound given {} s (map_option snd (syscon_reboot_init s fdt))"
    and "sound given {} s (map_option snd (syscon_shutdown_init s fdt))"
proof -
  have sound: "sound given {} s (Some t)"
    if "mem t = mem s" "same_devices s t" "boot_free_list t = boot_free_list s" for t :: "'z kernel_scheme"
    using ok_frame [OF assms(1), of t] assms(1) that by (intro soundI [where u = t]) (auto simp: same_devices_def kernel_ok_def table_ok_def active_def)
  show "sound given {} s (map_option snd (syscon_reboot_init s fdt))"
    using reboot_slot.init_refines [OF assms(2)] sound by auto
  show "sound given {} s (map_option snd (syscon_shutdown_init s fdt))"
    using shutdown_slot.init_refines [OF assms(2)] sound by auto
qed

lemma sound_trigger:
  fixes s :: "'z kernel_scheme"
  assumes "kernel_ok given s" and "register_ok s act"
  shows "sound given (register_bytes act) s (map_option snd (trigger_action act s))"
proof (cases "sa_found act")
  case True
  have u: "updates (register_bytes act) s (store32 s (sa_reg act) w)" for w
    using store32_updates [of "sa_reg act" s] assms(2) True by (simp add: register_ok_def register_bytes_def)
  have "off_list s (register_bytes act)" using assms(2) by (simp add: register_ok_def)
  from ok_updates [OF assms(1) u this] show ?thesis using True by (simp add: trigger_action_def Let_def sound_def)
next
  case False
  then show ?thesis using sound_emit [OF assms(1)] by (simp add: trigger_action_def abort_eq register_bytes_def)
qed

lemma sound_write:
  fixes s t :: "'z kernel_scheme"
  assumes "kernel_ok given s" and "target_ok s dest n" and "updates (block dest n) s t" and "r = Some t"
  shows "sound given (block dest n) s r"
  using ok_updates [OF assms(1,3)] assms(2,4) by (intro soundI [where u = t]) (simp_all add: target_ok_def)

lemma sound_call:
  fixes s :: "'z kernel_scheme"
  assumes "kernel_ok given s" and "admissible l s c new extra"
  shows "sound (given \<union> new) extra s (perform l c s)"
  using assms(2)
proof cases
  case (put_string str cs)
  then show ?thesis using sound_emit [OF assms(1) early_puts_cstr] by simp
next
  case (print fmt cs str args os)
  have "printk s fmt args = Some (emit s os, of_nat (length os))"
    unfolding printk_def using print(4-7) by (rule early_sink.formatted_print_eq)
  then show ?thesis using print sound_emit [OF assms(1)] by simp
next
  case (dump_tree fdt z)
  then obtain cs where "fdt_dump s fdt = Some (emit s cs)" using fdt_dump_ends by blast
  then show ?thesis using dump_tree sound_emit [OF assms(1)] by simp
next
  case (copy dest n src)
  have t: "nowrap dest n" "dest \<noteq> NULL" using copy by (simp_all add: target_ok_def)
  show ?thesis using sound_write [OF assms(1) copy(4) copy_up_updates [OF t(1), of s src 0] refl] copy t(2) by (simp add: memcpy_def)
next
  case (move dest n src)
  have t: "nowrap dest n" "dest \<noteq> NULL" using move by (simp_all add: target_ok_def)
  show ?thesis using sound_write [OF assms(1) move(4) copy_up_updates [OF t(1), of s src 0] refl]
      sound_write [OF assms(1) move(4) copy_down_updates [OF t(1), of n s src] refl] move t(2) by (simp add: memmove_def)
next
  case (fill dest n ch)
  have t: "nowrap dest n" "dest \<noteq> NULL" using fill by (simp_all add: target_ok_def)
  show ?thesis using sound_write [OF assms(1) fill(4) memset_loop_updates [OF t(1), of s "ucast ch" 0] refl] fill t(2) by (simp add: memset_def)
next
  case (fill_explicit dest n ch)
  have t: "nowrap dest n" "dest \<noteq> NULL" using fill_explicit by (simp_all add: target_ok_def)
  show ?thesis using sound_write [OF assms(1) fill_explicit(4) memset_loop_updates [OF t(1), of s "ucast ch" 0] refl] fill_explicit t(2)
    by (simp add: memset_explicit_def memset_def)
next
  case (give start sz)
  then show ?thesis using sound_give [OF assms(1) give(4,5)] by simp
next
  case (put_char c)
  then show ?thesis using sound_emit [OF assms(1)] by (simp add: early_putchar_eq)
next
  case panic
  then show ?thesis using sound_emit [OF assms(1)] by (simp add: abort_eq)
qed (use assms(1) in \<open>simp_all add: sound_register sound_unregister sound_find_memory sound_take' sound_dump_list sound_init
    sound_trigger sound_key syscon_reboot_def syscon_shutdown_def\<close>)

lemma ok_runs: "runs l s given touched t \<Longrightarrow> kernel_ok {} s \<Longrightarrow> kernel_ok given t \<and> keeps_rest (given \<union> touched) s t"
proof (induction rule: runs.induct)
  case (call given touched t c new extra u)
  then have t: "kernel_ok given t" "keeps_rest (given \<union> touched) s t" by simp_all
  from sound_call [OF t(1) call.hyps(2)] call.hyps(3) have u: "kernel_ok (given \<union> new) u" "keeps_rest (given \<union> new \<union> extra) t u"
    by (auto simp: sound_def)
  have "keeps_rest (given \<union> new \<union> (touched \<union> extra)) s t" "keeps_rest (given \<union> new \<union> (touched \<union> extra)) t u"
    by (rule keeps_mono [OF t(2)], blast) (rule keeps_mono [OF u(2)], blast)
  then show ?case using keeps_trans u(1) by blast
qed simp

lemma fresh_ok:
  assumes "console_fresh s" and "boot_free_list s = NULL"
  shows "kernel_ok {} s"
proof -
  have "free_list_ok s []" using assms(2) by (simp add: free_list_ok_def)
  then show ?thesis using assms(1)
    by (auto simp: kernel_ok_def console_fresh_def table_ok_def active_def free_bytes_def intro!: exI [of _ "[]"])
qed

text \<open>The \<^verbatim>\<open>virt\<close> board: the UART is registered, the memory of the tree is given to the allocator, and the register of the power
  switch is written with \<^verbatim>\<open>memset\<close>.\<close>

lemma virt_runs:
  "\<exists>t. runs virt_linked (virt_cold rx) (block 0x80200000 0x7c00000) (block 0x100000 4) t \<and>
     free_list_ok t [(0x80200000, 0x7c00000)]"
proof -
  let ?s = "registered (virt_cold rx) 0x80000100"
  have "table_room (virt_cold rx)" by (simp add: virt_cold_def table_room_def EARLY_OUTPUT_MAX_PUTCHAR_def)
  then have r: "runs virt_linked (virt_cold rx) ({} \<union> {}) ({} \<union> {}) ?s"
    by (intro call [OF start admissible.register]) (simp_all add: register_fresh [OF virt_console])
  have b: "bootable ?s virt_linked virt_base virt_reserved virt_tokens virt_strings [(0x80200000, 0x7c00000)]"
    by (rule bootable_frame [OF virt_bootable]) simp_all
  then obtain t where t: "fdt_boot_mem_init (left_first virt_linked) (kernel_end virt_linked) ?s virt_base = Some (KERR_SUCCESS, t)"
      "free_list_ok t [(0x80200000, 0x7c00000)]"
    using boot_mem_init_eq [of ?s virt_base virt_reserved virt_tokens virt_strings "left_first virt_linked" "kernel_end virt_linked"]
    unfolding bootable_def by blast
  have m: "runs virt_linked (virt_cold rx) (block 0x80200000 0x7c00000) {} t"
    using call [OF r admissible.find_memory [OF b], of t] t(1) by (simp add: block_def)
  have one: "rs = [(0x80200000, 0x7c00000)]" if "free_list_ok t rs" for rs
  proof -
    have "boot_free_list t = 0x80200000" "region_size t 0x80200000 = 0x7c00000" "region_next t 0x80200000 = NULL"
      using t(2) by (auto simp: free_list_ok_def)
    then show ?thesis using that by (cases rs; cases "tl rs") (auto simp: free_list_ok_def)
  qed
  have ok: "target_ok t 0x100000 4" by (auto simp: target_ok_def nowrap_def off_list_def block_def dest!: one)
  let ?u = "memset_loop t 0x100000 (ucast (0x5555 :: u32)) 4 0"
  have "nowrap 0x100000 4" by (simp add: nowrap_def)
  then have "free_list_ok ?u [(0x80200000, 0x7c00000)]"
    by (intro free_list_ok_updates [OF t(2) memset_loop_updates]) (auto simp: block_def)
  moreover have "runs virt_linked (virt_cold rx) (block 0x80200000 0x7c00000 \<union> {}) ({} \<union> block 0x100000 4) ?u"
    by (rule call [OF m admissible.fill [OF ok, where ch = "0x5555"]]) (simp add: memset_def)
  ultimately show ?thesis by auto
qed

section \<open>Properties\<close>

text \<open>C5. Sequences of admissible calls of the kernel's functions, from a state with an empty table of callbacks and an empty free
  list.  A call is admissible (\<^const>\<open>admissible\<close>) unless it is one of these: it registers or unregisters a null pointer, or
  registers a new callback in a full table (C36); gives memory at the apparent end of the first free region (C35) or below
  the region (C34), or a region that is null, wraps around or is \<open>2 ^ 63\<close> bytes long or longer; requests a block outside of the
  bounds of C3; discovers memory in a layout other than those of C9; prints with a format or a string that is not terminated, or with
  arguments that do not fit; reads a tree that is not readable, or a UART that delivers one byte for ever; or lets \<^verbatim>\<open>memcpy\<close>,
  \<^verbatim>\<open>memmove\<close>, \<^verbatim>\<open>memset\<close>, \<^verbatim>\<open>memset_explicit\<close> or a system action write through a null pointer, past the end of the address space or into
  free memory.  In every state that admissible calls lead to: the table of callbacks has eight slots and holds no callback
  twice, no null pointer was ever called, the list in memory that \<^verbatim>\<open>boot_free_list\<close> points to is a sorted, doubly linked list
  of disjoint regions, all of them part of the memory given to the allocator; and every further admissible call returns.\<close>

theorem kernel_state_typed:
  assumes "runs l s given touched t" and "console_fresh s" and "boot_free_list s = NULL"
  shows "table_ok t \<and> list_all (\<lambda>(cb, c). cb \<noteq> NULL) (console_log t) \<and> (\<exists>rs. free_list_ok t rs \<and> free_bytes rs \<subseteq> given) \<and>
    (\<forall>c new extra. admissible l t c new extra \<longrightarrow> perform l c t \<noteq> None)"
proof -
  have ok: "kernel_ok given t" using ok_runs [OF assms(1) fresh_ok [OF assms(2,3)]] by simp
  have "perform l c t \<noteq> None" if "admissible l t c new extra" for c new extra
    using sound_call [OF ok that] by (auto simp: sound_def)
  then show ?thesis using ok by (simp add: kernel_ok_def)
qed

theorem kernel_state_typed_witness:
  "\<exists>t rs. runs virt_linked (virt_cold (sconst 0)) (block 0x80200000 0x7c00000) (block 0x100000 4) t \<and> table_ok t \<and>
     free_list_ok t rs \<and> free_bytes rs \<subseteq> block 0x80200000 0x7c00000 \<and> perform virt_linked (Take 0x1000 4) t \<noteq> None"
proof -
  obtain t where t: "runs virt_linked (virt_cold (sconst 0)) (block 0x80200000 0x7c00000) (block 0x100000 4) t"
    using virt_runs by blast
  have list: "boot_free_list (virt_cold (sconst 0)) = NULL" using virt_bootable by (auto simp: bootable_def)
  have "admissible virt_linked t (Take 0x1000 4) {} {}" by (rule admissible.take) (simp add: request_ok_def)
  then show ?thesis using kernel_state_typed [OF t virt_console list] t by blast
qed

text \<open>C2. Memory safety of the same sequences.  Every byte of memory keeps its value unless it was given to the allocator, or is
  part of the destination of a \<^verbatim>\<open>memcpy\<close>, \<^verbatim>\<open>memmove\<close> or \<^verbatim>\<open>memset\<close> or of the register of a system action that was
  called: so the kernel and its data, the device tree, the reserved ranges, and the other registers of devices.  And of the two
  functions that can store at a wrong address, each does so in exactly one case, in every state reached: \<^verbatim>\<open>register_early_putchar\<close>
  for a callback that is new to a full table, \<^verbatim>\<open>boot_free\<close> for a region below the first free region.\<close>

theorem kernel_memory_safe:
  fixes s t :: "'z kernel_scheme"
  assumes "runs l s given touched t" and "console_fresh s" and "boot_free_list s = NULL"
  shows "(\<forall>x. unat x \<notin> given \<union> touched \<longrightarrow> mem t x = mem s x) \<and> byte_order t = byte_order s \<and> config t = config s \<and>
    (\<forall>cb. cb \<noteq> NULL \<longrightarrow> (perform l (Register cb) t = None \<longleftrightarrow> cb \<notin> set (active t) \<and> \<not> table_room t)) \<and>
    (\<forall>start sz. givable start sz \<longrightarrow> (perform l (Give start sz) t = None \<longleftrightarrow>
       boot_free_list t \<noteq> NULL \<and> apparent_end t \<noteq> start \<and> start + sz < boot_free_list t \<and> start < apparent_end t))"
proof -
  have ok: "kernel_ok given t" "keeps_rest (given \<union> touched) s t" using ok_runs [OF assms(1) fresh_ok [OF assms(2,3)]] by simp_all
  then have "table_ok t" by (simp add: kernel_ok_def)
  then show ?thesis using ok(2) register_undefined [of t] give_undefined [of _ _ t] by (auto simp: keeps_rest_def writes_only_def)
qed

theorem kernel_memory_safe_witness:
  "\<exists>t. runs virt_linked (virt_cold (sconst 0)) (block 0x80200000 0x7c00000) (block 0x100000 4) t \<and>
     mem t virt_base = mem (virt_cold (sconst 0)) virt_base \<and> perform virt_linked (Give 0x80100000 0x1000) t = None"
proof -
  obtain t where t: "runs virt_linked (virt_cold (sconst 0)) (block 0x80200000 0x7c00000) (block 0x100000 4) t"
      "free_list_ok t [(0x80200000, 0x7c00000)]" using virt_runs by blast
  have list: "boot_free_list (virt_cold (sconst 0)) = NULL" using virt_bootable by (auto simp: bootable_def)
  have "boot_free_list t = 0x80200000" "apparent_end t = 0x80200000 + 24 * 0x7c00000"
    using t(2) by (auto simp: apparent_end_def free_list_ok_def)
  moreover have "unat virt_base \<notin> block 0x80200000 0x7c00000 \<union> block 0x100000 4" by (simp add: block_def virt_base_def)
  moreover have "givable 0x80100000 0x1000" by (simp add: givable_def)
  ultimately show ?thesis using kernel_memory_safe [OF t(1) virt_console list] t(1) by (intro exI [of _ t]) simp
qed

end
