(* ===== verification/Spec2Isabelle.thy ===== *)
theory Spec2Isabelle
  imports Libc_String Fdt_Malformed Boot_Spec Boot_Sequence Kernel_Inv
begin

text \<open>
  A verification of riscy-os, a small kernel for RISC-V and ARM64.

  \<^bold>\<open>The program.\<close>  The boot loader enters \<^verbatim>\<open>kmain\<close> (\<^verbatim>\<open>arch/riscv/kernel.c\<close>, \<^verbatim>\<open>arch/arm64/kernel.c\<close>) with a pointer to a
  flattened device tree.  \<^verbatim>\<open>kmain\<close> registers a callback that writes to the UART, checks and prints the tree, gives the
  memory the tree describes to the boot allocator, allocates a page, looks up the registers for reboot and power off,
  runs the constructors, and then echoes what arrives at the UART until a command key ends the loop.

  \<^bold>\<open>Theories and sources\<close>, in the order of their imports.

  \<^item> \<^verbatim>\<open>Prelude\<close>, \<^verbatim>\<open>Machine\<close>: machine integers as words of their width, encodings of integers as bytes, and the machine: a
    record with a byte memory over 64-bit addresses, the byte order of the hardware and the configured one.
  \<^item> \<^verbatim>\<open>Endian\<close>: \<^verbatim>\<open>include/kernel/endian.h\<close>.  \<^verbatim>\<open>Libc_String\<close>: \<^verbatim>\<open>libc/src/string\<close>.
  \<^item> \<^verbatim>\<open>Fdt\<close>: all of \<^verbatim>\<open>kernel/of/fdt.c\<close> and the structs of \<^verbatim>\<open>include/kernel/of/fdt.h\<close>, one definition for each function.
    \<^verbatim>\<open>Fdt_Stream\<close>, \<^verbatim>\<open>Fdt_Blob\<close>, \<^verbatim>\<open>Fdt_Nodes\<close>, \<^verbatim>\<open>Fdt_Props\<close>, \<^verbatim>\<open>Fdt_Tree\<close>,
    \<^verbatim>\<open>Fdt_Robust\<close>, \<^verbatim>\<open>Fdt_Malformed\<close>: its theorems, the last two for trees that are not well-formed.
  \<^item> \<^verbatim>\<open>Kernel_Error\<close>: \<^verbatim>\<open>include/kernel/error.h\<close>.  \<^verbatim>\<open>Early_Output\<close>: \<^verbatim>\<open>kernel/early_output.c\<close>.  \<^verbatim>\<open>Printf\<close>:
    \<^verbatim>\<open>libc/src/stdio/printf.c\<close> and \<^verbatim>\<open>libc/src/stdlib/abort.c\<close>.
  \<^item> \<^verbatim>\<open>Free_List\<close>: \<^verbatim>\<open>kernel/mem/boot/free_list.c\<close>; \<^verbatim>\<open>Boot_Spec\<close>: what it computes, as a function on lists of regions;
    \<^verbatim>\<open>Boot_Client\<close>: its use by a client.  \<^verbatim>\<open>Fdt_Mem\<close>: \<^verbatim>\<open>kernel/of/fdt_mem.c\<close>.
  \<^item> \<^verbatim>\<open>Syscon\<close>: \<^verbatim>\<open>drivers/syscon/syscon.c\<close>.  \<^verbatim>\<open>Kernel\<close>: \<^verbatim>\<open>arch/riscv/kernel.c\<close> and \<^verbatim>\<open>arch/arm64/kernel.c\<close>.
  \<^item> \<^verbatim>\<open>Boot_Sequence\<close>: how the components work together in \<^verbatim>\<open>kmain\<close>; it defines no code.  \<^verbatim>\<open>Kernel_Inv\<close>:
    the functions that change the state as one set of calls, in any order.

  \<^bold>\<open>State and operations.\<close>  The state is one extensible record, to which each component adds its variables:
  \<^verbatim>\<open>machine\<close> (memory), \<^verbatim>\<open>console\<close> (\<^verbatim>\<open>early_putchar_array\<close> and a log of the calls of callbacks), \<^verbatim>\<open>boot\<close>
  (\<^verbatim>\<open>boot_free_list\<close>), \<^verbatim>\<open>sysc\<close> (\<^verbatim>\<open>shutdown_action\<close>, \<^verbatim>\<open>reboot_action\<close>) and \<^verbatim>\<open>kernel\<close> (the bytes the UART will
  deliver, a stream).  Structs of the device tree and of the free list are no separate objects: they are read from and
  written to the byte memory, at the offsets of the C structs.  A function keeps its name; a loop inside it is a
  function named after it, and a body with several exits returns how it ends (\<^verbatim>\<open>flow\<close>).  A function that may not return, or whose behaviour C leaves undefined, has an option as its
  result, \<^verbatim>\<open>None\<close> standing for both; a failed \<^verbatim>\<open>assert\<close>, \<^verbatim>\<open>abort\<close> and a register write that stops the machine are
  values.  Pointers into memory are addresses; a C string is an address or a literal.  The static variables of the kernel are
  fields of the record and not part of the byte memory.

  \<^bold>\<open>What is shown.\<close>

  \<^item> Device tree: a blob is a list of tokens, a list of reservations and a strings block, laid out in memory by a writer
    (\<^verbatim>\<open>Fdt_Stream\<close>, \<^verbatim>\<open>Fdt_Blob\<close>); what is written is what the reader sees.  On such a blob every traversal and lookup
    function returns, and returns what a plain function on the token list returns: nodes in document order, properties,
    searches, children, ancestors, inherited properties, register blocks, reservations.  On a structure block
    with any contents the traversal steps and the searches by property name, device type and unit name still return, and what
    they return lies inside the block (\<^verbatim>\<open>Fdt_Robust\<close>); so does the dump of the tree (\<^verbatim>\<open>Fdt_Malformed\<close>), which also shows two
    functions that are not safe on every tree.
  \<^item> Console: a table of callbacks refines a set of them; a string, and a format rendered by \<^verbatim>\<open>printk\<close>, reaches each of them
    once and in order.
  \<^item> Boot allocator: \<^verbatim>\<open>free_list_ok\<close> says that the doubly linked list in memory is a sorted list of disjoint regions.
    \<^verbatim>\<open>boot_alloc\<close> keeps it, returns a block that is aligned, was free and is no longer free, and fails only if nothing fits;
    blocks of a sequence of allocations are disjoint.  In every state a client can reach by taking blocks and giving regions, none
    twice and none at the two places where \<^verbatim>\<open>boot_free\<close> goes wrong (\<^verbatim>\<open>client\<close>, a step relation), each such call returns,
    and blocks and free memory are disjoint parts of what was given.  At the two places, theorems say what it does.  \<^verbatim>\<open>boot_alloc\<close>
    refines best fit on lists of regions (\<^verbatim>\<open>alloc_spec\<close>), which bounds what an allocation wastes.
  \<^item> Memory discovery: the calls \<^verbatim>\<open>try_boot_free_region\<close> makes offer the bytes of the region that are neither below the end of
    the kernel nor reserved nor part of the tree, each of them once, in an order that depends on the evaluation of a sum.  This is
    proved for every allocator that keeps the tree readable (\<^verbatim>\<open>boot_backend\<close>) and stated for the free list, which keeps it as
    long as its header lies outside.  In two layouts (\<^verbatim>\<open>memory_gives\<close>), with any number of memory nodes, exactly the memory
    between the kernel and the tree becomes free, or nothing, and the console shows a report for every block.
  \<^item> System controller: initialisation refines a function of the tree; the action writes the bits of the mask only.
  \<^item> Kernel: the loop echoes keys and obeys commands, waits for ever on a key that is held, and keeps the rest of the
    state.  Every call of a function that changes the state has a condition under which it is admissible (\<^verbatim>\<open>admissible\<close>); after any
    sequence of admissible calls (\<^verbatim>\<open>runs\<close>) the state is well-formed, every further admissible call returns, and memory is
    written only where it was given to the allocator or the call says so.  The theorems of this theory compose everything, from
    power on to the end of \<^verbatim>\<open>kmain\<close>:
    with memory, without any, and with a tree that is rejected.

  Interfaces are locales, interpreted on the model: \<^verbatim>\<open>token_cursor\<close> and \<^verbatim>\<open>token_scan\<close> (stepping over tokens),
  \<^verbatim>\<open>linear_search\<close> (the five searches), \<^verbatim>\<open>forward_walk\<close> (steps that lead forward), \<^verbatim>\<open>callback_registry\<close>, \<^verbatim>\<open>puts_sink\<close> (what \<^verbatim>\<open>formatted_print\<close> needs of its
  argument), \<^verbatim>\<open>boot_allocator\<close>, \<^verbatim>\<open>boot_backend\<close> and \<^verbatim>\<open>action_slot\<close>.

  \<^bold>\<open>Bounds.\<close>  No model has fuel: loops that end by a measure are functions with a termination proof, the others are partial
  functions, and the theorems about them say that they return.  A key must stay for seven reads of the UART: a round reads
  it at most six times before it waits for a change, and the read that sees the next key has consumed one.

  \<^bold>\<open>Where the code departs from its documentation\<close>, the theorems say what it does: a full table of callbacks is written past
  its end; a free list that is not empty accepts no further region, so only the first piece of memory is used, or merges one that is not adjacent; a register
  block with an index other than 0 is read at the wrong offset; a memory node with several blocks is reported by its first
  one each time; a list of strings without terminator is read beyond its end; a node above the root makes the ancestors of
  the nodes behind it undefined; a malformed phandle makes the search loop for ever; the
  check of a register's offset wraps around at 32 bits; a reserve entry whose end wraps around does not keep its memory from
  being given away; the sum of two calls that both change the free list is evaluated in an order that C leaves open, and in one of
  them the second call stores through a null pointer; a kernel that finds no memory goes on with a null allocation; a final percent sign is not printed.

  \<^bold>\<open>Not modelled.\<close>  The assembly in \<^verbatim>\<open>entry.S\<close> and the linker scripts, which are no C; what they decide (the end of the
  kernel, the arrays of constructors and destructors, the address of the callback, the functions behind function
  pointers) is an argument of the definitions, as is the order in which the compiler evaluates the operands of a sum.  The UART is modelled as the bytes that reads deliver and the calls that write;
  that its pointer is not volatile, so that a compiler may merge reads, is outside of the model.  The build system, the
  scripts and the headers that only declare are no code of the running kernel.
\<close>

section \<open>Properties that span the components\<close>

text \<open>C1. The whole run.  The machine starts with a device tree in memory, which may have any number of
  memory nodes in one of the two layouts of C9 (\<^const>\<open>bootable\<close>), an empty table of callbacks, and a
  UART on which some ordinary keys and then a command are typed.  Then \<^verbatim>\<open>kmain\<close> ends, and the console has received, in this
  order: the greeting, the tree, the memory found, the free list before and after the allocation of a page that is
  aligned, inside of the free memory and taken out of it, the complaints about missing system controller
  nodes, the output of the constructors, the keys, and the last words of the command; the callback has stored each of these
  bytes to the UART's register, in this order.  \<^verbatim>\<open>%\<close> runs the destructors and
  returns, \<^verbatim>\<open>!\<close> panics, and \<^verbatim>\<open>^\<close> and \<^verbatim>\<open>&\<close>, if the tree enables them, write the register it names.  Apart from that register only
  the free memory is written.\<close>

theorem kmain_correct:
  fixes s :: "'z kernel_scheme"
  assumes boot: "bootable s l fdt es ts strs free" and fresh: "console_fresh s"
    and cb: "uart_putchar l \<noteq> NULL" and hart: "printable_hart ar hartid"
    and pre: "func_array call s (free_bytes free) (preinit_array_start l) (preinit_array_end l) before"
    and ctor: "func_array call s (free_bytes free) (init_array_start l) (init_array_end l) ctors"
    and dtor: "func_array call s (free_bytes free) (fini_array_start l) (fini_array_end l) dtors"
    and r: "r = (\<not> isl (syscon_spec ts strs (bytes_of ''syscon-reboot'')))"
    and d: "d = (\<not> isl (syscon_spec ts strs (bytes_of ''syscon-poweroff'')))"
    and keys: "list_all (ordinary r d) ks" "command r d k \<noteq> Continue" "7 \<le> m" "distinct_adj (map fst ks @ [k])"
      "uart_rx s = typed (ks @ [(k, m)]) rest"
  shows "\<exists>p rs u t. kmain ar call l s hartid fdt = Some (way_out (command r d k), t) \<and>
    page_ok free p rs \<and> free_list_ok u rs \<and> writes_only (free_bytes free) s u \<and> mem t = mem (acted ts strs (command r d k) u) \<and>
    sent_to (uart_putchar l) t = greeting ar hartid @ setup_text fdt ts strs free p rs @ before @ ctors @
      concat (map echo (map fst ks @ [k])) @ last_words dtors (command r d k) \<and>
    uart_stores ar l t = map (Pair (UART ar)) (sent_to (uart_putchar l) t)"
  using kmain_run [OF assms] uart_stores_eq by blast

theorem kmain_correct_witness:
  "\<exists>p rs (u :: kernel) t. kmain RISCV virt_call virt_linked (virt_cold (typed [(104, 7), (105, 7), (38, 7)] (sconst 0))) 0 virt_base =
      Some (Stopped Register_Written, t) \<and> mem t = mem (store32 u 0x100000 0x5555) \<and>
     page_ok [(0x80200000, 0x7c00000)] p rs \<and> free_list_ok u rs \<and>
     sent_to 0x80000100 t = greeting RISCV 0 @ setup_text virt_base virt_tokens virt_strings
       [(0x80200000, 0x7c00000)] p rs @ bytes_of ''Hello from a global constructor!\<newline>'' @ [104, 105, 38] \<and>
     uart_stores RISCV virt_linked t = map (Pair 0x10000000) (sent_to 0x80000100 t)"
proof -
  let ?s = "virt_cold (typed [(104, 7), (105, 7), (38, 7)] (sconst 0))"
  have hyps: "uart_putchar virt_linked \<noteq> NULL" "printable_hart RISCV 0"
    "False = (\<not> isl (syscon_spec virt_tokens virt_strings (bytes_of ''syscon-reboot'')))"
    "True = (\<not> isl (syscon_spec virt_tokens virt_strings (bytes_of ''syscon-poweroff'')))"
    "list_all (ordinary False True) [(104, 7), (105, 7)]" "command False True 38 \<noteq> Continue" "(7 :: nat) \<le> 7"
    "distinct_adj (map fst [(104 :: byte, 7 :: nat), (105, 7)] @ [38])"
    "uart_rx ?s = typed ([(104, 7), (105, 7)] @ [(38, 7)]) (sconst 0)"
    by (simp_all add: virt_linked_def printable_hart_def virt_spec ordinary_def command_def virt_cold_def)
  have cb: "uart_putchar virt_linked = 0x80000100" by (simp add: virt_linked_def)
  have c: "command False True 38 = Shutdown" by (simp add: command_def)
  have "masked virt_shutdown w = 0x5555" for w by (rule bit_word_eqI) (simp add: bit_masked virt_shutdown_def)
  then have "acted virt_tokens virt_strings Shutdown (u :: kernel) = store32 u 0x100000 0x5555" for u
    by (simp add: acted_def set_register_def virt_spec) (simp add: virt_shutdown_def)
  then show ?thesis
    using kmain_correct [OF virt_bootable virt_console hyps(1,2) virt_arrays hyps(3-9)]
    unfolding c cb by (simp add: way_out_def last_words_def echo_def UART_def) blast
qed

text \<open>C18. The same run when the kernel finds no memory: no block of any memory node has a byte that is above the kernel and not reserved,
  or there is no such node.  \<^verbatim>\<open>kmain\<close> does not notice: the memory found is reported as zero, the allocation returns
  null and is printed as such, both dumps of the free list are empty, and the run goes on to the commands.  Memory
  is not written at all, but for the register of the last command.\<close>

theorem kmain_no_memory:
  fixes s :: "'z kernel_scheme"
  assumes boot: "bootable s l fdt es ts strs []" and fresh: "console_fresh s"
    and cb: "uart_putchar l \<noteq> NULL" and hart: "printable_hart ar hartid"
    and pre: "func_array call s {} (preinit_array_start l) (preinit_array_end l) before"
    and ctor: "func_array call s {} (init_array_start l) (init_array_end l) ctors"
    and dtor: "func_array call s {} (fini_array_start l) (fini_array_end l) dtors"
    and r: "r = (\<not> isl (syscon_spec ts strs (bytes_of ''syscon-reboot'')))"
    and d: "d = (\<not> isl (syscon_spec ts strs (bytes_of ''syscon-poweroff'')))"
    and keys: "list_all (ordinary r d) ks" "command r d k \<noteq> Continue" "7 \<le> m" "distinct_adj (map fst ks @ [k])"
      "uart_rx s = typed (ks @ [(k, m)]) rest"
  shows "\<exists>t. kmain ar call l s hartid fdt = Some (way_out (command r d k), t) \<and>
    mem t = mem (acted ts strs (command r d k) s) \<and>
    sent_to (uart_putchar l) t = greeting ar hartid @ dump_text ts fdt @
      report_lines (memory_reports ts strs ts) @ totals (reported (memory_reports ts strs ts)) 0 @
      boot_dump [] @ alloc_line NULL @ boot_dump [] @
      problem ''reboot'' (syscon_spec ts strs (bytes_of ''syscon-reboot'')) @
      problem ''shutdown'' (syscon_spec ts strs (bytes_of ''syscon-poweroff'')) @
      before @ ctors @ concat (map echo (map fst ks @ [k])) @ last_words dtors (command r d k)"
proof -
  obtain p rs u t where run: "kmain ar call l s hartid fdt = Some (way_out (command r d k), t)"
    "page_ok [] p rs" "writes_only {} s u" "byte_order u = byte_order s" "mem t = mem (acted ts strs (command r d k) u)"
    "sent_to (uart_putchar l) t = greeting ar hartid @ setup_text fdt ts strs [] p rs @ before @ ctors @
      concat (map echo (map fst ks @ [k])) @ last_words dtors (command r d k)"
    using kmain_run [OF boot fresh cb hart _ _ _ r d keys] pre ctor dtor by fastforce
  have "mem u = mem s" using run(3) by (auto simp: writes_only_def)
  then have "mem t = mem (acted ts strs (command r d k) s)" using run(5) acted_frame [OF _ run(4)] by simp
  moreover have "p = NULL \<and> rs = []" using page_none [OF run(2)] .
  ultimately show ?thesis using run(1,6) by (simp add: setup_text_def free_size_def)
qed

theorem kmain_no_memory_witness:
  "\<exists>t. kmain RISCV virt_call huge_linked (virt_cold (typed [(37, 7)] (sconst 0))) 0 virt_base = Some (Returned, t) \<and>
     mem t = mem (virt_cold (typed [(37, 7)] (sconst 0))) \<and>
     sent_to 0x80000100 t = greeting RISCV 0 @ dump_text virt_tokens virt_base @
       memory_line (bytes_of ''memory@80000000'') 0 0x80000000 0x8000000 @ totals 0x8000000 0 @
       boot_dump [] @ bytes_of ''alloc = 0x0000000000000000\<newline>'' @ boot_dump [] @ bytes_of ''Error setting up syscon reboot\<newline>'' @
       bytes_of ''Hello from a global constructor!\<newline>'' @ [37] @ bytes_of ''Hello from a global destructor!\<newline>''"
proof -
  let ?s = "virt_cold (typed [(37, 7)] (sconst 0))"
  have hyps: "uart_putchar huge_linked \<noteq> NULL" "printable_hart RISCV 0"
    "False = (\<not> isl (syscon_spec virt_tokens virt_strings (bytes_of ''syscon-reboot'')))"
    "True = (\<not> isl (syscon_spec virt_tokens virt_strings (bytes_of ''syscon-poweroff'')))"
    "list_all (ordinary False True) []" "command False True 37 \<noteq> Continue" "(7 :: nat) \<le> 7"
    "distinct_adj (map fst ([] :: (byte \<times> nat) list) @ [37])" "uart_rx ?s = typed ([] @ [(37, 7)]) (sconst 0)"
    by (simp_all add: huge_linked_def virt_linked_def printable_hart_def virt_spec command_def virt_cold_def)
  have cb: "uart_putchar huge_linked = 0x80000100" by (simp add: huge_linked_def virt_linked_def)
  have c: "command False True 37 = Quit" by (simp add: command_def)
  have line: "alloc_line NULL = bytes_of ''alloc = 0x0000000000000000\<newline>''"
    by (simp add: alloc_line_def hex_text_def bytes_of_def numeral_eq_Suc)
  have spec: "problem ''reboot'' (syscon_spec virt_tokens virt_strings (bytes_of ''syscon-reboot'')) =
      bytes_of ''Error setting up syscon reboot\<newline>''"
    "problem ''shutdown'' (syscon_spec virt_tokens virt_strings (bytes_of ''syscon-poweroff'')) = []"
    by (simp_all add: virt_spec problem_def)
  show ?thesis
    using kmain_no_memory [OF huge_bootable virt_console hyps(1,2) huge_arrays hyps(3-9)]
    unfolding cb c line spec by (simp add: way_out_def last_words_def echo_def acted_def virt_reports report_lines_def reported_def)
qed

text \<open>C17. A device tree with a wrong magic number or an incompatible version: \<^verbatim>\<open>kmain\<close> reports it on the UART and panics, and
  has written nothing to memory.\<close>

theorem kmain_bad_fdt:
  fixes s :: "'z kernel_scheme"
  assumes "console_fresh s" and "uart_putchar l \<noteq> NULL" and "printable_hart ar hartid" and "fdt_verify s fdt \<noteq> FDT_VALID"
  shows "\<exists>t. kmain ar call l s hartid fdt = Some (Stopped Panicked, t) \<and> mem t = mem s \<and>
    sent_to (uart_putchar l) t = greeting ar hartid @ bytes_of ''Cannot Read the FDT!\<newline>'' @ panic_text"
proof -
  let ?t = "emit (registered s (uart_putchar l)) (greeting ar hartid @ bytes_of ''Cannot Read the FDT!\<newline>'' @ panic_text)"
  have "sent_to (uart_putchar l) ?t = greeting ar hartid @ bytes_of ''Cannot Read the FDT!\<newline>'' @ panic_text"
    by (rule sent_registered [OF assms(1,2)]) (simp add: same_devices_def)
  moreover have "kmain ar call l s hartid fdt = Some (Stopped Panicked, ?t)"
    using assms(4) by (simp add: kmain_start [OF assms(1,3)])
  ultimately show ?thesis by (intro exI [of _ ?t]) simp
qed

theorem kmain_bad_fdt_witness:
  "\<exists>t. kmain ARM64 virt_call virt_linked ((virt_cold (sconst 0))\<lparr>mem := (\<lambda>_. 0)\<rparr>) 0 virt_base = Some (Stopped Panicked, t) \<and>
     mem t = (\<lambda>_. 0) \<and> sent_to 0x80000100 t = bytes_of ''Cannot Read the FDT!\<newline>KERNEL PANIC\<newline>''"
proof -
  let ?s = "(virt_cold (sconst 0))\<lparr>mem := (\<lambda>_. 0)\<rparr>"
  have "config_ok ?s" using virt_cold_blob by (simp add: has_blob_def config_ok_def)
  moreover have "be_join (read_bytes ?s virt_base 4) = (0 :: u32)"
    by (simp add: be_join_def read_bytes_def numeral_eq_Suc)
  ultimately have "fdt_verify ?s virt_base \<noteq> FDT_VALID"
    by (simp add: fdt_verify_def fdt_at_def be_load FDT_HEADER_MAGIC_def)
  moreover have "console_fresh ?s" using virt_console by (simp add: console_fresh_def)
  ultimately show ?thesis
    using kmain_bad_fdt [of ?s virt_linked ARM64 0 virt_base virt_call]
    by (simp add: printable_hart_def greeting_def) (simp add: virt_linked_def bytes_of_def)
qed

end
